(* ===== verification/Prelude.thy ===== *)
theory Prelude
  imports Main "HOL-Library.Word"
begin

text \<open>
  What the components share: the types of the model (bytes, strings, machine integers, results),
  the functions of Rust's standard library the sources call on strings and byte slices
  (\<^verbatim>\<open>String::from_utf8_lossy\<close>, \<^verbatim>\<open>to_ascii_uppercase\<close>, \<^verbatim>\<open>str::trim\<close>, the \<^verbatim>\<open>is_ascii_*\<close>
  predicates, big-endian conversion), and the lemmas about them that the component proofs use.

  A \<^verbatim>\<open>u8\<close> is a HOL \<^typ>\<open>char\<close>, which is a value of eight bits, so that a byte slice and a Rust
  \<^verbatim>\<open>String\<close> (its UTF-8 bytes) are both a \<^typ>\<open>string\<close> and the byte literals of the sources keep
  their spelling. Counters keep their width as words; a \<^verbatim>\<open>usize\<close> length is a \<^typ>\<open>nat\<close>.
\<close>

section \<open>Types\<close>

type_synonym byte = char
type_synonym u32 = "32 word"
type_synonym u64 = "64 word"

text \<open>The numeric value of a byte.\<close>

abbreviation ord :: "byte \<Rightarrow> nat" where
  "ord b \<equiv> of_char b"

abbreviation NUL :: byte where
  "NUL \<equiv> CHR 0x00"

text \<open>
  The errors a connection or a command ends with. \<open>InvalidData\<close> and \<open>UnexpectedEof\<close> are the
  \<^verbatim>\<open>io::ErrorKind\<close>s the wire layer produces, \<open>Io\<close> is an error of a socket or a file, \<open>Bail\<close> an
  \<^verbatim>\<open>anyhow\<close> message of the program, \<open>External\<close> an error returned by a library the program calls,
  \<open>Timeout\<close> the elapsed handshake timer and \<open>Panic\<close> a panic of the task.
\<close>

datatype err =
    InvalidData string
  | UnexpectedEof
  | Io string
  | Bail string
  | External string
  | Timeout
  | Panic string

text \<open>The question-mark operator: stop at the first error.\<close>

definition try_then :: "'e + 'a \<Rightarrow> ('a \<Rightarrow> 'e + 'b) \<Rightarrow> 'e + 'b" where
  "try_then r k = (case r of Inl e \<Rightarrow> Inl e | Inr x \<Rightarrow> k x)"

lemma try_then_simps [simp]:
  "try_then (Inl e) k = Inl e"
  "try_then (Inr x) k = k x"
  by (simp_all add: try_then_def)

lemma try_then_eq_Inr [simp]: "try_then r k = Inr y \<longleftrightarrow> (\<exists>x. r = Inr x \<and> k x = Inr y)"
  by (cases r) auto

section \<open>Collections of facts\<close>

text \<open>
  \<open>stream_defs\<close> unfolds the operations on streams down to their channels and sinks, \<open>example_defs\<close> the
  concrete sessions the examples evaluate.
\<close>

named_theorems stream_defs
named_theorems example_defs

section \<open>ASCII classes\<close>

definition is_ascii :: "byte \<Rightarrow> bool" where
  "is_ascii b \<longleftrightarrow> ord b < 128"

definition is_ascii_whitespace :: "byte \<Rightarrow> bool" where
  "is_ascii_whitespace b \<longleftrightarrow> ord b \<in> {0x20, 0x09, 0x0A, 0x0C, 0x0D}"

definition is_ascii_uppercase :: "byte \<Rightarrow> bool" where
  "is_ascii_uppercase b \<longleftrightarrow> 65 \<le> ord b \<and> ord b \<le> 90"

definition is_ascii_lowercase :: "byte \<Rightarrow> bool" where
  "is_ascii_lowercase b \<longleftrightarrow> 97 \<le> ord b \<and> ord b \<le> 122"

definition is_ascii_digit :: "byte \<Rightarrow> bool" where
  "is_ascii_digit b \<longleftrightarrow> 48 \<le> ord b \<and> ord b \<le> 57"

definition is_ascii_alphabetic :: "byte \<Rightarrow> bool" where
  "is_ascii_alphabetic b \<longleftrightarrow> is_ascii_uppercase b \<or> is_ascii_lowercase b"

definition is_ascii_alphanumeric :: "byte \<Rightarrow> bool" where
  "is_ascii_alphanumeric b \<longleftrightarrow> is_ascii_alphabetic b \<or> is_ascii_digit b"

definition to_ascii_uppercase_byte :: "byte \<Rightarrow> byte" where
  "to_ascii_uppercase_byte b = (if is_ascii_lowercase b then char_of (ord b - 32) else b)"

definition to_ascii_uppercase :: "string \<Rightarrow> string" where
  "to_ascii_uppercase s = map to_ascii_uppercase_byte s"

lemmas ascii_defs = is_ascii_def is_ascii_whitespace_def is_ascii_uppercase_def
  is_ascii_lowercase_def is_ascii_digit_def is_ascii_alphabetic_def is_ascii_alphanumeric_def

lemma is_ascii_alphanumericD: "is_ascii_alphanumeric b \<Longrightarrow> is_ascii b"
  by (auto simp: ascii_defs)

lemma is_ascii_alphabeticD: "is_ascii_alphabetic b \<Longrightarrow> is_ascii_alphanumeric b"
  by (simp add: is_ascii_alphanumeric_def)

lemma ord_less_256 [simp]: "ord b < 256"
  using of_char_mod_256 [of b, where ?'a = nat] by (metis mod_less_divisor zero_less_numeral)

section \<open>\<^verbatim>\<open>String::from_utf8_lossy\<close>\<close>

text \<open>
  The decoder of the standard library reads one sequence at a time. The width of a sequence is
  given by its first byte; the second byte is checked against the range the first one allows (no
  overlong form, no surrogate, nothing above U+10FFFF), the rest must be continuation bytes. A
  missing byte reads as 0. What was inspected of a broken sequence becomes one U+FFFD.
\<close>

definition safe_get :: "string \<Rightarrow> nat \<Rightarrow> byte" where
  "safe_get xs i = (if i < length xs then xs ! i else NUL)"

definition utf8_char_width :: "byte \<Rightarrow> nat" where
  "utf8_char_width b =
     (let n = ord b in
      if n < 0x80 then 1
      else if 0xC2 \<le> n \<and> n \<le> 0xDF then 2
      else if 0xE0 \<le> n \<and> n \<le> 0xEF then 3
      else if 0xF0 \<le> n \<and> n \<le> 0xF4 then 4
      else 0)"

definition is_cont :: "byte \<Rightarrow> bool" where
  "is_cont b \<longleftrightarrow> 0x80 \<le> ord b \<and> ord b \<le> 0xBF"

definition second_ok :: "byte \<Rightarrow> byte \<Rightarrow> bool" where
  "second_ok b c \<longleftrightarrow>
     (let n = ord b; m = ord c in
      (n = 0xE0 \<and> 0xA0 \<le> m \<and> m \<le> 0xBF) \<or>
      (0xE1 \<le> n \<and> n \<le> 0xEC \<and> 0x80 \<le> m \<and> m \<le> 0xBF) \<or>
      (n = 0xED \<and> 0x80 \<le> m \<and> m \<le> 0x9F) \<or>
      (0xEE \<le> n \<and> n \<le> 0xEF \<and> 0x80 \<le> m \<and> m \<le> 0xBF) \<or>
      (n = 0xF0 \<and> 0x90 \<le> m \<and> m \<le> 0xBF) \<or>
      (0xF1 \<le> n \<and> n \<le> 0xF3 \<and> 0x80 \<le> m \<and> m \<le> 0xBF) \<or>
      (n = 0xF4 \<and> 0x80 \<le> m \<and> m \<le> 0x8F))"

text \<open>
  \<open>utf8_seq b xs\<close>: the number of bytes after \<open>b\<close> that were inspected, and whether the sequence
  is well formed.
\<close>

definition utf8_seq :: "byte \<Rightarrow> string \<Rightarrow> nat \<times> bool" where
  "utf8_seq b xs =
     (let w = utf8_char_width b in
      if w = 1 then (0, True)
      else if w = 2 then (if is_cont (safe_get xs 0) then (1, True) else (0, False))
      else if w = 3 then
        (if \<not> second_ok b (safe_get xs 0) then (0, False)
         else if \<not> is_cont (safe_get xs 1) then (1, False)
         else (2, True))
      else if w = 4 then
        (if \<not> second_ok b (safe_get xs 0) then (0, False)
         else if \<not> is_cont (safe_get xs 1) then (1, False)
         else if \<not> is_cont (safe_get xs 2) then (2, False)
         else (3, True))
      else (0, False))"

definition replacement :: string where
  "replacement = [CHR 0xEF, CHR 0xBF, CHR 0xBD]"

function from_utf8_lossy :: "string \<Rightarrow> string" where
  "from_utf8_lossy [] = []"
| "from_utf8_lossy (b # xs) =
     (case utf8_seq b xs of (n, ok) \<Rightarrow>
        (if ok then b # take n xs else replacement) @ from_utf8_lossy (drop n xs))"
  by pat_completeness auto
termination
  by (relation "measure length") auto

lemma utf8_seq_ascii [simp]: "is_ascii b \<Longrightarrow> utf8_seq b xs = (0, True)"
  by (simp add: utf8_seq_def utf8_char_width_def is_ascii_def)

lemma from_utf8_lossy_ascii [simp]:
  "list_all is_ascii bs \<Longrightarrow> from_utf8_lossy bs = bs"
  by (induction bs) auto

section \<open>\<^verbatim>\<open>str::trim\<close> on UTF-8\<close>

text \<open>
  \<open>ws_width s\<close> is the length of the Unicode white-space character \<open>s\<close> starts with, 0 if it starts
  with none: U+0009 to U+000D, U+0020, U+0085, U+00A0, U+1680, U+2000 to U+200A, U+2028, U+2029,
  U+202F, U+205F and U+3000. \<^verbatim>\<open>s.trim().is_empty()\<close> holds iff \<open>s\<close> consists of such characters.
\<close>

definition ws_width :: "string \<Rightarrow> nat" where
  "ws_width s =
     (let a = ord (safe_get s 0); b = ord (safe_get s 1); c = ord (safe_get s 2) in
      if s = [] then 0
      else if (0x09 \<le> a \<and> a \<le> 0x0D) \<or> a = 0x20 then 1
      else if a = 0xC2 \<and> (b = 0x85 \<or> b = 0xA0) then 2
      else if a = 0xE1 \<and> b = 0x9A \<and> c = 0x80 then 3
      else if a = 0xE2 \<and> b = 0x80 \<and> ((0x80 \<le> c \<and> c \<le> 0x8A) \<or> c = 0xA8 \<or> c = 0xA9 \<or> c = 0xAF) then 3
      else if a = 0xE2 \<and> b = 0x81 \<and> c = 0x9F then 3
      else if a = 0xE3 \<and> b = 0x80 \<and> c = 0x80 then 3
      else 0)"

function trim_start :: "string \<Rightarrow> string" where
  "trim_start s = (if ws_width s = 0 then s else trim_start (drop (ws_width s) s))"
  by pat_completeness auto
termination
proof (relation "measure length")
  fix s :: string
  assume "ws_width s \<noteq> 0"
  moreover from this have "s \<noteq> []" by (auto simp: ws_width_def)
  ultimately show "(drop (ws_width s) s, s) \<in> measure length" by simp
qed simp

declare trim_start.simps [simp del]

definition trim_is_empty :: "string \<Rightarrow> bool" where
  "trim_is_empty s \<longleftrightarrow> trim_start s = []"

section \<open>Big-endian integers\<close>

definition from_be_bytes :: "string \<Rightarrow> u32" where
  "from_be_bytes bs = word_of_nat (foldl (\<lambda>n c. n * 256 + ord c) 0 bs)"

definition to_be_bytes :: "u32 \<Rightarrow> string" where
  "to_be_bytes w =
     [char_of (unat w div 2 ^ 24), char_of (unat w div 2 ^ 16),
      char_of (unat w div 2 ^ 8), char_of (unat w)]"

lemma length_to_be_bytes [simp]: "length (to_be_bytes w) = 4"
  by (simp add: to_be_bytes_def)

lemma div_shifts:
  "(n :: nat) div 2 ^ 8 = n div 256"
  "n div 2 ^ 16 = n div 256 div 256"
  "n div 2 ^ 24 = n div 256 div 256 div 256"
  by (simp_all add: div_mult2_eq [symmetric])

lemma be_digits:
  assumes "n < 2 ^ 32"
  shows "((n div 2 ^ 24 mod 256 * 256 + n div 2 ^ 16 mod 256) * 256 + n div 2 ^ 8 mod 256) * 256
     + n mod 256 = (n :: nat)"
proof -
  have "n div 2 ^ 24 < 256" using assms by (simp add: less_mult_imp_div_less)
  then have "n div 2 ^ 24 mod 256 = n div 2 ^ 24" by (rule mod_less)
  then show ?thesis by (simp only: div_shifts div_mult_mod_eq)
qed

lemma be_digit:
  "z < (256 :: nat) \<Longrightarrow> (a * 256 + z) mod 256 = z"
  "z < 256 \<Longrightarrow> (a * 256 + z) div 256 = a"
  by simp_all

lemma be_digit_less: "a < b \<Longrightarrow> z < 256 \<Longrightarrow> a * 256 + z < b * (256 :: nat)"
  by linarith

lemma be_value_less:
  assumes "x < 256" "y < 256" "z < 256" "w < (256 :: nat)"
  shows "((x * 256 + y) * 256 + z) * 256 + w < 2 ^ 32"
proof -
  have "((x * 256 + y) * 256 + z) * 256 + w < 256 * 256 * 256 * 256"
    using assms by (intro be_digit_less)
  then show ?thesis by simp
qed

lemma be_unique:
  assumes "x < 256" "y < 256" "z < 256" "w < (256 :: nat)"
    and n: "n = ((x * 256 + y) * 256 + z) * 256 + w"
  shows "n div 2 ^ 24 mod 256 = x" "n div 2 ^ 16 mod 256 = y" "n div 2 ^ 8 mod 256 = z"
    "n mod 256 = w"
  using assms(1-4) by (simp_all only: n div_shifts be_digit mod_less)

lemma char_of_eqI: "n mod 256 = ord a \<Longrightarrow> char_of n = a"
  by (simp add: char_of_eq_iff take_bit_eq_mod)

lemma from_be_to_be [simp]: "from_be_bytes (to_be_bytes w) = w"
proof -
  have "unat w < 2 ^ 32" using unsigned_less [of w, where ?'a = nat] by simp
  from be_digits [OF this] show ?thesis
    by (simp only: from_be_bytes_def to_be_bytes_def of_char_of foldl_Cons foldl_Nil
        mult_zero_left add_0) simp
qed

lemma length_4_cases:
  assumes "length bs = 4"
  obtains a b c d where "bs = [a, b, c, d]"
  using assms by (auto simp: numeral_eq_Suc length_Suc_conv)

lemma to_be_from_be:
  assumes "length bs = 4"
  shows "to_be_bytes (from_be_bytes bs) = bs"
proof -
  from assms obtain a b c d where bs: "bs = [a, b, c, d]" by (rule length_4_cases)
  define n where "n = ((ord a * 256 + ord b) * 256 + ord c) * 256 + ord d"
  have "n < 2 ^ 32" unfolding n_def by (intro be_value_less) simp_all
  then have un: "unat (word_of_nat n :: u32) = n" by (simp add: unat_of_nat)
  note digits = be_unique [OF ord_less_256 ord_less_256 ord_less_256 ord_less_256 n_def]
  have "from_be_bytes bs = word_of_nat n"
    by (simp add: bs from_be_bytes_def n_def)
  moreover note digits [THEN char_of_eqI]
  ultimately show ?thesis
    by (simp only: to_be_bytes_def un bs)
qed

lemma unat_of_nat_u32: "n < 2 ^ 32 \<Longrightarrow> unat (word_of_nat n :: u32) = n"
  by (simp add: unat_of_nat)

section \<open>Lists\<close>

lemma append_eq_prefixE:
  assumes "b @ r = x @ y"
  obtains (whole) b' where "b = x @ b'" "b' @ r = y"
  | (part) q where "x = b @ q" "q \<noteq> []" "r = q @ y"
proof -
  from assms consider us where "b = x @ us" "us @ r = y" | us where "b @ us = x" "r = us @ y"
    by (auto simp: append_eq_append_conv2)
  then show thesis
  proof cases
    case 1
    then show ?thesis by (rule whole)
  next
    case (2 us)
    show ?thesis
    proof (cases "us = []")
      case True
      with 2 show ?thesis by (intro whole [of "[]"]) simp_all
    next
      case False
      with 2 show ?thesis by (intro part [of us]) simp_all
    qed
  qed
qed

section \<open>Operations that change a state and may fail\<close>

text \<open>
  An operation on a state \<open>'s\<close> returns its result and the state it leaves, also when it fails: what
  was written before an error stays written. \<open>and_then\<close> is the question-mark operator followed by
  the rest of the function.
\<close>

type_synonym ('s, 'a) io = "'s \<Rightarrow> (err + 'a) \<times> 's"

definition and_then :: "('s, 'a) io \<Rightarrow> ('a \<Rightarrow> ('s, 'b) io) \<Rightarrow> ('s, 'b) io" where
  "and_then m k s = (case m s of (Inl e, s') \<Rightarrow> (Inl e, s') | (Inr x, s') \<Rightarrow> k x s')"

definition io_return :: "'a \<Rightarrow> ('s, 'a) io" where
  "io_return x s = (Inr x, s)"

text \<open>An operation on a part of the state.\<close>

definition on_part :: "('s \<Rightarrow> 'p) \<Rightarrow> ('p \<Rightarrow> 's \<Rightarrow> 's) \<Rightarrow> ('p, 'a) io \<Rightarrow> ('s, 'a) io" where
  "on_part get put m s = (case m (get s) of (r, p) \<Rightarrow> (r, put p s))"

text \<open>Collecting an iterator of results: the first error, or all values.\<close>

fun collect_results :: "('e + 'a) list \<Rightarrow> 'e + 'a list" where
  "collect_results [] = Inr []"
| "collect_results (r # rs) = try_then r (\<lambda>x. try_then (collect_results rs) (\<lambda>xs. Inr (x # xs)))"

lemma collect_results_Inr: "collect_results rs = Inr xs \<longleftrightarrow> rs = map Inr xs"
proof (induction rs arbitrary: xs)
  case (Cons r rs)
  then show ?case by (cases xs) auto
qed auto

lemma io_return_simp [simp]: "io_return x s = (Inr x, s)"
  by (simp add: io_return_def)

lemma and_then_simps [simp]:
  "m s = (Inl e, s') \<Longrightarrow> and_then m k s = (Inl e, s')"
  "m s = (Inr x, s') \<Longrightarrow> and_then m k s = k x s'"
  by (simp_all add: and_then_def)

lemma and_then_Inr:
  "and_then m k s = (Inr y, s'') \<longleftrightarrow> (\<exists>x s'. m s = (Inr x, s') \<and> k x s' = (Inr y, s''))"
  by (auto simp: and_then_def split: prod.splits sum.splits)

lemma and_then_Inl:
  "and_then m k s = (Inl e, s'') \<longleftrightarrow>
   m s = (Inl e, s'') \<or> (\<exists>x s'. m s = (Inr x, s') \<and> k x s' = (Inl e, s''))"
  by (auto simp: and_then_def split: prod.splits sum.splits)

text \<open>A property of states that both parts of a sequence keep.\<close>

lemma and_then_keeps:
  assumes "\<And>s. P (snd (m s)) = P s" and "\<And>x s. P (snd (k x s)) = P s"
  shows "P (snd (and_then m k s)) = P s"
  using assms(1) [of s] assms(2) by (auto simp: and_then_def split: prod.split sum.split)

section \<open>Byte sinks\<close>

text \<open>
  What a program writes to, a file or one direction of a socket: the bytes accepted so far and how
  many more will be accepted (\<open>None\<close>: any number). \<^verbatim>\<open>write_all\<close> fails when they do not suffice, and
  part of the buffer may then have been written.
\<close>

record Sink =
  written :: string
  room :: "nat option"

definition write_all :: "string \<Rightarrow> (Sink, unit) io" where
  "write_all bs k =
     (case room k of
        None \<Rightarrow> (Inr (), k\<lparr>written := written k @ bs\<rparr>)
      | Some n \<Rightarrow>
          if length bs \<le> n
          then (Inr (), k\<lparr>written := written k @ bs, room := Some (n - length bs)\<rparr>)
          else (Inl (Io ''write''), k\<lparr>written := written k @ take n bs, room := Some 0\<rparr>))"

lemma write_all_Inr: "write_all bs k = (Inr u, k') \<Longrightarrow> written k' = written k @ bs"
  by (auto simp: write_all_def split: option.splits if_splits)

lemma write_all_Inl:
  "write_all bs k = (Inl e, k') \<Longrightarrow> \<exists>n. written k' = written k @ take n bs \<and> room k = Some n \<and> n < length bs"
  by (auto simp: write_all_def split: option.splits if_splits)

lemma write_all_unlimited [simp]:
  "room k = None \<Longrightarrow> write_all bs k = (Inr (), k\<lparr>written := written k @ bs\<rparr>)"
  by (simp add: write_all_def)

lemma write_all_prefix: "\<exists>n. written (snd (write_all bs k)) = written k @ take n bs"
proof (cases "write_all bs k")
  case (Pair r k')
  then show ?thesis
    using write_all_Inr [of bs k _ k'] write_all_Inl [of bs k _ k'] by (cases r) (auto intro: exI [of _ "length bs"])
qed

section \<open>Lines of a file\<close>

text \<open>
  \<^verbatim>\<open>BufRead::lines\<close>: a line ends at a line feed, a carriage return before the line feed is dropped,
  and a line that is not UTF-8 is an error. The lossy decoder changes exactly what is not UTF-8.
\<close>

abbreviation LF :: byte where "LF \<equiv> CHR 0x0A"
abbreviation CR :: byte where "CR \<equiv> CHR 0x0D"

definition from_utf8 :: "string \<Rightarrow> err + string" where
  "from_utf8 bs =
     (if from_utf8_lossy bs = bs then Inr bs
      else Inl (InvalidData ''stream did not contain valid UTF-8''))"

definition strip_cr :: "string \<Rightarrow> string" where
  "strip_cr l = (if l \<noteq> [] \<and> last l = CR then butlast l else l)"

function file_lines :: "string \<Rightarrow> (err + string) list" where
  "file_lines bs =
     (if bs = [] then []
      else case dropWhile (\<lambda>c. c \<noteq> LF) bs of
        [] \<Rightarrow> [from_utf8 bs]
      | _ # rest \<Rightarrow> from_utf8 (strip_cr (takeWhile (\<lambda>c. c \<noteq> LF) bs)) # file_lines rest)"
  by pat_completeness auto
termination
proof (relation "measure length")
  fix bs rest :: string and x
  assume "dropWhile (\<lambda>c. c \<noteq> LF) bs = x # rest"
  then have "length (x # rest) \<le> length bs" by (metis length_dropWhile_le)
  then show "(rest, bs) \<in> measure length" by simp
qed simp

declare file_lines.simps [simp del]

text \<open>A text that is read back as it was written when it is a line of its own.\<close>

definition line_ok :: "string \<Rightarrow> bool" where
  "line_ok l \<longleftrightarrow> LF \<notin> set l \<and> from_utf8_lossy l = l \<and> strip_cr l = l"

definition as_lines :: "string list \<Rightarrow> string" where
  "as_lines ls = concat (map (\<lambda>l. l @ [LF]) ls)"

lemma as_lines_simps [simp]:
  "as_lines [] = []" "as_lines (l # ls) = l @ LF # as_lines ls"
  "as_lines (xs @ ys) = as_lines xs @ as_lines ys"
  by (simp_all add: as_lines_def)

lemma file_lines_Cons:
  assumes "LF \<notin> set l"
  shows "file_lines (l @ LF # rest) = from_utf8 (strip_cr l) # file_lines rest"
proof -
  from assms have "\<forall>c \<in> set l. c \<noteq> LF" by auto
  then have "dropWhile (\<lambda>c. c \<noteq> LF) (l @ LF # rest) = LF # rest"
    and "takeWhile (\<lambda>c. c \<noteq> LF) (l @ LF # rest) = l"
    by (simp_all add: dropWhile_append takeWhile_append)
  then show ?thesis by (simp add: file_lines.simps [of "l @ LF # rest"])
qed

lemma file_lines_as_lines: "list_all line_ok ls \<Longrightarrow> file_lines (as_lines ls) = map Inr ls"
proof (induction ls)
  case Nil
  then show ?case by (simp add: file_lines.simps)
next
  case (Cons l ls)
  then show ?case by (simp add: file_lines_Cons line_ok_def from_utf8_def)
qed

section \<open>Machines\<close>

text \<open>
  The contract of a machine that answers every input with a list of outputs, and of an invariant of
  such a machine. Components provide their step and run functions; what follows for whole runs is
  proved here once.
\<close>

locale machine =
  fixes step :: "'i \<Rightarrow> 's \<Rightarrow> 'o list \<times> 's"
    and run :: "'i list \<Rightarrow> 's \<Rightarrow> 'o list \<times> 's"
  assumes run_Nil: "run [] s = ([], s)"
    and run_Cons: "run (i # is) s =
      (fst (step i s) @ fst (run is (snd (step i s))), snd (run is (snd (step i s))))"
begin

lemma run_single: "run [i] s = step i s"
  by (simp add: run_Nil run_Cons)

lemma run_append:
  "run (is @ js) s =
     (fst (run is s) @ fst (run js (snd (run is s))), snd (run js (snd (run is s))))"
  by (induction "is" arbitrary: s) (simp_all add: run_Nil run_Cons)

lemma run_outputs:
  assumes "\<And>i s. list_all p (fst (step i s))"
  shows "list_all p (fst (run is s))"
  by (induction "is" arbitrary: s) (simp_all add: run_Nil run_Cons assms)

end

locale invariant_machine = machine +
  fixes inv :: "'s \<Rightarrow> bool"
  assumes inv_step: "inv s \<Longrightarrow> inv (snd (step i s))"
begin

lemma inv_run: "inv s \<Longrightarrow> inv (snd (run is s))"
  by (induction "is" arbitrary: s) (simp_all add: run_Nil run_Cons inv_step)

end

text \<open>
  The contract of a loop over arrivals: a step says whether the loop goes on; a run is \<open>None\<close> while
  it does and the result of the loop once it has ended.
\<close>

locale io_loop =
  fixes step :: "'a \<Rightarrow> ('s, bool) io"
    and run :: "'a list \<Rightarrow> 's \<Rightarrow> (err + unit) option \<times> 's"
  assumes run_Nil: "run [] s = (None, s)"
    and run_on: "step a s = (Inr True, s') \<Longrightarrow> run (a # as) s = run as s'"
    and run_end: "step a s = (Inr False, s') \<Longrightarrow> run (a # as) s = (Some (Inr ()), s')"
    and run_error: "step a s = (Inl e, s') \<Longrightarrow> run (a # as) s = (Some (Inl e), s')"
begin

lemma run_Cons_None:
  "run (a # as) s = (None, s'') \<longleftrightarrow> (\<exists>s'. step a s = (Inr True, s') \<and> run as s' = (None, s''))"
proof -
  obtain q s' where q: "step a s = (q, s')" by fastforce
  show ?thesis
  proof (cases q)
    case (Inl e)
    with q run_error show ?thesis by fastforce
  next
    case (Inr go)
    with q run_end run_on show ?thesis by (cases go) fastforce+
  qed
qed

lemma run_invariant:
  assumes "\<And>a s s'. I s \<Longrightarrow> step a s = (Inr True, s') \<Longrightarrow> I s'"
    and "run as s = (None, s')" and "I s"
  shows "I s'"
  using assms(2,3)
proof (induction as arbitrary: s)
  case (Cons a as)
  then show ?case using assms(1) by (auto simp: run_Cons_None)
qed (simp add: run_Nil)

lemma run_append: "run as s = (None, s') \<Longrightarrow> run (as @ bs) s = run bs s'"
proof (induction as arbitrary: s)
  case Nil
  then show ?case by (simp add: run_Nil)
next
  case (Cons a as)
  then obtain s1 where "step a s = (Inr True, s1)" "run as s1 = (None, s')" by (auto simp: run_Cons_None)
  with Cons.IH run_on show ?case by simp
qed

text \<open>A run that has ended went on for a while and then took a last step.\<close>

lemma run_ended:
  assumes "run as s = (Some res, s')"
  shows "\<exists>as1 a as2 s1. as = as1 @ a # as2 \<and> run as1 s = (None, s1) \<and>
    (case res of Inl e \<Rightarrow> step a s1 = (Inl e, s') | Inr _ \<Rightarrow> step a s1 = (Inr False, s'))"
  using assms
proof (induction as arbitrary: s)
  case (Cons a as)
  obtain q s1 where q: "step a s = (q, s1)" by fastforce
  show ?case
  proof (cases "q = Inr True")
    case True
    with q Cons.prems run_on have "run as s1 = (Some res, s')" by simp
    from Cons.IH [OF this] obtain as1 b as2 s2 where
      "as = as1 @ b # as2" "run as1 s1 = (None, s2)"
      "case res of Inl e \<Rightarrow> step b s2 = (Inl e, s') | Inr _ \<Rightarrow> step b s2 = (Inr False, s')" by blast
    with q True run_on show ?thesis by (intro exI [of _ "a # as1"] exI) auto
  next
    case False
    have "run [] s = (None, s)" by (rule run_Nil)
    moreover have "case res of Inl e \<Rightarrow> step a s = (Inl e, s') | Inr _ \<Rightarrow> step a s = (Inr False, s')"
    proof (cases q)
      case (Inl e)
      with q Cons.prems run_error show ?thesis by fastforce
    next
      case (Inr go)
      with False have "go = False" by simp
      with Inr q Cons.prems run_end show ?thesis by fastforce
    qed
    ultimately show ?thesis by (intro exI [of _ "[]"] exI) auto
  qed
qed (simp add: run_Nil)

end

end
