(* ===== verification/Wire.thy ===== *)
theory Wire
  imports Prelude
begin

text \<open>
  The crate \<^verbatim>\<open>pgfault-wire\<close> (\<^verbatim>\<open>crates/pgfault-wire/src/lib.rs\<close>): frames of the PostgreSQL
  protocol, the bounded decoder, the frame reader that survives fragmentation, the startup packet,
  and C strings. A locale states what a frame codec promises; the decoder is an instance, and the
  reader's correctness for every way the network may cut the stream rests on that contract.
\<close>

section \<open>Definitions\<close>

definition MAX_FRAME :: nat where
  "MAX_FRAME = 64 * 1024 * 1024"

definition SSL_REQUEST :: u32 where "SSL_REQUEST = 80877103"
definition GSS_REQUEST :: u32 where "GSS_REQUEST = 80877104"
definition CANCEL_REQUEST :: u32 where "CANCEL_REQUEST = 80877102"
definition PROTOCOL_V3 :: u32 where "PROTOCOL_V3 = 196608"

text \<open>A frame is its raw bytes, tag and length word included; nothing is ever re-serialised.\<close>

datatype Frame = Frame (raw: string)

text \<open>
  \<^verbatim>\<open>tag\<close> and \<^verbatim>\<open>body\<close> index the raw bytes and panic on fewer than one and five of them. Frames come
  from \<open>decode\<close> and \<open>frame\<close> only, whose results have five bytes or more (\<open>frame_ok\<close>).
\<close>

definition tag :: "Frame \<Rightarrow> byte" where
  "tag f = raw f ! 0"

definition body :: "Frame \<Rightarrow> string" where
  "body f = drop 5 (raw f)"

definition frame_ok :: "Frame \<Rightarrow> bool" where
  "frame_ok f \<longleftrightarrow>
     5 \<le> length (raw f) \<and> length (raw f) \<le> MAX_FRAME + 1 \<and>
     unat (from_be_bytes (take 4 (drop 1 (raw f)))) + 1 = length (raw f)"

definition decode :: "string \<Rightarrow> err + (Frame option \<times> string)" where
  "decode buf =
     (if length buf < 5 then Inr (None, buf)
      else let len = unat (from_be_bytes (take 4 (drop 1 buf))) in
        if \<not> (4 \<le> len \<and> len \<le> MAX_FRAME) then Inl (InvalidData ''invalid PostgreSQL frame length'')
        else if length buf < len + 1 then Inr (None, buf)
        else Inr (Some (Frame (take (len + 1) buf)), drop (len + 1) buf))"

text \<open>
  A reader sees the stream as a sequence of reads: some bytes, or an error of the socket. The end
  of the list, and a read of no bytes, is the end of the stream. \<open>next_frame\<close> is
  \<^verbatim>\<open>FrameReader::next\<close>; it returns the result, the reader's buffer and the reads that are left. A
  call that is cancelled while it waits for a read leaves the buffer with the reads so far.
\<close>

datatype read = Data string | ReadError err

definition eof_result :: "string \<Rightarrow> err + Frame option" where
  "eof_result buf =
     (if buf = [] then Inr None else Inl (InvalidData ''EOF inside PostgreSQL frame''))"

fun next_frame :: "string \<Rightarrow> read list \<Rightarrow> (err + Frame option) \<times> string \<times> read list" where
  "next_frame buf [] =
     (case decode buf of
        Inl e \<Rightarrow> (Inl e, buf, [])
      | Inr (Some f, buf') \<Rightarrow> (Inr (Some f), buf', [])
      | Inr (None, _) \<Rightarrow> (eof_result buf, buf, []))"
| "next_frame buf (r # rs) =
     (case decode buf of
        Inl e \<Rightarrow> (Inl e, buf, r # rs)
      | Inr (Some f, buf') \<Rightarrow> (Inr (Some f), buf', r # rs)
      | Inr (None, _) \<Rightarrow>
          (case r of
             ReadError e \<Rightarrow> (Inl e, buf, rs)
           | Data d \<Rightarrow> if d = [] then (eof_result buf, buf, rs) else next_frame (buf @ d) rs))"

text \<open>The results of \<open>n\<close> calls in a row.\<close>

fun next_frames :: "nat \<Rightarrow> string \<Rightarrow> read list \<Rightarrow> (err + Frame option) list" where
  "next_frames 0 buf rs = []"
| "next_frames (Suc n) buf rs =
     (case next_frame buf rs of (r, buf', rs') \<Rightarrow> r # next_frames n buf' rs')"

text \<open>
  The startup packet is read with exact reads, so only the bytes of the stream matter: \<open>s\<close> is what
  the peer sends before it closes its side. The result is the packet and the rest of the stream.
\<close>

definition startup :: "string \<Rightarrow> err + (string \<times> string)" where
  "startup s =
     (if length s < 4 then Inl UnexpectedEof
      else let len = unat (from_be_bytes (take 4 s)) in
        if \<not> (8 \<le> len \<and> len \<le> 1024 * 1024) then Inl (InvalidData ''invalid startup length'')
        else if length s < len then Inl UnexpectedEof
        else Inr (to_be_bytes (word_of_nat len) @ take (len - 4) (drop 4 s), drop len s))"

definition cstr :: "string \<Rightarrow> (string \<times> string) option" where
  "cstr b =
     (case dropWhile (\<lambda>c. c \<noteq> NUL) b of
        [] \<Rightarrow> None
      | _ # rest \<Rightarrow> Some (takeWhile (\<lambda>c. c \<noteq> NUL) b, rest))"

definition text_of :: "string \<Rightarrow> string option" where
  "text_of b = map_option (\<lambda>(s, _). from_utf8_lossy s) (cstr b)"

definition frame :: "byte \<Rightarrow> string \<Rightarrow> Frame" where
  "frame t b = Frame (t # to_be_bytes (word_of_nat (length b + 4)) @ b)"

section \<open>C strings\<close>

lemma cstr_append [simp]: "NUL \<notin> set s \<Longrightarrow> cstr (s @ NUL # rest) = Some (s, rest)"
proof -
  assume s: "NUL \<notin> set s"
  then have "\<forall>c \<in> set s. c \<noteq> NUL" by auto
  then show ?thesis by (simp add: cstr_def dropWhile_append takeWhile_append)
qed

lemma cstr_eq_Some_iff: "cstr b = Some (s, rest) \<longleftrightarrow> NUL \<notin> set s \<and> b = s @ NUL # rest"
proof
  assume "cstr b = Some (s, rest)"
  then obtain c where d: "dropWhile (\<lambda>c. c \<noteq> NUL) b = c # rest"
    and s: "s = takeWhile (\<lambda>c. c \<noteq> NUL) b"
    by (auto simp: cstr_def split: list.splits)
  from d have "c = NUL" by (metis (full_types) hd_dropWhile list.distinct(1) list.sel(1))
  moreover have "b = s @ c # rest" using d s by (metis takeWhile_dropWhile_id)
  moreover have "NUL \<notin> set s" using s by (auto dest: set_takeWhileD)
  ultimately show "NUL \<notin> set s \<and> b = s @ NUL # rest" by simp
qed auto

lemma cstr_eq_None_iff: "cstr b = None \<longleftrightarrow> NUL \<notin> set b"
proof
  assume "cstr b = None"
  then have "dropWhile (\<lambda>c. c \<noteq> NUL) b = []" by (simp add: cstr_def split: list.splits)
  then show "NUL \<notin> set b" by (auto simp: dropWhile_eq_Nil_conv)
next
  assume "NUL \<notin> set b"
  then show "cstr b = None" by (cases "cstr b") (auto simp: cstr_eq_Some_iff)
qed

lemma cstr_length: "cstr b = Some (s, rest) \<Longrightarrow> length rest < length b"
  by (auto simp: cstr_eq_Some_iff)

lemma text_of_append [simp]: "NUL \<notin> set s \<Longrightarrow> text_of (s @ NUL # rest) = Some (from_utf8_lossy s)"
  by (simp add: text_of_def)

section \<open>Frames\<close>

lemma raw_frame [simp]: "raw (frame t b) = t # to_be_bytes (word_of_nat (length b + 4)) @ b"
  by (simp add: frame_def)

lemma tag_frame [simp]: "tag (frame t b) = t"
  by (simp add: tag_def)

lemma body_frame [simp]: "body (frame t b) = b"
  by (simp add: body_def to_be_bytes_def)

lemma unat_frame_len:
  "length b + 4 < 2 ^ 32 \<Longrightarrow> unat (word_of_nat (length b + 4) :: u32) = length b + 4"
  by (rule unat_of_nat_u32)

lemma frame_ok_frame: "length b + 4 \<le> MAX_FRAME \<Longrightarrow> frame_ok (frame t b)"
  using unat_frame_len [of b] by (simp add: frame_ok_def MAX_FRAME_def del: of_nat_add)

text \<open>A well-formed frame is its tag, its length word and its body: \<open>frame\<close> rebuilds it.\<close>

lemma frame_tag_body:
  assumes "frame_ok f"
  shows "frame (tag f) (body f) = f"
proof -
  obtain bs where f: "f = Frame bs" by (cases f)
  from assms have len: "5 \<le> length bs" and n: "unat (from_be_bytes (take 4 (drop 1 bs))) + 1 = length bs"
    by (simp_all add: frame_ok_def f)
  from len obtain t r where bs: "bs = t # r" and r: "4 \<le> length r" by (cases bs) auto
  from n have "unat (from_be_bytes (take 4 r)) = length r" by (simp add: bs)
  then have "word_of_nat (length r) = (word_of_nat (unat (from_be_bytes (take 4 r))) :: u32)"
    by (simp only:)
  then have "to_be_bytes (word_of_nat (length r)) = take 4 r"
    using to_be_from_be [of "take 4 r"] r by simp
  with r show ?thesis by (simp add: f bs frame_def tag_def body_def)
qed

section \<open>The decoder\<close>

lemma decode_raw:
  assumes "frame_ok f"
  shows "decode (raw f @ rest) = Inr (Some f, rest)"
proof -
  from assms have "take 4 (drop 1 (raw f @ rest)) = take 4 (drop 1 (raw f))"
    by (simp add: frame_ok_def)
  with assms show ?thesis
    by (simp add: decode_def frame_ok_def Let_def)
qed

lemma decode_prefix:
  assumes ok: "frame_ok f" and pq: "raw f = p @ q" and q: "q \<noteq> []"
  shows "decode p = Inr (None, p)"
proof (cases "length p < 5")
  case True
  then show ?thesis by (simp add: decode_def)
next
  case False
  then have "take 4 (drop 1 (raw f)) = take 4 (drop 1 p)" by (simp add: pq)
  with ok pq q False show ?thesis
    by (auto simp: decode_def frame_ok_def Let_def)
qed

lemma decode_SomeD:
  assumes "decode buf = Inr (Some f, buf')"
  shows "frame_ok f \<and> buf = raw f @ buf'"
proof -
  define len where "len = unat (from_be_bytes (take 4 (drop 1 buf)))"
  from assms have len: "4 \<le> len" "len \<le> MAX_FRAME" "len + 1 \<le> length buf"
    and f: "f = Frame (take (len + 1) buf)" "buf' = drop (len + 1) buf"
    by (auto simp: decode_def Let_def len_def split: if_splits)
  have "take 4 (drop 1 (take (len + 1) buf)) = take 4 (drop 1 buf)"
    using len(1) by (simp add: drop_take)
  then have "unat (from_be_bytes (take 4 (drop 1 (raw f)))) = len" by (simp only: f Frame.sel len_def)
  with len f show ?thesis by (simp add: frame_ok_def)
qed

section \<open>The contract of a frame codec\<close>

locale frame_codec =
  fixes enc :: "'f \<Rightarrow> string"
    and dec :: "string \<Rightarrow> 'e + ('f option \<times> string)"
    and ok :: "'f \<Rightarrow> bool"
  assumes dec_enc: "ok f \<Longrightarrow> dec (enc f @ rest) = Inr (Some f, rest)"
    and dec_part: "ok f \<Longrightarrow> enc f = p @ q \<Longrightarrow> q \<noteq> [] \<Longrightarrow> dec p = Inr (None, p)"
    and dec_sound: "dec b = Inr (Some f, b') \<Longrightarrow> ok f \<and> b = enc f @ b'"
begin

lemma enc_inj: "ok f \<Longrightarrow> ok g \<Longrightarrow> enc f = enc g \<Longrightarrow> f = g"
  using dec_enc [of f "[]"] dec_enc [of g "[]"] by simp

lemma enc_prefix_free: "ok f \<Longrightarrow> ok g \<Longrightarrow> enc f @ r = enc g @ s \<Longrightarrow> f = g \<and> r = s"
proof -
  assume f: "ok f" and g: "ok g" and eq: "enc f @ r = enc g @ s"
  have "Inr (Some f, r) = dec (enc f @ r)" by (rule dec_enc [OF f, symmetric])
  also have "\<dots> = Inr (Some g, s)" unfolding eq by (rule dec_enc [OF g])
  finally show ?thesis by simp
qed

lemma dec_Nil: "ok f \<Longrightarrow> enc f \<noteq> [] \<Longrightarrow> dec [] = Inr (None, [])"
  using dec_part [of f "[]" "enc f"] by simp

text \<open>
  Whatever part \<open>b\<close> of a stream of frames has arrived, the decoder returns the first frame if it is
  complete and waits otherwise; it never fails and never returns anything else.
\<close>

lemma dec_step:
  assumes ok: "ok f" and b: "b @ r = enc f @ y"
  obtains (complete) b' where "dec b = Inr (Some f, b')" "b' @ r = y"
  | (waiting) "dec b = Inr (None, b)" "r \<noteq> []"
  using b
proof (cases rule: append_eq_prefixE)
  case (whole b')
  with ok show ?thesis by (intro complete [of b']) (simp_all add: dec_enc)
next
  case (part q)
  with ok show ?thesis by (intro waiting) (auto intro: dec_part)
qed

lemma stream_unique:
  "list_all ok fs \<Longrightarrow> list_all ok gs \<Longrightarrow> (\<And>f. ok f \<Longrightarrow> enc f \<noteq> []) \<Longrightarrow>
   concat (map enc fs) = concat (map enc gs) \<Longrightarrow> fs = gs"
proof (induction fs arbitrary: gs)
  case Nil
  then show ?case by (cases gs) auto
next
  case (Cons f fs)
  from Cons.prems obtain g gs' where gs: "gs = g # gs'" by (cases gs) auto
  with Cons.prems have "f = g \<and> concat (map enc fs) = concat (map enc gs')"
    using enc_prefix_free [of f g] by simp
  with Cons gs show ?case by simp
qed

end

interpretation codec: frame_codec raw decode frame_ok
  by unfold_locales (simp_all add: decode_raw decode_prefix decode_SomeD)

lemma decode_Nil [simp]: "decode [] = Inr (None, [])"
  by (simp add: decode_def)

section \<open>The reader\<close>

text \<open>Bytes at the end of a stream that are no complete frame.\<close>

definition part_frame :: "string \<Rightarrow> bool" where
  "part_frame p \<longleftrightarrow> p = [] \<or> decode p = Inr (None, p)"

lemma part_frameD: "part_frame p \<Longrightarrow> decode p = Inr (None, p)"
  by (auto simp: part_frame_def)

lemma decode_before_part:
  assumes "part_frame p" and "b @ r = p"
  shows "decode b = Inr (None, b)"
proof -
  from assms have p: "decode (b @ r) = Inr (None, b @ r)" by (simp add: part_frameD)
  show ?thesis
  proof (cases "length b < 5")
    case True
    then show ?thesis by (simp add: decode_def)
  next
    case False
    then have "take 4 (drop 1 (b @ r)) = take 4 (drop 1 b)" by simp
    with p False show ?thesis by (auto simp: decode_def Let_def split: if_splits)
  qed
qed

lemma next_frame_stream:
  assumes "list_all frame_ok (f # fs)" and "list_all (\<lambda>d. d \<noteq> []) ds"
    and "buf @ concat ds = concat (map raw (f # fs)) @ p"
  shows "\<exists>buf' ds'. next_frame buf (map Data ds) = (Inr (Some f), buf', map Data ds') \<and>
     list_all (\<lambda>d. d \<noteq> []) ds' \<and> buf' @ concat ds' = concat (map raw fs) @ p"
  using assms
proof (induction ds arbitrary: buf)
  case Nil
  then have "decode buf = Inr (Some f, concat (map raw fs) @ p)"
    using decode_raw [of f "concat (map raw fs) @ p"] by simp
  then show ?case by (auto intro: exI [of _ "[]"])
next
  case (Cons d ds)
  from Cons.prems have ok: "frame_ok f" and eq: "buf @ (d @ concat ds) = raw f @ (concat (map raw fs) @ p)"
    by simp_all
  from ok eq show ?case
  proof (cases rule: codec.dec_step)
    case (complete buf')
    then have "next_frame buf (map Data (d # ds)) = (Inr (Some f), buf', map Data (d # ds))" by simp
    with complete Cons.prems(2) show ?thesis by (intro exI [of _ buf'] exI [of _ "d # ds"]) simp
  next
    case waiting
    with Cons.prems Cons.IH [of "buf @ d"] show ?thesis by simp
  qed
qed

lemma next_frame_end:
  assumes "part_frame p" and "list_all (\<lambda>d. d \<noteq> []) ds" and "buf @ concat ds = p"
  shows "next_frame buf (map Data ds) = (eof_result p, p, [])"
  using assms
proof (induction ds arbitrary: buf)
  case Nil
  then show ?case by (simp add: part_frameD)
next
  case (Cons d ds)
  then have "decode buf = Inr (None, buf)" using decode_before_part [of p buf "d @ concat ds"] by simp
  with Cons show ?case by simp
qed

lemma next_frames_stream:
  assumes "list_all frame_ok fs" and "part_frame p" and "list_all (\<lambda>d. d \<noteq> []) ds"
    and "buf @ concat ds = concat (map raw fs) @ p"
  shows "next_frames (Suc (length fs)) buf (map Data ds) = map (\<lambda>f. Inr (Some f)) fs @ [eof_result p]"
  using assms
proof (induction fs arbitrary: buf ds)
  case Nil
  then show ?case using next_frame_end [of p ds buf] by simp
next
  case (Cons f fs)
  from next_frame_stream [OF Cons.prems(1) Cons.prems(3,4)]
  obtain buf' ds' where "next_frame buf (map Data ds) = (Inr (Some f), buf', map Data ds')"
    "list_all (\<lambda>d. d \<noteq> []) ds'" "buf' @ concat ds' = concat (map raw fs) @ p" by blast
  with Cons.IH [of ds' buf'] Cons.prems show ?case by simp
qed

section \<open>Properties\<close>

text \<open>
  C13: the reader is independent of fragmentation. However the network cuts a stream of well-formed
  frames into non-empty reads, repeated calls of \<^verbatim>\<open>FrameReader::next\<close> return exactly these frames, in
  order and byte for byte, and then report the end of the stream.
\<close>

theorem reader_fragmentation:
  assumes "list_all frame_ok fs" and "list_all (\<lambda>d. d \<noteq> []) ds"
    and "concat ds = concat (map raw fs)"
  shows "next_frames (Suc (length fs)) [] (map Data ds) = map (\<lambda>f. Inr (Some f)) fs @ [Inr None]"
  using next_frames_stream [of fs "[]" ds "[]"] assms by (simp add: part_frame_def eof_result_def)

theorem reader_fragmentation_witness:
  "next_frames 3 [] (map Data [[CHR ''Z'', NUL], [NUL, NUL, CHR 0x05, CHR ''I'', CHR ''?''],
      [NUL, NUL, NUL, CHR 0x04]]) =
   [Inr (Some (frame (CHR ''Z'') ''I'')), Inr (Some (frame (CHR ''?'') [])), Inr None]"
proof -
  let ?fs = "[frame (CHR ''Z'') ''I'', frame (CHR ''?'') []]"
  let ?ds = "[[CHR ''Z'', NUL], [NUL, NUL, CHR 0x05, CHR ''I'', CHR ''?''], [NUL, NUL, NUL, CHR 0x04]]"
  have ok: "list_all frame_ok ?fs" by (simp add: frame_ok_frame MAX_FRAME_def)
  have ne: "list_all (\<lambda>d. d \<noteq> []) ?ds" by simp
  have eq: "concat ?ds = concat (map raw ?fs)" by (simp add: to_be_bytes_def char_of_def bit_Suc_0_iff)
  from reader_fragmentation [OF ok ne eq] show ?thesis by (simp add: numeral_3_eq_3)
qed

text \<open>
  C37: a stream that ends inside a frame is an error, never a silent end: after the complete frames
  the reader reports \<^verbatim>\<open>EOF inside PostgreSQL frame\<close>.
\<close>

theorem reader_truncated_stream:
  assumes "list_all frame_ok fs" and "list_all (\<lambda>d. d \<noteq> []) ds"
    and "frame_ok g" and "raw g = p @ q" and "p \<noteq> []" and "q \<noteq> []"
    and "concat ds = concat (map raw fs) @ p"
  shows "next_frames (Suc (length fs)) [] (map Data ds) =
    map (\<lambda>f. Inr (Some f)) fs @ [Inl (InvalidData ''EOF inside PostgreSQL frame'')]"
proof -
  have "part_frame p" using assms(3,4,6) by (simp add: part_frame_def decode_prefix)
  then show ?thesis
    using next_frames_stream [of fs p ds "[]"] assms by (simp add: eof_result_def)
qed

theorem reader_truncated_stream_witness:
  "next_frames 2 [] (map Data [raw (frame (CHR ''Z'') ''I'') @ [CHR ''C'']]) =
   [Inr (Some (frame (CHR ''Z'') ''I'')), Inl (InvalidData ''EOF inside PostgreSQL frame'')]"
proof -
  have "frame_ok (frame (CHR ''Z'') ''I'')" "frame_ok (frame (CHR ''C'') [])"
    by (simp_all add: frame_ok_frame MAX_FRAME_def)
  then show ?thesis
    using reader_truncated_stream [of "[frame (CHR ''Z'') ''I'']"
        "[raw (frame (CHR ''Z'') ''I'') @ [CHR ''C'']]" "frame (CHR ''C'') []" "[CHR ''C'']"
        "to_be_bytes (word_of_nat 4)"]
    by (simp add: to_be_bytes_def numeral_2_eq_2)
qed

text \<open>
  C38: decoding is lossless and bounded. A decoded frame is a prefix of the buffer, carries five bytes
  or more (so that \<^verbatim>\<open>tag\<close> and \<^verbatim>\<open>body\<close> never index out of range), is what \<^verbatim>\<open>frame\<close> builds from its
  tag and body, and together with the remaining buffer it is the old buffer; a buffer that waits for
  more bytes never exceeds the frame limit. The limit counts what the length field covers; the tag byte
  comes on top of it.
\<close>

theorem decode_lossless:
  "(\<forall>f buf'. decode buf = Inr (Some f, buf') \<longrightarrow>
      buf = raw f @ buf' \<and> 5 \<le> length (raw f) \<and> length (raw f) \<le> MAX_FRAME + 1 \<and>
      frame (tag f) (body f) = f) \<and>
   (\<forall>buf'. decode buf = Inr (None, buf') \<longrightarrow> buf' = buf \<and> length buf \<le> MAX_FRAME)"
proof (intro conjI allI impI)
  fix f buf'
  assume "decode buf = Inr (Some f, buf')"
  then have "frame_ok f" and "buf = raw f @ buf'" by (simp_all add: decode_SomeD)
  then show "buf = raw f @ buf'" "5 \<le> length (raw f)" "length (raw f) \<le> MAX_FRAME + 1"
    "frame (tag f) (body f) = f"
    by (simp_all add: frame_tag_body frame_ok_def)
next
  fix buf'
  assume "decode buf = Inr (None, buf')"
  then show "buf' = buf" "length buf \<le> MAX_FRAME"
    by (auto simp: decode_def Let_def MAX_FRAME_def split: if_splits)
qed

theorem decode_lossless_witness:
  "decode (raw (frame (CHR ''Z'') ''I'') @ ''C'') = Inr (Some (frame (CHR ''Z'') ''I''), ''C'') \<and>
   5 \<le> length (raw (frame (CHR ''Z'') ''I'')) \<and> decode ''C'' = Inr (None, ''C'') \<and> length ''C'' \<le> MAX_FRAME"
proof -
  have d: "decode (raw (frame (CHR ''Z'') ''I'') @ ''C'') = Inr (Some (frame (CHR ''Z'') ''I''), ''C'')"
    by (rule decode_raw) (simp add: frame_ok_frame MAX_FRAME_def)
  have n: "decode ''C'' = Inr (None, ''C'')" by (simp add: decode_def)
  show ?thesis
    using d n decode_lossless [of "raw (frame (CHR ''Z'') ''I'') @ ''C''"] decode_lossless [of "''C''"]
    by blast
qed

text \<open>Decoding what \<open>frame\<close> builds gives the frame back and leaves the rest of the buffer.\<close>

lemma frame_decode_roundtrip:
  assumes "length b + 4 \<le> MAX_FRAME"
  shows "decode (raw (frame t b) @ rest) = Inr (Some (frame t b), rest) \<and>
    tag (frame t b) = t \<and> body (frame t b) = b"
  using assms by (simp add: codec.dec_enc frame_ok_frame del: raw_frame)

text \<open>The packets the startup reader accepts.\<close>

definition packet_ok :: "string \<Rightarrow> bool" where
  "packet_ok packet \<longleftrightarrow> 8 \<le> length packet \<and> length packet \<le> 1024 * 1024 \<and>
     take 4 packet = to_be_bytes (word_of_nat (length packet))"

lemma startup_iff:
  "startup s = Inr (packet, rest) \<longleftrightarrow>
     s = packet @ rest \<and> packet_ok packet"
  unfolding packet_ok_def
proof
  assume a: "startup s = Inr (packet, rest)"
  define len where "len = unat (from_be_bytes (take 4 s))"
  from a have len: "4 \<le> length s" "8 \<le> len" "len \<le> 1024 * 1024" "len \<le> length s"
    and p: "packet = to_be_bytes (word_of_nat len) @ take (len - 4) (drop 4 s)" "rest = drop len s"
    by (auto simp: startup_def Let_def len_def split: if_splits)
  have "to_be_bytes (word_of_nat len) = take 4 s"
    using to_be_from_be [of "take 4 s"] len(1) by (simp add: len_def)
  moreover from this have "packet = take len s"
    using p len append_take_drop_id [of 4 "take len s"] by (simp add: take_drop)
  ultimately show "s = packet @ rest \<and> 8 \<le> length packet \<and> length packet \<le> 1024 * 1024 \<and>
     take 4 packet = to_be_bytes (word_of_nat (length packet))"
    using len p by simp
next
  assume a: "s = packet @ rest \<and> 8 \<le> length packet \<and> length packet \<le> 1024 * 1024 \<and>
     take 4 packet = to_be_bytes (word_of_nat (length packet))"
  then have t: "take 4 s = to_be_bytes (word_of_nat (length packet))" by simp
  from a have n: "unat (word_of_nat (length packet) :: u32) = length packet"
    by (simp add: unat_of_nat)
  have "packet = to_be_bytes (word_of_nat (length packet)) @ drop 4 packet"
    using a by (metis append_take_drop_id)
  with a t n show "startup s = Inr (packet, rest)"
    by (auto simp: startup_def Let_def)
qed

end
