(* ===== verification/Events.thy ===== *)
theory Events
  imports Wire
begin

text \<open>
  The crate \<^verbatim>\<open>pgfault-events\<close> (\<^verbatim>\<open>crates/pgfault-events/src/lib.rs\<close>): statement classes, statements
  and their fingerprints, the semantic events and the conservative SQL classifier. The classifier is
  the single pass of the source; it is split into a lexer and a look at the lexical elements, which
  \<^verbatim>\<open>Sql_Grammar\<close> relates to a grammar of the texts.

  Record fields carry a prefix for their struct where structs share field names:
  \<open>sm_user\<close> is \<^verbatim>\<open>StartupMetadata::user\<close>, \<open>ev_event\<close> is \<^verbatim>\<open>Event::event\<close>. The SHA-256 hex digest of
  the crate \<^verbatim>\<open>sha2\<close> is a parameter of the operations that build statements.
\<close>

section \<open>Data\<close>

datatype StatementClass =
  Begin | Commit | Rollback | Select | Insert | Update | Delete | Merge | Ddl | Other

definition StatementClass_default :: StatementClass where
  "StatementClass_default = Other"

instantiation StatementClass :: default
begin

definition default_StatementClass :: StatementClass where
  "default_StatementClass = StatementClass_default"

instance ..

end

record StartupMetadata =
  sm_user :: "string option"
  sm_database :: "string option"
  sm_application_name :: "string option"

definition StartupMetadata_default :: StartupMetadata where
  "StartupMetadata_default = \<lparr>sm_user = None, sm_database = None, sm_application_name = None\<rparr>"

record Statement =
  st_class :: StatementClass
  st_fingerprint :: string

definition Statement_default :: Statement where
  "Statement_default = \<lparr>st_class = default, st_fingerprint = []\<rparr>"

record Event =
  ev_connection_id :: u64
  ev_semantic_reliable :: bool
  ev_startup :: StartupMetadata
  ev_transaction_epoch :: u64
  ev_query_cycle :: u64
  ev_statement_index :: u64
  ev_statement_class :: StatementClass
  ev_sql_fingerprint :: string
  ev_event :: string
  ev_occurrence :: u64
  ev_row_index :: "u64 option"

definition EVENTS :: "string list" where
  "EVENTS =
    [''query.received'',
     ''query.forwarded'',
     ''statement.execution_started'',
     ''statement.execution_completed'',
     ''transaction.begin.requested'',
     ''transaction.commit.requested'',
     ''transaction.commit.completed'',
     ''transaction.rollback.requested'',
     ''transaction.rollback.completed'',
     ''transaction.implicit.completed'',
     ''transaction.failed'',
     ''result.started'',
     ''result.row'',
     ''result.completed'',
     ''connection.ready'',
     ''frontend.execute'',
     ''frontend.sync'',
     ''backend.error'',
     ''backend.command_complete'',
     ''backend.ready'']"

section \<open>The classifier\<close>

text \<open>
  The loops of \<^verbatim>\<open>classify\<close> work on an index \<^verbatim>\<open>i\<close> into the text; here the state is the text that is
  left, \<^verbatim>\<open>sql[i..]\<close>. The scanners of a quoted region return the text after it, \<open>None\<close> if it is not
  closed.
\<close>

definition starts_with :: "string \<Rightarrow> string \<Rightarrow> bool" where
  "starts_with s p \<longleftrightarrow> take (length p) s = p"

definition is_word_char :: "byte \<Rightarrow> bool" where
  "is_word_char b \<longleftrightarrow> is_ascii_alphanumeric b \<or> b = CHR ''_''"

text \<open>The body of a block comment, from depth \<open>d\<close>.\<close>

function skip_block :: "nat \<Rightarrow> string \<Rightarrow> string option" where
  "skip_block d s =
     (if d = 0 then Some s
      else if s = [] then None
      else if starts_with s ''/*'' then skip_block (d + 1) (drop 2 s)
      else if starts_with s ''*/'' then skip_block (d - 1) (drop 2 s)
      else skip_block d (drop 1 s))"
  by pat_completeness auto
termination
  by (relation "measure (\<lambda>(d, s). length s)") auto

declare skip_block.simps [simp del]

text \<open>The rest of a quoted string or identifier, after its opening quote \<open>q\<close>.\<close>

function skip_quoted :: "byte \<Rightarrow> string \<Rightarrow> string option" where
  "skip_quoted q [] = None"
| "skip_quoted q (c # s) =
     (if c = CHR 0x5C then skip_quoted q (drop 1 s)
      else if c = q then
        (case s of
           [] \<Rightarrow> Some []
         | c' # s' \<Rightarrow> if c' = q then skip_quoted q s' else Some s)
      else skip_quoted q s)"
  by pat_completeness auto
termination
  by (relation "measure (\<lambda>(q, s). length s)") auto

text \<open>The text after the first occurrence of \<open>p\<close>: \<^verbatim>\<open>windows(p.len()).position(|w| w == p)\<close>.\<close>

fun after_sub :: "string \<Rightarrow> string \<Rightarrow> string option" where
  "after_sub p [] = (if p = [] then Some [] else None)"
| "after_sub p (c # s) =
     (if starts_with (c # s) p then Some (drop (length p) (c # s)) else after_sub p s)"

text \<open>
  What a dollar sign opens: no quoting (\<open>NoQuote\<close>), a region that is not closed, or a region with
  the text after it. The argument is the text after the dollar sign.
\<close>

datatype dollar = NoQuote | Unclosed | Closed string

definition scan_dollar :: "string \<Rightarrow> dollar" where
  "scan_dollar s =
     (case dropWhile is_word_char s of
        c # rest \<Rightarrow>
          if c = CHR ''$'' then
            (case after_sub (CHR ''$'' # takeWhile is_word_char s @ [CHR ''$'']) rest of
               Some s' \<Rightarrow> Closed s'
             | None \<Rightarrow> Unclosed)
          else NoQuote
      | [] \<Rightarrow> NoQuote)"

lemma skip_block_length: "skip_block d s = Some s' \<Longrightarrow> length s' \<le> length s"
proof (induction d s rule: skip_block.induct)
  case (1 d s)
  show ?case
  proof (cases "d = 0 \<or> s = []")
    case True
    with "1.prems" show ?thesis by (auto simp: skip_block.simps [of d s] split: if_splits)
  next
    case False
    with "1.prems" "1.IH" show ?thesis
      by (auto simp: skip_block.simps [of d s] split: if_splits)
  qed
qed

lemma skip_quoted_length: "skip_quoted q s = Some s' \<Longrightarrow> length s' \<le> length s"
  by (induction q s rule: skip_quoted.induct) (auto split: if_splits list.splits)

lemma after_sub_length: "after_sub p s = Some s' \<Longrightarrow> length s' \<le> length s"
  by (induction p s rule: after_sub.induct) (auto split: if_splits)

lemma scan_dollar_length: "scan_dollar s = Closed s' \<Longrightarrow> length s' \<le> length s"
  using length_dropWhile_le [of is_word_char s]
  by (fastforce simp: scan_dollar_def dest: after_sub_length split: list.splits if_splits option.splits)

text \<open>
  The main loop: \<open>None\<close> for the early returns of \<^verbatim>\<open>StatementClass::Other\<close>, otherwise the words
  collected at the end of the text.
\<close>

function scan :: "string \<Rightarrow> string list \<Rightarrow> bool \<Rightarrow> string list option" where
  "scan [] words ended = Some words"
| "scan (b # s) words ended =
     (if is_ascii_whitespace b then scan s words ended
      else if starts_with (b # s) ''--'' then
        scan (dropWhile (\<lambda>c. c \<noteq> CHR 0x0A) s) words ended
      else if starts_with (b # s) ''/*'' then
        (case skip_block 1 (drop 1 s) of
           None \<Rightarrow> None
         | Some s' \<Rightarrow> scan s' words ended)
      else if ended then None
      else if b = CHR '';'' then scan s words True
      else if b = CHR 0x27 \<or> b = CHR 0x22 then
        (case skip_quoted b s of
           None \<Rightarrow> None
         | Some s' \<Rightarrow> scan s' words ended)
      else
        (case (if b = CHR ''$'' then scan_dollar s else NoQuote) of
           Unclosed \<Rightarrow> None
         | Closed s' \<Rightarrow> scan s' words ended
         | NoQuote \<Rightarrow>
             if is_ascii_alphabetic b then
               scan (dropWhile is_word_char s)
                 (words @ [to_ascii_uppercase (from_utf8_lossy (b # takeWhile is_word_char s))]) ended
             else scan s words ended))"
  by pat_completeness auto
termination
  by (relation "measure (\<lambda>(s, words, ended). length s)")
    (auto simp: less_Suc_eq_le length_dropWhile_le
      dest!: skip_block_length skip_quoted_length scan_dollar_length split: if_splits)

definition class_of_words :: "string list \<Rightarrow> StatementClass" where
  "class_of_words words =
     (case words of
        [] \<Rightarrow> Other
      | w # _ \<Rightarrow>
          if w \<in> {''BEGIN'', ''START''} then Begin
          else if w \<in> {''COMMIT'', ''END''} \<and>
            \<not> list_ex (\<lambda>w. w = ''PREPARED'' \<or> w = ''CHAIN'') words then Commit
          else if w \<in> {''ROLLBACK'', ''ABORT''} \<and>
            \<not> list_ex (\<lambda>w. w = ''TO'' \<or> w = ''PREPARED'' \<or> w = ''CHAIN'') words then Rollback
          else if w \<in> {''SELECT'', ''VALUES'', ''TABLE''} then Select
          else if w = ''INSERT'' then Insert
          else if w = ''UPDATE'' then Update
          else if w = ''DELETE'' then Delete
          else if w = ''MERGE'' then Merge
          else if w \<in> {''CREATE'', ''ALTER'', ''DROP'', ''TRUNCATE''} then Ddl
          else Other)"

definition classify :: "string \<Rightarrow> StatementClass" where
  "classify sql = (case scan sql [] False of None \<Rightarrow> Other | Some words \<Rightarrow> class_of_words words)"

text \<open>\<^verbatim>\<open>Statement::new\<close>; \<open>sha\<close> is the hex digest of SHA-256.\<close>

definition Statement_new :: "(string \<Rightarrow> string) \<Rightarrow> string \<Rightarrow> Statement" where
  "Statement_new sha sql = \<lparr>st_class = classify sql, st_fingerprint = sha sql\<rparr>"

section \<open>The lexical elements of a text\<close>

datatype token = Word string | Semi | Quoted | Symbol byte

text \<open>
  The lexical elements of a text outside comments and white space; \<open>None\<close> if a comment, a quoted
  string or identifier, or a dollar-quoted string is not closed.
\<close>

function lex :: "string \<Rightarrow> token list option" where
  "lex [] = Some []"
| "lex (b # s) =
     (if is_ascii_whitespace b then lex s
      else if starts_with (b # s) ''--'' then lex (dropWhile (\<lambda>c. c \<noteq> CHR 0x0A) s)
      else if starts_with (b # s) ''/*'' then
        (case skip_block 1 (drop 1 s) of None \<Rightarrow> None | Some s' \<Rightarrow> lex s')
      else if b = CHR '';'' then map_option (Cons Semi) (lex s)
      else if b = CHR 0x27 \<or> b = CHR 0x22 then
        (case skip_quoted b s of None \<Rightarrow> None | Some s' \<Rightarrow> map_option (Cons Quoted) (lex s'))
      else
        (case (if b = CHR ''$'' then scan_dollar s else NoQuote) of
           Unclosed \<Rightarrow> None
         | Closed s' \<Rightarrow> map_option (Cons Quoted) (lex s')
         | NoQuote \<Rightarrow>
             if is_ascii_alphabetic b then
               map_option (Cons (Word (to_ascii_uppercase (b # takeWhile is_word_char s))))
                 (lex (dropWhile is_word_char s))
             else map_option (Cons (Symbol b)) (lex s)))"
  by pat_completeness auto
termination
  by (relation "measure length")
    (auto simp: less_Suc_eq_le length_dropWhile_le
      dest!: skip_block_length skip_quoted_length scan_dollar_length split: if_splits)

definition words_of :: "token list \<Rightarrow> string list" where
  "words_of ts = concat (map (\<lambda>t. case t of Word w \<Rightarrow> [w] | _ \<Rightarrow> []) ts)"

text \<open>Nothing follows the first semicolon.\<close>

definition single_statement :: "token list \<Rightarrow> bool" where
  "single_statement ts \<longleftrightarrow> dropWhile (\<lambda>t. t \<noteq> Semi) ts \<in> {[], [Semi]}"

lemma words_of_simps [simp]:
  "words_of [] = []"
  "words_of (Word w # ts) = w # words_of ts"
  "words_of (Semi # ts) = words_of ts"
  "words_of (Quoted # ts) = words_of ts"
  "words_of (Symbol b # ts) = words_of ts"
  by (simp_all add: words_of_def)

lemma single_statement_simps [simp]:
  "single_statement []"
  "single_statement (Semi # ts) \<longleftrightarrow> ts = []"
  "t \<noteq> Semi \<Longrightarrow> single_statement (t # ts) = single_statement ts"
  by (simp_all add: single_statement_def)

lemma not_single_statement: "t # ts = rest \<Longrightarrow> \<not> single_statement (pre @ Semi # rest)"
proof (induction pre)
  case (Cons a pre)
  then show ?case by (cases "a = Semi") auto
qed auto

text \<open>A word of the text consists of ASCII bytes, so the lossy conversion does not change it.\<close>

lemma word_is_ascii:
  "is_ascii_alphabetic b \<Longrightarrow> list_all is_ascii (b # takeWhile is_word_char s)"
proof -
  assume "is_ascii_alphabetic b"
  then have "is_ascii b" by (simp add: is_ascii_alphabeticD is_ascii_alphanumericD)
  moreover have "is_ascii c" if "is_word_char c" for c
    using that by (auto simp: is_word_char_def is_ascii_def dest: is_ascii_alphanumericD)
  ultimately show ?thesis by (auto simp: list_all_iff dest: set_takeWhileD)
qed

lemma lossy_word [simp]:
  "is_ascii_alphabetic b \<Longrightarrow>
   from_utf8_lossy (b # takeWhile is_word_char s) = b # takeWhile is_word_char s"
  by (rule from_utf8_lossy_ascii [OF word_is_ascii])

lemma scan_lex:
  "scan s words ended =
     (case lex s of
        None \<Rightarrow> None
      | Some ts \<Rightarrow>
          if (if ended then ts = [] else single_statement ts) then Some (words @ words_of ts) else None)"
proof (induction s words ended rule: scan.induct)
  case (1 words ended)
  then show ?case by simp
next
  case (2 b s words ended)
  note IH = "2.IH"
  consider (ws) "is_ascii_whitespace b"
    | (line) "\<not> is_ascii_whitespace b" "starts_with (b # s) ''--''"
    | (block) "\<not> is_ascii_whitespace b" "\<not> starts_with (b # s) ''--''" "starts_with (b # s) ''/*''"
    | (elem) "\<not> is_ascii_whitespace b" "\<not> starts_with (b # s) ''--''"
        "\<not> starts_with (b # s) ''/*''"
    by blast
  then show ?case
  proof cases
    case ws
    with IH(1) show ?thesis by simp
  next
    case line
    with IH(2) show ?thesis by simp
  next
    case block
    with IH(3) show ?thesis by (cases "skip_block 1 (drop 1 s)") simp_all
  next
    case elem
    note outer = elem
    show ?thesis
    proof (cases ended)
      case True
      with outer show ?thesis by (simp split: option.split dollar.split)
    next
      case False
      consider (semi) "b = CHR '';''"
        | (quote) "b \<noteq> CHR '';''" "b = CHR 0x27 \<or> b = CHR 0x22"
        | (rest) "b \<noteq> CHR '';''" "\<not> (b = CHR 0x27 \<or> b = CHR 0x22)"
        by blast
      then show ?thesis
      proof cases
        case semi
        with outer False IH(4) show ?thesis by (simp split: option.split)
      next
        case quote
        with outer False IH(5) show ?thesis
          by (cases "skip_quoted b s") (simp_all split: option.split)
      next
        case rest
        show ?thesis
        proof (cases "if b = CHR ''$'' then scan_dollar s else NoQuote")
          case NoQuote
          with outer False rest IH(6,7) show ?thesis
            by (simp del: from_utf8_lossy.simps split: option.split)
        next
          case Unclosed
          with outer False rest show ?thesis by (simp del: from_utf8_lossy.simps)
        next
          case (Closed s')
          with outer False rest IH(8) show ?thesis
            by (simp del: from_utf8_lossy.simps split: option.split)
        qed
      qed
    qed
  qed
qed

section \<open>Layout in front of a statement\<close>

text \<open>White space, line comments and (nested) block comments.\<close>

inductive layout :: "string \<Rightarrow> bool" where
  nil: "layout []"
| white: "is_ascii_whitespace b \<Longrightarrow> layout l \<Longrightarrow> layout (b # l)"
| line: "CHR 0x0A \<notin> set c \<Longrightarrow> layout l \<Longrightarrow> layout (''--'' @ c @ CHR 0x0A # l)"
| block: "skip_block 1 c = Some [] \<Longrightarrow> layout l \<Longrightarrow> layout (''/*'' @ c @ l)"

lemma starts_with_Nil [simp]: "starts_with [] p \<longleftrightarrow> p = []"
  by (auto simp: starts_with_def)

lemma starts_with_Cons [simp]:
  "starts_with s []"
  "starts_with (b # s) (c # p) \<longleftrightarrow> b = c \<and> starts_with s p"
  by (auto simp: starts_with_def)

lemma starts_with_append2:
  "2 \<le> length s \<Longrightarrow> starts_with (s @ r) [a, b] = starts_with s [a, b]"
  by (simp add: starts_with_def)

text \<open>A comment that is closed inside \<open>s\<close> is closed there whatever follows.\<close>

lemma skip_block_append: "skip_block d s = Some s' \<Longrightarrow> skip_block d (s @ r) = Some (s' @ r)"
proof (induction d s rule: skip_block.induct)
  case (1 d s)
  show ?case
  proof (cases "d = 0 \<or> s = []")
    case True
    with "1.prems" show ?thesis
      by (auto simp: skip_block.simps [of d s] skip_block.simps [of 0] split: if_splits)
  next
    case False
    then have d: "d \<noteq> 0" and s: "s \<noteq> []" by auto
    have "2 \<le> length s"
    proof (rule ccontr)
      assume "\<not> 2 \<le> length s"
      with s obtain b where "s = [b]" by (cases s) (auto simp: Suc_le_eq)
      with "1.prems" d show False
        by (simp add: skip_block.simps [of d "[b]"] skip_block.simps [of d "[]"])
    qed
    with "1.prems" "1.IH" d s show ?thesis
      by (auto simp: skip_block.simps [of d s] skip_block.simps [of d "s @ r"] starts_with_append2
          split: if_splits)
  qed
qed

lemma scan_layout: "layout l \<Longrightarrow> scan (l @ s) words ended = scan s words ended"
proof (induction l rule: layout.induct)
  case nil
  then show ?case by simp
next
  case (white b l)
  then show ?case by simp
next
  case (line c l)
  then have "dropWhile (\<lambda>x. x \<noteq> CHR 0x0A) (c @ CHR 0x0A # l @ s) = CHR 0x0A # l @ s"
    by (subst dropWhile_append2) auto
  with line show ?case by (simp add: is_ascii_whitespace_def)
next
  case (block c l)
  from skip_block_append [OF block.hyps(1), of "l @ s"]
  have "skip_block 1 (c @ l @ s) = Some (l @ s)" by simp
  with block show ?case by (simp add: is_ascii_whitespace_def)
qed

lemma class_of_words_commit:
  "class_of_words words = Commit \<longleftrightarrow>
     (\<exists>w ws. words = w # ws \<and> (w = ''COMMIT'' \<or> w = ''END'') \<and>
        ''PREPARED'' \<notin> set ws \<and> ''CHAIN'' \<notin> set ws)"
proof (cases words)
  case (Cons w ws)
  show ?thesis
  proof (cases "w = ''COMMIT'' \<or> w = ''END''")
    case True
    then show ?thesis by (elim disjE) (auto simp: Cons class_of_words_def list_ex_iff)
  next
    case False
    then show ?thesis by (simp add: Cons class_of_words_def)
  qed
qed (simp add: class_of_words_def)

section \<open>Properties\<close>




text \<open>
  White space, line comments and nested block comments in front of a statement do not change its class.
\<close>

lemma classify_layout:
  assumes "layout l"
  shows "classify (l @ sql) = classify sql"
  using assms by (simp add: classify_def scan_layout)

end
