(* ===== verification/Scenario.thy ===== *)
theory Scenario
  imports Events
begin

text \<open>
  The crate \<^verbatim>\<open>pgfault-scenario\<close> (\<^verbatim>\<open>crates/pgfault-scenario/src/lib.rs\<close>): scenarios, their
  validation, the selector and the per-connection matcher. The duration parser of the crate
  \<^verbatim>\<open>humantime\<close>, the YAML reader of \<^verbatim>\<open>serde_yaml\<close> and the file system are parameters; a duration is a
  number of nanoseconds. A locale states the contract of a one-shot observer, which the matcher
  implements and the proxy relies on.

  Field prefixes: \<open>sc_\<close> for \<^verbatim>\<open>Scenario\<close>, \<open>sel_\<close> for \<^verbatim>\<open>Selector\<close>, \<open>when_\<close> for \<^verbatim>\<open>When\<close>, \<open>act_\<close> for
  \<^verbatim>\<open>Action\<close>, \<open>m_\<close> for \<^verbatim>\<open>Matcher\<close>. The variants of \<^verbatim>\<open>Direction\<close> are \<open>ToUpstream\<close> and
  \<open>ToDownstream\<close>, since \<^verbatim>\<open>Side\<close> has an \<open>Upstream\<close> too.
\<close>

section \<open>Data\<close>

record Suppress =
  sup_current :: bool

datatype Side = Frontend | Upstream

datatype Mode = Close | Reset

record Disconnect =
  dis_side :: Side
  dis_mode :: Mode

datatype Direction = ToUpstream | ToDownstream

record Delay =
  del_direction :: Direction
  del_duration :: string

record Truncate =
  tr_after_rows :: u64

record Action =
  act_suppress :: "Suppress option"
  act_disconnect :: "Disconnect option"
  act_delay :: "Delay option"
  act_truncate_result :: "Truncate option"

record Selector =
  sel_application_name :: "string option"
  sel_user :: "string option"
  sel_database :: "string option"
  sel_connection_ordinal :: "u64 option"
  sel_transaction :: "u64 option"
  sel_query_cycle :: "u64 option"
  sel_statement :: "u64 option"
  sel_sql_fingerprint :: "string option"

record When =
  when_event :: string
  when_occurrence :: "u64 option"
  when_statement_class :: "StatementClass list"
  when_row :: "u64 option"

record Scenario =
  sc_version :: u32
  sc_name :: string
  sc_selector :: Selector
  sc_when :: When
  sc_action :: Action

definition Action_default :: Action where
  "Action_default =
     \<lparr>act_suppress = None, act_disconnect = None, act_delay = None, act_truncate_result = None\<rparr>"

definition Selector_default :: Selector where
  "Selector_default =
     \<lparr>sel_application_name = None, sel_user = None, sel_database = None,
      sel_connection_ordinal = None, sel_transaction = None, sel_query_cycle = None,
      sel_statement = None, sel_sql_fingerprint = None\<rparr>"

section \<open>Validation\<close>

text \<open>The events whose frame travels towards the server.\<close>

definition is_upstream_event :: "string \<Rightarrow> bool" where
  "is_upstream_event ev \<longleftrightarrow> ev \<in>
     {''query.received'', ''query.forwarded'', ''statement.execution_started'',
      ''transaction.begin.requested'', ''transaction.commit.requested'',
      ''transaction.rollback.requested'', ''frontend.execute'', ''frontend.sync''}"

definition max_delay :: nat where
  "max_delay = 86400 * 1000000000"

definition validate_delay ::
  "(string \<Rightarrow> err + nat) \<Rightarrow> string \<Rightarrow> Delay \<Rightarrow> err + unit" where
  "validate_delay parse_duration ev d =
     (case parse_duration (del_duration d) of
        Inl e \<Rightarrow> Inl e
      | Inr duration \<Rightarrow>
          if duration > max_delay then Inl (Bail ''delay exceeds 24 hours'')
          else if is_upstream_event ev \<noteq> (del_direction d = ToUpstream)
            then Inl (Bail ''delay direction must match the event direction'')
          else Inr ())"

definition validate :: "(string \<Rightarrow> err + nat) \<Rightarrow> Scenario \<Rightarrow> err + unit" where
  "validate parse_duration s =
     (if sc_version s \<noteq> 1 then Inl (Bail ''unsupported scenario version'')
      else if trim_is_empty (sc_name s) then Inl (Bail ''scenario name is empty'')
      else if when_event (sc_when s) \<notin> set EVENTS then Inl (Bail ''unknown semantic event'')
      else if when_occurrence (sc_when s) = Some 0 \<or> when_row (sc_when s) = Some 0
        then Inl (Bail ''occurrence and row are one-based'')
      else if sel_connection_ordinal (sc_selector s) = Some 0
        then Inl (Bail ''connection_ordinal is one-based'')
      else try_then
        (case act_delay (sc_action s) of
           None \<Rightarrow> Inr ()
         | Some d \<Rightarrow> validate_delay parse_duration (when_event (sc_when s)) d)
        (\<lambda>_.
          if act_suppress (sc_action s) = None \<and> act_disconnect (sc_action s) = None \<and>
             act_delay (sc_action s) = None \<and> act_truncate_result (sc_action s) = None
            then Inl (Bail ''scenario has no action'')
          else if act_truncate_result (sc_action s) \<noteq> None \<and>
             when_event (sc_when s) \<noteq> ''result.started''
            then Inl (Bail ''truncate_result must target result.started'')
          else Inr ()))"

definition load ::
  "(string \<Rightarrow> err + string) \<Rightarrow> (string \<Rightarrow> err + Scenario) \<Rightarrow> (string \<Rightarrow> err + nat) \<Rightarrow>
   string \<Rightarrow> err + Scenario" where
  "load read_to_string from_yaml parse_duration path =
     try_then (read_to_string path) (\<lambda>txt.
     try_then (from_yaml txt) (\<lambda>s.
     try_then (validate parse_duration s) (\<lambda>_. Inr s)))"

section \<open>The selector and the matcher\<close>

text \<open>\<^verbatim>\<open>Option::is_none_or\<close>.\<close>

definition is_none_or :: "'a option \<Rightarrow> ('a \<Rightarrow> bool) \<Rightarrow> bool" where
  "is_none_or x p \<longleftrightarrow> (case x of None \<Rightarrow> True | Some y \<Rightarrow> p y)"

definition selects :: "Scenario \<Rightarrow> Event \<Rightarrow> bool" where
  "selects s e \<longleftrightarrow>
     (let m = sc_selector s; w = sc_when s in
        is_none_or (sel_application_name m) (\<lambda>x. sm_application_name (ev_startup e) = Some x)
      \<and> is_none_or (sel_user m) (\<lambda>x. sm_user (ev_startup e) = Some x)
      \<and> is_none_or (sel_database m) (\<lambda>x. sm_database (ev_startup e) = Some x)
      \<and> is_none_or (sel_connection_ordinal m) (\<lambda>n. ev_connection_id e = n)
      \<and> is_none_or (sel_transaction m) (\<lambda>n. ev_transaction_epoch e = n)
      \<and> is_none_or (sel_query_cycle m) (\<lambda>n. ev_query_cycle e = n)
      \<and> is_none_or (sel_statement m) (\<lambda>n. ev_statement_index e = n)
      \<and> is_none_or (sel_sql_fingerprint m) (\<lambda>x. ev_sql_fingerprint e = x)
      \<and> (when_statement_class w = [] \<or> ev_statement_class e \<in> set (when_statement_class w))
      \<and> is_none_or (when_row w) (\<lambda>n. ev_row_index e = Some n))"

record Matcher =
  m_scenario :: Scenario
  m_seen :: u64
  m_fired :: bool

definition Matcher_new :: "Scenario \<Rightarrow> Matcher" where
  "Matcher_new s = \<lparr>m_scenario = s, m_seen = 0, m_fired = False\<rparr>"

definition occurrence_of :: "Scenario \<Rightarrow> u64" where
  "occurrence_of s = (case when_occurrence (sc_when s) of None \<Rightarrow> 1 | Some n \<Rightarrow> n)"

definition observe :: "Matcher \<Rightarrow> Event \<Rightarrow> bool \<times> Matcher" where
  "observe m e =
     (if \<not> ev_semantic_reliable e \<or> m_fired m \<or> ev_event e \<noteq> when_event (sc_when (m_scenario m))
         \<or> \<not> selects (m_scenario m) e
      then (False, m)
      else let m1 = m\<lparr>m_seen := m_seen m + 1\<rparr> in
        if m_seen m1 = occurrence_of (m_scenario m1) then (True, m1\<lparr>m_fired := True\<rparr>)
        else (False, m1))"

definition needs_gate :: "Matcher \<Rightarrow> string \<Rightarrow> bool" where
  "needs_gate m boundary \<longleftrightarrow> \<not> m_fired m \<and> when_event (sc_when (m_scenario m)) = boundary"

section \<open>The contract of a one-shot observer\<close>

text \<open>The answers of an observer to a sequence of events.\<close>

fun feed :: "('m \<Rightarrow> 'e \<Rightarrow> bool \<times> 'm) \<Rightarrow> 'm \<Rightarrow> 'e list \<Rightarrow> bool list \<times> 'm" where
  "feed obs m [] = ([], m)"
| "feed obs m (e # es) =
     (let r = feed obs (snd (obs m e)) es in (fst (obs m e) # fst r, snd r))"

lemma length_feed [simp]: "length (fst (feed obs m es)) = length es"
  by (induction es arbitrary: m) (auto simp: Let_def)

locale one_shot =
  fixes obs :: "'m \<Rightarrow> 'e \<Rightarrow> bool \<times> 'm"
    and spent :: "'m \<Rightarrow> bool"
    and key :: "'m \<Rightarrow> 'k"
  assumes obs_spent: "spent m \<Longrightarrow> obs m e = (False, m)"
    and obs_spends: "fst (obs m e) \<Longrightarrow> spent (snd (obs m e))"
    and obs_key: "key (snd (obs m e)) = key m"
begin

lemma feed_spent: "spent m \<Longrightarrow> feed obs m es = (replicate (length es) False, m)"
  by (induction es) (simp_all add: obs_spent)

lemma feed_key: "key (snd (feed obs m es)) = key m"
  by (induction es arbitrary: m) (simp_all add: obs_key Let_def)

lemma feed_once: "length (filter id (fst (feed obs m es))) \<le> 1"
proof (induction es arbitrary: m)
  case (Cons e es)
  show ?case
  proof (cases "fst (obs m e)")
    case True
    then have "spent (snd (obs m e))" by (rule obs_spends)
    with True show ?thesis by (simp add: feed_spent)
  next
    case False
    with Cons [of "snd (obs m e)"] show ?thesis by (simp add: Let_def)
  qed
qed simp

end

lemma observe_fired: "m_fired m \<Longrightarrow> observe m e = (False, m)"
  by (simp add: observe_def)

lemma observe_spends: "fst (observe m e) \<Longrightarrow> m_fired (snd (observe m e))"
  by (auto simp: observe_def Let_def split: if_splits)

lemma observe_scenario [simp]: "m_scenario (snd (observe m e)) = m_scenario m"
  by (simp add: observe_def Let_def)

interpretation matcher: one_shot observe m_fired m_scenario
  by unfold_locales (simp_all add: observe_fired observe_spends)

text \<open>An event a matcher fires on is reliable, of the scenario's kind and selected by it.\<close>

lemma observe_TrueD:
  assumes "fst (observe m e)"
  shows "ev_semantic_reliable e" "ev_event e = when_event (sc_when (m_scenario m))"
    "selects (m_scenario m) e" "\<not> m_fired m"
  using assms by (auto simp: observe_def split: if_splits)

text \<open>A matcher that will fire on an event asks for the completion frame to be gated.\<close>

lemma observe_needs_gate: "fst (observe m e) \<Longrightarrow> needs_gate m (ev_event e)"
  using observe_TrueD [of m e] by (simp add: needs_gate_def)

section \<open>Occurrences\<close>

text \<open>The events a scenario counts.\<close>

definition counted :: "Scenario \<Rightarrow> Event \<Rightarrow> bool" where
  "counted s e \<longleftrightarrow>
     ev_semantic_reliable e \<and> ev_event e = when_event (sc_when s) \<and> selects s e"

lemma observe_counted:
  "\<not> m_fired m \<Longrightarrow> counted (m_scenario m) e \<Longrightarrow>
   observe m e =
     (m_seen m + 1 = occurrence_of (m_scenario m),
      m\<lparr>m_seen := m_seen m + 1, m_fired := m_seen m + 1 = occurrence_of (m_scenario m)\<rparr>)"
  by (simp add: observe_def counted_def Let_def)

lemma observe_not_counted: "\<not> counted (m_scenario m) e \<Longrightarrow> observe m e = (False, m)"
  by (auto simp: observe_def counted_def)

text \<open>The counter stays below the occurrence until the matcher fires, so it never overflows.\<close>

lemma unat_Suc_u64: "unat (x :: u64) < unat (y :: u64) \<Longrightarrow> unat (x + 1) = Suc (unat x)"
proof -
  assume "unat x < unat y"
  then have "unat x + 1 < 2 ^ 64" using unsigned_less [of y, where ?'a = nat] by simp
  then show ?thesis by (simp add: unat_word_ariths)
qed

lemma unat_le_u64: "unat (x :: u64) < unat (y :: u64) \<Longrightarrow> x + 1 \<noteq> y \<Longrightarrow> unat (x + 1) < unat y"
proof -
  assume a: "unat x < unat y" and ne: "x + 1 \<noteq> y"
  from ne have "unat (x + 1) \<noteq> unat y" by (simp add: word_unat_eq_iff)
  with a unat_Suc_u64 [OF a] show ?thesis by simp
qed

lemma feed_observe_nth:
  assumes "\<not> m_fired m" and "unat (m_seen m) < unat (occurrence_of (m_scenario m))" and "i < length es"
  shows "fst (feed observe m es) ! i \<longleftrightarrow>
    counted (m_scenario m) (es ! i) \<and>
    unat (m_seen m) + length (filter (counted (m_scenario m)) (take (Suc i) es)) =
      unat (occurrence_of (m_scenario m))"
  using assms
proof (induction es arbitrary: m i)
  case Nil
  then show ?case by simp
next
  case (Cons e es)
  let ?s = "m_scenario m" and ?occ = "occurrence_of (m_scenario m)"
  show ?case
  proof (cases "counted ?s e")
    case False
    with Cons.IH [OF Cons.prems(1,2)] Cons.prems(3) show ?thesis
      by (cases i) (simp_all add: observe_not_counted Let_def)
  next
    case True
    note ob = observe_counted [OF Cons.prems(1) True]
    note suc = unat_Suc_u64 [OF Cons.prems(2)]
    show ?thesis
    proof (cases "m_seen m + 1 = ?occ")
      case eq: True
      let ?m = "m\<lparr>m_seen := ?occ, m_fired := True\<rparr>"
      have spent: "feed observe ?m es = (replicate (length es) False, ?m)"
        by (rule matcher.feed_spent) simp
      from eq suc have "unat ?occ = Suc (unat (m_seen m))" by simp
      moreover have "counted ?s (es ! j) \<Longrightarrow> 0 < length (filter (counted ?s) (take (Suc j) es))"
        if "j < length es" for j
        using that by (auto simp: take_Suc_conv_app_nth filter_empty_conv)
      ultimately show ?thesis
        using Cons.prems(3) True by (cases i) (auto simp: ob eq spent Let_def)
    next
      case ne: False
      let ?m = "m\<lparr>m_seen := m_seen m + 1, m_fired := False\<rparr>"
      from unat_le_u64 [OF Cons.prems(2) ne] have "unat (m_seen ?m) < unat (occurrence_of (m_scenario ?m))"
        by simp
      from Cons.IH [OF _ this] suc ne True show ?thesis
        using Cons.prems(3) by (cases i) (auto simp: ob word_unat_eq_iff Let_def)
    qed
  qed
qed

section \<open>Properties\<close>

text \<open>
  C12: \<^verbatim>\<open>Matcher::observe\<close> fires at exactly one place: in any sequence of events, a fresh matcher answers
  true at position \<open>i\<close> if and only if the event there satisfies every filter of the scenario and is
  the \<open>n\<close>-th such event, where \<open>n\<close> is the scenario's occurrence (1 by default). Validation rejects
  occurrence 0.
\<close>

theorem matcher_fires_exactly:
  assumes "occurrence_of s \<noteq> 0" and "i < length es"
  shows "fst (feed observe (Matcher_new s) es) ! i \<longleftrightarrow>
    counted s (es ! i) \<and>
    length (filter (counted s) (take (Suc i) es)) = unat (occurrence_of s)"
proof -
  have "0 < unat (occurrence_of s)" using assms(1) by (simp add: unat_gt_0)
  with assms(2) show ?thesis
    using feed_observe_nth [of "Matcher_new s" i es] by (simp add: Matcher_new_def)
qed

text \<open>The shipped scenario \<^verbatim>\<open>scenarios/ambiguous-commit.yaml\<close>.\<close>

definition ambiguous_commit :: Scenario where
  "ambiguous_commit =
     \<lparr>sc_version = 1, sc_name = ''ambiguous-commit'',
      sc_selector = Selector_default\<lparr>sel_application_name := Some ''checkout-test''\<rparr>,
      sc_when = \<lparr>when_event = ''transaction.commit.completed'', when_occurrence = Some 1,
        when_statement_class = [], when_row = None\<rparr>,
      sc_action = Action_default\<lparr>act_suppress := Some \<lparr>sup_current = True\<rparr>,
        act_disconnect := Some \<lparr>dis_side = Frontend, dis_mode = Reset\<rparr>\<rparr>\<rparr>"

text \<open>A commit event of the connection the scenario asks for.\<close>

definition example_commit :: Event where
  "example_commit =
     \<lparr>ev_connection_id = 1, ev_semantic_reliable = True,
      ev_startup = StartupMetadata_default\<lparr>sm_application_name := Some ''checkout-test''\<rparr>,
      ev_transaction_epoch = 1, ev_query_cycle = 1, ev_statement_index = 1,
      ev_statement_class = Commit, ev_sql_fingerprint = [],
      ev_event = ''transaction.commit.completed'', ev_occurrence = 1, ev_row_index = None\<rparr>"

lemma ambiguous_commit_selects: "selects ambiguous_commit example_commit"
  by (simp add: ambiguous_commit_def example_commit_def selects_def is_none_or_def
      Selector_default_def StartupMetadata_default_def)

lemma ambiguous_commit_counts: "counted ambiguous_commit example_commit"
  using ambiguous_commit_selects by (simp add: counted_def ambiguous_commit_def example_commit_def)

lemma ambiguous_commit_valid: "validate (\<lambda>_. Inl (External ''no duration'')) ambiguous_commit = Inr ()"
proof -
  have "\<not> trim_is_empty (sc_name ambiguous_commit)" by code_simp
  then show ?thesis
    by (simp add: validate_def ambiguous_commit_def EVENTS_def Action_default_def Selector_default_def)
qed

lemma ambiguous_commit_occurrence: "occurrence_of ambiguous_commit = 1"
  by (simp add: occurrence_of_def ambiguous_commit_def)

theorem matcher_fires_exactly_witness:
  "occurrence_of ambiguous_commit \<noteq> 0 \<and>
   fst (feed observe (Matcher_new ambiguous_commit) [example_commit, example_commit]) ! 0 \<and>
   \<not> fst (feed observe (Matcher_new ambiguous_commit) [example_commit, example_commit]) ! 1"
  using matcher_fires_exactly [of ambiguous_commit 0 "[example_commit, example_commit]"]
    matcher_fires_exactly [of ambiguous_commit 1 "[example_commit, example_commit]"]
  by (simp add: ambiguous_commit_counts ambiguous_commit_occurrence del: feed.simps)

text \<open>The conditions of \<^verbatim>\<open>Scenario::validate\<close> as a conjunction.\<close>

lemma validate_eq:
  "validate parse_duration s = Inr () \<longleftrightarrow>
     sc_version s = 1 \<and> trim_start (sc_name s) \<noteq> [] \<and>
     when_event (sc_when s) \<in> set EVENTS \<and>
     when_occurrence (sc_when s) \<noteq> Some 0 \<and> when_row (sc_when s) \<noteq> Some 0 \<and>
     sel_connection_ordinal (sc_selector s) \<noteq> Some 0 \<and>
     (act_suppress (sc_action s) \<noteq> None \<or> act_disconnect (sc_action s) \<noteq> None \<or>
      act_delay (sc_action s) \<noteq> None \<or> act_truncate_result (sc_action s) \<noteq> None) \<and>
     (\<forall>d. act_delay (sc_action s) = Some d \<longrightarrow>
        (\<exists>n. parse_duration (del_duration d) = Inr n \<and> n \<le> max_delay \<and>
           (is_upstream_event (when_event (sc_when s)) \<longleftrightarrow> del_direction d = ToUpstream))) \<and>
     (act_truncate_result (sc_action s) \<noteq> None \<longrightarrow> when_event (sc_when s) = ''result.started'')"
proof -
  have del: "validate_delay parse_duration ev d = Inr () \<longleftrightarrow>
     (\<exists>n. parse_duration (del_duration d) = Inr n \<and> n \<le> max_delay \<and>
        (is_upstream_event ev \<longleftrightarrow> del_direction d = ToUpstream))" for ev d
    by (auto simp: validate_delay_def split: sum.splits if_splits)
  show ?thesis
    by (cases "act_delay (sc_action s)") (auto simp: validate_def trim_is_empty_def del)
qed

lemma validate_occurrence: "validate parse_duration s = Inr u \<Longrightarrow> occurrence_of s \<noteq> 0"
  by (auto simp: validate_def occurrence_of_def split: if_splits option.splits)

lemma load_valid: "load rd yaml parse_duration path = Inr s \<Longrightarrow> validate parse_duration s = Inr ()"
  by (auto simp: load_def)

end
