(* ===== verification/Conn_State.thy ===== *)
theory Conn_State
  imports Scenario
begin

text \<open>
  The crate \<^verbatim>\<open>pgfault-state\<close> (\<^verbatim>\<open>crates/pgfault-state/src/lib.rs\<close>): the protocol observer of one
  connection. Its state is the record \<open>ConnectionState\<close>; the arms of \<^verbatim>\<open>frontend\<close> and \<^verbatim>\<open>backend\<close> are
  one definition each. A \<^verbatim>\<open>VecDeque\<close> is a list with its front first, a \<^verbatim>\<open>HashMap\<close> a map. Counters are
  64-bit words and wrap as the release build does.
\<close>

section \<open>Data\<close>

datatype TxState = Idle | InTransaction | FailedTransaction

definition TxState_default :: TxState where
  "TxState_default = Idle"

instantiation TxState :: default
begin

definition default_TxState :: TxState where
  "default_TxState = TxState_default"

instance ..

end

datatype Mutation = MParse string Statement | MBind string Statement | MClose byte string

record Cycle =
  c_id :: u64
  c_statements :: "Statement list"
  c_last :: Statement
  c_rows :: u64
  c_command :: string
  c_error :: bool
  c_extended :: bool
  c_sealed :: bool
  c_statement_index :: u64
  c_executions :: u64
  c_epoch_allocated :: bool
  c_mutations :: "Mutation list"

definition Cycle_default :: Cycle where
  "Cycle_default =
     \<lparr>c_id = 0, c_statements = [], c_last = Statement_default, c_rows = 0, c_command = [],
      c_error = False, c_extended = False, c_sealed = False, c_statement_index = 0,
      c_executions = 0, c_epoch_allocated = False, c_mutations = []\<rparr>"

record ConnectionState =
  cs_id :: u64
  cs_startup :: StartupMetadata
  tx_state :: TxState
  tx_epoch :: u64
  prepared :: "string \<rightharpoonup> Statement"
  portals :: "string \<rightharpoonup> Statement"
  cycles :: "Cycle list"
  next_cycle :: u64
  reliable :: bool
  confirmed_prepared :: "string \<rightharpoonup> Statement"
  confirmed_portals :: "string \<rightharpoonup> Statement"
  counters :: "string \<rightharpoonup> u64"

definition ConnectionState_new :: "u64 \<Rightarrow> StartupMetadata \<Rightarrow> ConnectionState" where
  "ConnectionState_new cid meta =
     \<lparr>cs_id = cid, cs_startup = meta, tx_state = Idle, tx_epoch = 0,
      prepared = Map.empty, portals = Map.empty, cycles = [], next_cycle = 0, reliable = True,
      confirmed_prepared = Map.empty, confirmed_portals = Map.empty, counters = Map.empty\<rparr>"

section \<open>Both ends of the queue\<close>

definition front_of :: "'a list \<Rightarrow> 'a option" where
  "front_of xs = (case xs of [] \<Rightarrow> None | x # _ \<Rightarrow> Some x)"

definition back_of :: "'a list \<Rightarrow> 'a option" where
  "back_of xs = (if xs = [] then None else Some (last xs))"

fun map_front :: "('a \<Rightarrow> 'a) \<Rightarrow> 'a list \<Rightarrow> 'a list" where
  "map_front f [] = []"
| "map_front f (x # xs) = f x # xs"

fun map_back :: "('a \<Rightarrow> 'a) \<Rightarrow> 'a list \<Rightarrow> 'a list" where
  "map_back f [] = []"
| "map_back f [x] = [f x]"
| "map_back f (x # y # zs) = x # map_back f (y # zs)"

definition on_front :: "(Cycle \<Rightarrow> Cycle) \<Rightarrow> ConnectionState \<Rightarrow> ConnectionState" where
  "on_front f s = s\<lparr>cycles := map_front f (cycles s)\<rparr>"

definition on_back :: "(Cycle \<Rightarrow> Cycle) \<Rightarrow> ConnectionState \<Rightarrow> ConnectionState" where
  "on_back f s = s\<lparr>cycles := map_back f (cycles s)\<rparr>"

text \<open>
  \<^verbatim>\<open>cycle\<close> makes sure that the back of the queue is a cycle the next message belongs to; what the
  caller does with the returned reference is a separate \<open>on_back\<close>.
\<close>

definition cycle :: "bool \<Rightarrow> ConnectionState \<Rightarrow> ConnectionState" where
  "cycle extended s =
     (if \<not> extended \<or> (case back_of (cycles s) of None \<Rightarrow> True | Some c \<Rightarrow> c_sealed c)
      then s\<lparr>next_cycle := next_cycle s + 1,
             cycles := cycles s @ [Cycle_default\<lparr>c_id := next_cycle s + 1,
               c_extended := extended, c_sealed := \<not> extended\<rparr>]\<rparr>
      else s)"

section \<open>Events\<close>

definition event_statement :: "bool \<Rightarrow> Cycle \<Rightarrow> Statement" where
  "event_statement frontend c =
     (case (if frontend then back_of (c_statements c) else front_of (c_statements c)) of
        Some st \<Rightarrow> st
      | None \<Rightarrow> c_last c)"

definition event_index :: "bool \<Rightarrow> Cycle \<Rightarrow> u64" where
  "event_index frontend c =
     (if frontend then c_executions c
      else if c_statements c = [] then max (c_statement_index c) 1
      else c_statement_index c + 1)"

definition event_cycle :: "bool \<Rightarrow> ConnectionState \<Rightarrow> Cycle option" where
  "event_cycle frontend s = (if frontend then back_of (cycles s) else front_of (cycles s))"

definition next_count :: "string \<Rightarrow> ConnectionState \<Rightarrow> u64" where
  "next_count name s = (case counters s name of None \<Rightarrow> 0 | Some n \<Rightarrow> n) + 1"

definition event :: "string \<Rightarrow> bool \<Rightarrow> ConnectionState \<Rightarrow> Event \<times> ConnectionState" where
  "event name frontend s =
     (let c = event_cycle frontend s;
          st = (case c of None \<Rightarrow> Statement_default | Some c \<Rightarrow> event_statement frontend c)
      in (\<lparr>ev_connection_id = cs_id s,
           ev_semantic_reliable = reliable s,
           ev_startup = cs_startup s,
           ev_transaction_epoch = tx_epoch s,
           ev_query_cycle = (case c of None \<Rightarrow> 0 | Some c \<Rightarrow> c_id c),
           ev_statement_index = (case c of None \<Rightarrow> 0 | Some c \<Rightarrow> event_index frontend c),
           ev_statement_class = st_class st,
           ev_sql_fingerprint = st_fingerprint st,
           ev_event = name,
           ev_occurrence = next_count name s,
           ev_row_index = (if name = ''result.row'' then map_option c_rows c else None)\<rparr>,
          s\<lparr>counters := (counters s)(name \<mapsto> next_count name s)\<rparr>))"

text \<open>A list of events emitted one after the other.\<close>

fun emit :: "string list \<Rightarrow> bool \<Rightarrow> ConnectionState \<Rightarrow> Event list \<times> ConnectionState" where
  "emit [] frontend s = ([], s)"
| "emit (n # ns) frontend s =
     (let r = event n frontend s; q = emit ns frontend (snd r) in (fst r # fst q, snd q))"

section \<open>Messages of the client\<close>

definition push_mutation :: "Mutation \<Rightarrow> ConnectionState \<Rightarrow> ConnectionState" where
  "push_mutation m s = on_back (\<lambda>c. c\<lparr>c_mutations := c_mutations c @ [m]\<rparr>) (cycle True s)"

text \<open>\<^verbatim>\<open>b'P'\<close>: Parse.\<close>

definition on_parse :: "(string \<Rightarrow> string) \<Rightarrow> Frame \<Rightarrow> ConnectionState \<Rightarrow> ConnectionState" where
  "on_parse sha f s =
     cycle True
       (case cstr (body f) of
          None \<Rightarrow> s
        | Some (name, rest) \<Rightarrow>
            (case cstr rest of
               None \<Rightarrow> s
             | Some (sql, _) \<Rightarrow>
                 let st = Statement_new sha sql in
                 push_mutation (MParse name st) (s\<lparr>prepared := (prepared s)(name \<mapsto> st)\<rparr>)))"

text \<open>\<^verbatim>\<open>b'B'\<close>: Bind.\<close>

definition on_bind :: "Frame \<Rightarrow> ConnectionState \<Rightarrow> ConnectionState" where
  "on_bind f s =
     cycle True
       (case cstr (body f) of
          None \<Rightarrow> s
        | Some (portal, rest) \<Rightarrow>
            (case cstr rest of
               None \<Rightarrow> s
             | Some (stmt, _) \<Rightarrow>
                 (case prepared s stmt of
                    Some st \<Rightarrow>
                      push_mutation (MBind portal st) (s\<lparr>portals := (portals s)(portal \<mapsto> st)\<rparr>)
                  | None \<Rightarrow> s\<lparr>portals := (portals s)(portal := None)\<rparr>)))"

text \<open>\<^verbatim>\<open>b'C'\<close>: Close.\<close>

definition on_close :: "Frame \<Rightarrow> ConnectionState \<Rightarrow> ConnectionState" where
  "on_close f s =
     (case body f of
        [] \<Rightarrow> s
      | kind # rest \<Rightarrow>
          (case cstr rest of
             None \<Rightarrow> s
           | Some (name, _) \<Rightarrow>
               let s1 = push_mutation (MClose kind name) s in
               if kind = CHR ''S'' then s1\<lparr>prepared := (prepared s1)(name := None)\<rparr>
               else if kind = CHR ''P'' then s1\<lparr>portals := (portals s1)(name := None)\<rparr>
               else s1))"

text \<open>\<^verbatim>\<open>b'Q' | b'E'\<close>: Query and Execute.\<close>

definition executed_statement :: "(string \<Rightarrow> string) \<Rightarrow> Frame \<Rightarrow> ConnectionState \<Rightarrow> Statement" where
  "executed_statement sha f s =
     (if tag f = CHR ''Q'' then
        (case cstr (body f) of None \<Rightarrow> Statement_default | Some (sql, _) \<Rightarrow> Statement_new sha sql)
      else
        (case cstr (body f) of
           None \<Rightarrow> Statement_default
         | Some (name, _) \<Rightarrow>
             (case portals s name of None \<Rightarrow> Statement_default | Some st \<Rightarrow> st)))"

definition forget_unnamed :: "ConnectionState \<Rightarrow> ConnectionState" where
  "forget_unnamed s =
     s\<lparr>prepared := (prepared s)([] := None), portals := (portals s)([] := None),
       confirmed_prepared := (confirmed_prepared s)([] := None),
       confirmed_portals := (confirmed_portals s)([] := None)\<rparr>"

definition requested_names :: "StatementClass \<Rightarrow> string list" where
  "requested_names cl =
     (case cl of
        Begin \<Rightarrow> [''transaction.begin.requested'']
      | Commit \<Rightarrow> [''transaction.commit.requested'']
      | Rollback \<Rightarrow> [''transaction.rollback.requested'']
      | _ \<Rightarrow> [])"

definition on_execute ::
  "(string \<Rightarrow> string) \<Rightarrow> Frame \<Rightarrow> ConnectionState \<Rightarrow> string list \<times> ConnectionState" where
  "on_execute sha f s =
     (let st = executed_statement sha f s;
          s1 = (if tag f = CHR ''Q'' then forget_unnamed s else s);
          s2 = on_back (\<lambda>c. c\<lparr>c_statements := c_statements c @ [st], c_executions := c_executions c + 1\<rparr>)
                 (cycle (tag f = CHR ''E'') s1)
      in ([if tag f = CHR ''Q'' then ''query.received'' else ''frontend.execute'',
           ''statement.execution_started''] @ requested_names (st_class st), s2))"

text \<open>\<^verbatim>\<open>b'S'\<close>: Sync.\<close>

definition on_sync :: "ConnectionState \<Rightarrow> ConnectionState" where
  "on_sync s = on_back (\<lambda>c. c\<lparr>c_sealed := True\<rparr>) (cycle True s)"

definition allocate_epoch :: "Frame \<Rightarrow> ConnectionState \<Rightarrow> ConnectionState" where
  "allocate_epoch f s =
     (if tx_state s = Idle \<and> length (cycles s) = 1 \<and>
         (case front_of (cycles s) of None \<Rightarrow> False | Some c \<Rightarrow> \<not> c_epoch_allocated c) \<and>
         tag f \<in> {CHR ''Q'', CHR ''E''}
      then on_front (\<lambda>c. c\<lparr>c_epoch_allocated := True\<rparr>) (s\<lparr>tx_epoch := tx_epoch s + 1\<rparr>)
      else s)"

definition frontend_update ::
  "(string \<Rightarrow> string) \<Rightarrow> Frame \<Rightarrow> ConnectionState \<Rightarrow> string list \<times> ConnectionState" where
  "frontend_update sha f s =
     (let t = tag f in
      if t = CHR ''P'' then ([], on_parse sha f s)
      else if t = CHR ''B'' then ([], on_bind f s)
      else if t = CHR ''C'' then ([], on_close f s)
      else if t = CHR ''Q'' \<or> t = CHR ''E'' then on_execute sha f s
      else if t = CHR ''S'' then ([''frontend.sync''], on_sync s)
      else ([], s))"

definition frontend ::
  "(string \<Rightarrow> string) \<Rightarrow> Frame \<Rightarrow> ConnectionState \<Rightarrow> Event list \<times> ConnectionState" where
  "frontend sha f s =
     (case frontend_update sha f s of (names, s1) \<Rightarrow> emit names True (allocate_epoch f s1))"

definition forwarded :: "ConnectionState \<Rightarrow> Event \<times> ConnectionState" where
  "forwarded s = event ''query.forwarded'' True s"

section \<open>Messages of the server\<close>

definition completion_boundary :: "Frame \<Rightarrow> ConnectionState \<Rightarrow> string option" where
  "completion_boundary f s =
     (if tag f \<noteq> CHR ''C'' \<or> \<not> reliable s then None
      else case front_of (cycles s) of
        None \<Rightarrow> None
      | Some c \<Rightarrow>
          let cl = st_class (event_statement False c) in
          (case text_of (body f) of
             None \<Rightarrow> None
           | Some t \<Rightarrow>
               if cl = Commit \<and> t = ''COMMIT'' then Some ''transaction.commit.completed''
               else if cl = Rollback \<and> t = ''ROLLBACK'' then Some ''transaction.rollback.completed''
               else if cl = Commit \<or> cl = Rollback then None
               else if tx_state s = Idle \<and> cl \<noteq> Begin \<and> cl \<noteq> Other
                 then Some ''transaction.implicit.completed''
               else None))"

text \<open>\<^verbatim>\<open>b'S'\<close>: ParameterStatus.\<close>

definition on_parameter_status :: "Frame \<Rightarrow> ConnectionState \<Rightarrow> ConnectionState" where
  "on_parameter_status f s =
     (case cstr (body f) of
        Some (name, rest) \<Rightarrow>
          if name = ''application_name'' then
            (case cstr rest of
               Some (v, _) \<Rightarrow>
                 s\<lparr>cs_startup := (cs_startup s)\<lparr>sm_application_name := Some (from_utf8_lossy v)\<rparr>\<rparr>
             | None \<Rightarrow> s)
          else s
      | None \<Rightarrow> s)"

text \<open>\<^verbatim>\<open>b'1' | b'2' | b'3'\<close>: ParseComplete, BindComplete and CloseComplete.\<close>

definition pop_mutation :: "ConnectionState \<Rightarrow> Mutation option \<times> ConnectionState" where
  "pop_mutation s =
     (case front_of (cycles s) of
        None \<Rightarrow> (None, s)
      | Some c \<Rightarrow> (front_of (c_mutations c), on_front (\<lambda>c. c\<lparr>c_mutations := tl (c_mutations c)\<rparr>) s))"

definition on_ack :: "Frame \<Rightarrow> ConnectionState \<Rightarrow> ConnectionState" where
  "on_ack f s =
     (case pop_mutation s of (mutation, s1) \<Rightarrow>
        (case mutation of
           Some (MParse name st) \<Rightarrow>
             if tag f = CHR ''1''
             then s1\<lparr>confirmed_prepared := (confirmed_prepared s1)(name \<mapsto> st)\<rparr>
             else s1\<lparr>reliable := False\<rparr>
         | Some (MBind name st) \<Rightarrow>
             if tag f = CHR ''2''
             then s1\<lparr>confirmed_portals := (confirmed_portals s1)(name \<mapsto> st)\<rparr>
             else s1\<lparr>reliable := False\<rparr>
         | Some (MClose kind name) \<Rightarrow>
             if tag f = CHR ''3'' then
               (if kind = CHR ''S''
                then s1\<lparr>confirmed_prepared := (confirmed_prepared s1)(name := None)\<rparr>
                else s1\<lparr>confirmed_portals := (confirmed_portals s1)(name := None)\<rparr>)
             else s1\<lparr>reliable := False\<rparr>
         | None \<Rightarrow> s1\<lparr>reliable := False\<rparr>))"

text \<open>\<^verbatim>\<open>b'D'\<close>: DataRow.\<close>

definition on_data_row :: "ConnectionState \<Rightarrow> Event list \<times> ConnectionState" where
  "on_data_row s =
     emit [''result.row''] False (on_front (\<lambda>c. c\<lparr>c_rows := c_rows c + 1\<rparr>) s)"

text \<open>The statement at the front of a cycle is done.\<close>

definition finish_statement :: "Cycle \<Rightarrow> Cycle" where
  "finish_statement c =
     (case c_statements c of
        [] \<Rightarrow> c
      | st # sts \<Rightarrow> c\<lparr>c_statements := sts, c_last := st\<rparr>)"

text \<open>\<^verbatim>\<open>b'C'\<close>: CommandComplete.\<close>

definition complete_cycle :: "string \<Rightarrow> Cycle \<Rightarrow> Cycle" where
  "complete_cycle command c =
     (let c1 = finish_statement (c\<lparr>c_command := command\<rparr>);
          c2 = (if c_extended c1 then c1\<lparr>c_statement_index := c_statement_index c1 + 1\<rparr> else c1)
      in c2\<lparr>c_rows := 0\<rparr>)"

definition on_command_complete :: "Frame \<Rightarrow> ConnectionState \<Rightarrow> Event list \<times> ConnectionState" where
  "on_command_complete f s =
     (let r = emit [''backend.command_complete'', ''statement.execution_completed'',
                    ''result.completed''] False s
      in (fst r,
          on_front (complete_cycle (case text_of (body f) of None \<Rightarrow> [] | Some t \<Rightarrow> t)) (snd r)))"

text \<open>\<^verbatim>\<open>b's'\<close>: PortalSuspended.\<close>

definition on_portal_suspended :: "ConnectionState \<Rightarrow> ConnectionState" where
  "on_portal_suspended s = on_front (\<lambda>c. (finish_statement c)\<lparr>c_rows := 0\<rparr>) s"

text \<open>\<^verbatim>\<open>b'E'\<close>: ErrorResponse.\<close>

definition on_error :: "ConnectionState \<Rightarrow> Event list \<times> ConnectionState" where
  "on_error s =
     (let s1 = on_front (\<lambda>c. c\<lparr>c_error := True, c_mutations := []\<rparr>) s;
          s2 = s1\<lparr>prepared := confirmed_prepared s1, portals := confirmed_portals s1\<rparr>
      in emit [''backend.error''] False s2)"

text \<open>\<^verbatim>\<open>b'Z'\<close>: ReadyForQuery.\<close>

definition ready_status :: "Frame \<Rightarrow> TxState option" where
  "ready_status f =
     (if body f = [CHR ''I''] then Some Idle
      else if body f = [CHR ''T''] then Some InTransaction
      else if body f = [CHR ''E''] then Some FailedTransaction
      else None)"

definition completed_event :: "TxState \<Rightarrow> ConnectionState \<Rightarrow> string option" where
  "completed_event new s =
     (case front_of (cycles s) of
        None \<Rightarrow> None
      | Some c \<Rightarrow>
          if new \<noteq> Idle \<or> c_error c \<or> \<not> reliable s then None
          else let cl = st_class (c_last c) in
            if cl = Commit \<and> c_command c = ''COMMIT'' then Some ''transaction.commit.completed''
            else if cl = Rollback \<and> c_command c = ''ROLLBACK''
              then Some ''transaction.rollback.completed''
            else if cl = Commit \<or> cl = Rollback then None
            else if tx_state s = Idle \<and> c_command c \<noteq> [] \<and> cl \<noteq> Other
              then Some ''transaction.implicit.completed''
            else None)"

definition ready_names :: "TxState \<Rightarrow> ConnectionState \<Rightarrow> string list" where
  "ready_names new s =
     [''backend.ready'']
     @ (if new = FailedTransaction \<and> tx_state s \<noteq> new then [''transaction.failed''] else [])
     @ (case completed_event new s of None \<Rightarrow> [] | Some n \<Rightarrow> [n])"

definition finish_cycle :: "TxState \<Rightarrow> ConnectionState \<Rightarrow> ConnectionState" where
  "finish_cycle new s =
     (let s1 = s\<lparr>cycles := tl (cycles s)\<rparr>;
          s2 = (if new = Idle
                then s1\<lparr>portals := Map.empty, confirmed_portals := Map.empty\<rparr> else s1)
      in if cycles s2 = []
         then s2\<lparr>reliable := True, prepared := confirmed_prepared s2,
                 portals := confirmed_portals s2\<rparr>
         else s2)"

definition on_ready :: "TxState \<Rightarrow> ConnectionState \<Rightarrow> Event list \<times> ConnectionState" where
  "on_ready new s =
     (let r = emit (ready_names new s) False s;
          q = emit [''connection.ready''] False ((snd r)\<lparr>tx_state := new\<rparr>)
      in (fst r @ fst q, finish_cycle new (snd q)))"

definition backend :: "Frame \<Rightarrow> ConnectionState \<Rightarrow> Event list \<times> ConnectionState" where
  "backend f s =
     (let t = tag f in
      if t = CHR ''S'' then ([], on_parameter_status f s)
      else if t = CHR ''1'' \<or> t = CHR ''2'' \<or> t = CHR ''3'' then ([], on_ack f s)
      else if t = CHR ''T'' then emit [''result.started''] False s
      else if t = CHR ''D'' then on_data_row s
      else if t = CHR ''C'' then on_command_complete f s
      else if t = CHR ''s'' then ([], on_portal_suspended s)
      else if t = CHR ''E'' then on_error s
      else if t = CHR ''Z'' then
        (case ready_status f of None \<Rightarrow> ([], s) | Some new \<Rightarrow> on_ready new s)
      else ([], s))"

section \<open>Sequences of steps\<close>

text \<open>
  What the proxy does with the observer: it shows it a frame of the client or of the server, or
  tells it that a query was forwarded.
\<close>

datatype input = FromClient Frame | FromServer Frame | Forwarded

definition cs_step ::
  "(string \<Rightarrow> string) \<Rightarrow> input \<Rightarrow> ConnectionState \<Rightarrow> Event list \<times> ConnectionState" where
  "cs_step sha i s =
     (case i of
        FromClient f \<Rightarrow> frontend sha f s
      | FromServer f \<Rightarrow> backend f s
      | Forwarded \<Rightarrow> (case forwarded s of (e, s') \<Rightarrow> ([e], s')))"

fun cs_run ::
  "(string \<Rightarrow> string) \<Rightarrow> input list \<Rightarrow> ConnectionState \<Rightarrow> Event list \<times> ConnectionState" where
  "cs_run sha [] s = ([], s)"
| "cs_run sha (i # is) s =
     (let r = cs_step sha i s; q = cs_run sha is (snd r) in (fst r @ fst q, snd q))"

section \<open>The queue ends\<close>

lemma front_simps [simp]: "front_of [] = None" "front_of (x # xs) = Some x"
  by (simp_all add: front_of_def)

lemma back_of_simps [simp]: "back_of [] = None" "back_of (xs @ [x]) = Some x"
  by (simp_all add: back_of_def)

lemma front_eq_None [simp]: "front_of xs = None \<longleftrightarrow> xs = []"
  by (cases xs) simp_all

lemma back_eq_None [simp]: "back_of xs = None \<longleftrightarrow> xs = []"
  by (simp add: back_of_def)

lemma front_eq_Some: "front_of xs = Some x \<longleftrightarrow> (\<exists>ys. xs = x # ys)"
  by (cases xs) auto

lemma back_eq_Some: "back_of xs = Some x \<longleftrightarrow> (\<exists>ys. xs = ys @ [x])"
  by (cases xs rule: rev_cases) auto

lemma map_back_append [simp]: "map_back f (xs @ [x]) = xs @ [f x]"
proof (induction xs)
  case (Cons y ys)
  then show ?case by (cases "ys @ [x]") auto
qed simp

lemma length_map_ends [simp]: "length (map_back f xs) = length xs" "length (map_front f xs) = length xs"
  by (cases xs rule: rev_cases, simp, simp) (cases xs, simp_all)

lemma map_ends_Nil [simp]: "map_back f xs = [] \<longleftrightarrow> xs = []" "map_front f xs = [] \<longleftrightarrow> xs = []"
  by (metis length_map_ends(1) length_0_conv) (metis length_map_ends(2) length_0_conv)

lemma map_map_ends:
  "(\<And>x. g (f x) = g x) \<Longrightarrow> map g (map_back f xs) = map g xs"
  "(\<And>x. g (f x) = g x) \<Longrightarrow> map g (map_front f xs) = map g xs"
  by (cases xs rule: rev_cases, simp, simp) (cases xs, simp_all)

lemma front_map_back: "front_of (map_back f xs) = (case xs of [x] \<Rightarrow> Some (f x) | _ \<Rightarrow> front_of xs)"
  by (induction f xs rule: map_back.induct) simp_all

lemma front_append: "front_of (xs @ ys) = (if xs = [] then front_of ys else front_of xs)"
  by (cases xs) simp_all

lemma front_map_front [simp]: "front_of (map_front f xs) = map_option f (front_of xs)"
  by (cases xs) simp_all

section \<open>Emitting events\<close>

definition cnt :: "(string \<rightharpoonup> u64) \<Rightarrow> string \<Rightarrow> u64" where
  "cnt m n = (case m n of None \<Rightarrow> 0 | Some k \<Rightarrow> k)"

definition bump :: "string \<Rightarrow> (string \<rightharpoonup> u64) \<Rightarrow> (string \<rightharpoonup> u64)" where
  "bump n m = m(n \<mapsto> cnt m n + 1)"

definition bump_all :: "string list \<Rightarrow> (string \<rightharpoonup> u64) \<Rightarrow> (string \<rightharpoonup> u64)" where
  "bump_all ns m = fold bump ns m"

lemma cnt_bump: "cnt (bump n m) k = cnt m k + (if k = n then 1 else 0)"
  by (simp add: cnt_def bump_def)

lemma snd_event [simp]: "snd (event n fr s) = s\<lparr>counters := bump n (counters s)\<rparr>"
  by (simp add: event_def next_count_def bump_def cnt_def Let_def)

lemma snd_emit [simp]: "snd (emit ns fr s) = s\<lparr>counters := bump_all ns (counters s)\<rparr>"
  by (induction ns arbitrary: s) (simp_all add: bump_all_def Let_def)

lemma event_counters [simp]:
  "event_cycle fr (s\<lparr>counters := m\<rparr>) = event_cycle fr s"
  by (simp add: event_cycle_def)

lemma event_fields [simp]:
  "ev_event (fst (event n fr s)) = n"
  "ev_connection_id (fst (event n fr s)) = cs_id s"
  "ev_semantic_reliable (fst (event n fr s)) = reliable s"
  "ev_startup (fst (event n fr s)) = cs_startup s"
  "ev_transaction_epoch (fst (event n fr s)) = tx_epoch s"
  "ev_occurrence (fst (event n fr s)) = cnt (counters s) n + 1"
  by (simp_all add: event_def Let_def next_count_def cnt_def)

lemma names_emit [simp]: "map ev_event (fst (emit ns fr s)) = ns"
  by (induction ns arbitrary: s) (simp_all add: Let_def)

text \<open>An emitted event differs from the one of its name in the current state by its number only.\<close>

lemma emit_event:
  assumes "e \<in> set (fst (emit ns fr s))"
  shows "\<exists>n \<in> set ns. \<exists>k. e = (fst (event n fr s))\<lparr>ev_occurrence := k\<rparr>"
  using assms
proof (induction ns arbitrary: s)
  case (Cons n ns)
  let ?s = "s\<lparr>counters := bump n (counters s)\<rparr>"
  have same: "(fst (event m fr ?s))\<lparr>ev_occurrence := k\<rparr> = (fst (event m fr s))\<lparr>ev_occurrence := k\<rparr>" for m k
    by (simp add: event_def Let_def)
  have self: "fst (event n fr s) = (fst (event n fr s))\<lparr>ev_occurrence := cnt (counters s) n + 1\<rparr>"
    by (simp add: event_def Let_def next_count_def cnt_def)
  from Cons.prems consider "e = fst (event n fr s)" | "e \<in> set (fst (emit ns fr ?s))"
    by (auto simp: Let_def)
  then show ?case
  proof cases
    case 1
    with self have "e = (fst (event n fr s))\<lparr>ev_occurrence := cnt (counters s) n + 1\<rparr>" by (simp only:)
    then show ?thesis by (intro bexI [of _ n] exI) simp_all
  next
    case 2
    from Cons.IH [OF 2] same show ?thesis by auto
  qed
qed simp

section \<open>The names of the events of a step\<close>

definition backend_names :: "Frame \<Rightarrow> ConnectionState \<Rightarrow> string list" where
  "backend_names f s =
     (let t = tag f in
      if t = CHR ''T'' then [''result.started'']
      else if t = CHR ''D'' then [''result.row'']
      else if t = CHR ''C'' then
        [''backend.command_complete'', ''statement.execution_completed'', ''result.completed'']
      else if t = CHR ''E'' then [''backend.error'']
      else if t = CHR ''Z'' then
        (case ready_status f of None \<Rightarrow> [] | Some new \<Rightarrow> ready_names new s @ [''connection.ready''])
      else [])"

lemma names_backend: "map ev_event (fst (backend f s)) = backend_names f s"
  by (simp add: backend_def backend_names_def on_data_row_def on_command_complete_def on_error_def
      on_ready_def Let_def split: option.split)

lemma names_frontend: "map ev_event (fst (frontend sha f s)) = fst (frontend_update sha f s)"
  by (simp add: frontend_def split: prod.split)

lemma completed_event_range:
  "completed_event new s = Some n \<Longrightarrow>
   n \<in> {''transaction.commit.completed'', ''transaction.rollback.completed'',
         ''transaction.implicit.completed''}"
  by (auto simp: completed_event_def Let_def split: option.splits if_splits)

lemma completed_event_commit:
  "completed_event new s = Some ''transaction.commit.completed'' \<longleftrightarrow>
   new = Idle \<and> reliable s \<and>
   (\<exists>c. front_of (cycles s) = Some c \<and> \<not> c_error c \<and> st_class (c_last c) = Commit \<and>
      c_command c = ''COMMIT'')"
  by (cases "front_of (cycles s)") (auto simp: completed_event_def Let_def)

section \<open>What a step leaves alone\<close>

lemma cycle_fields [simp]:
  "cs_id (cycle b s) = cs_id s" "tx_state (cycle b s) = tx_state s" "tx_epoch (cycle b s) = tx_epoch s"
  "reliable (cycle b s) = reliable s" "prepared (cycle b s) = prepared s"
  "portals (cycle b s) = portals s" "confirmed_prepared (cycle b s) = confirmed_prepared s"
  "confirmed_portals (cycle b s) = confirmed_portals s" "counters (cycle b s) = counters s"
  "cs_startup (cycle b s) = cs_startup s"
  by (simp_all add: cycle_def)

lemma on_back_fields [simp]:
  "cs_id (on_back f s) = cs_id s" "tx_state (on_back f s) = tx_state s"
  "tx_epoch (on_back f s) = tx_epoch s"
  "reliable (on_back f s) = reliable s" "prepared (on_back f s) = prepared s"
  "portals (on_back f s) = portals s" "confirmed_prepared (on_back f s) = confirmed_prepared s"
  "confirmed_portals (on_back f s) = confirmed_portals s" "counters (on_back f s) = counters s"
  "cycles (on_back f s) = map_back f (cycles s)" "next_cycle (on_back f s) = next_cycle s"
  "cs_startup (on_back f s) = cs_startup s"
  by (simp_all add: on_back_def)

lemma on_front_fields [simp]:
  "cs_id (on_front f s) = cs_id s" "tx_state (on_front f s) = tx_state s"
  "tx_epoch (on_front f s) = tx_epoch s"
  "reliable (on_front f s) = reliable s" "prepared (on_front f s) = prepared s"
  "portals (on_front f s) = portals s" "confirmed_prepared (on_front f s) = confirmed_prepared s"
  "confirmed_portals (on_front f s) = confirmed_portals s" "counters (on_front f s) = counters s"
  "cycles (on_front f s) = map_front f (cycles s)" "next_cycle (on_front f s) = next_cycle s"
  "cs_startup (on_front f s) = cs_startup s"
  by (simp_all add: on_front_def)

lemma cycle_not_Nil [simp]: "cycles (cycle b s) \<noteq> []"
  by (auto simp: cycle_def)

lemma push_mutation_fields [simp]:
  "cs_id (push_mutation m s) = cs_id s" "tx_state (push_mutation m s) = tx_state s"
  "tx_epoch (push_mutation m s) = tx_epoch s"
  "reliable (push_mutation m s) = reliable s" "prepared (push_mutation m s) = prepared s"
  "portals (push_mutation m s) = portals s"
  "confirmed_prepared (push_mutation m s) = confirmed_prepared s"
  "confirmed_portals (push_mutation m s) = confirmed_portals s"
  "counters (push_mutation m s) = counters s" "cs_startup (push_mutation m s) = cs_startup s"
  "cycles (push_mutation m s) \<noteq> []"
  by (simp_all add: push_mutation_def)

lemmas client_defs = on_parse_def on_bind_def on_close_def on_execute_def on_sync_def
  forget_unnamed_def frontend_update_def Let_def

lemma frontend_update_fields [simp]:
  "cs_id (snd (frontend_update sha f s)) = cs_id s"
  "tx_state (snd (frontend_update sha f s)) = tx_state s"
  "tx_epoch (snd (frontend_update sha f s)) = tx_epoch s"
  "reliable (snd (frontend_update sha f s)) = reliable s"
  "counters (snd (frontend_update sha f s)) = counters s"
  by (simp_all add: client_defs split: option.split list.split)

lemma allocate_epoch_fields [simp]:
  "cs_id (allocate_epoch f s) = cs_id s"
  "tx_state (allocate_epoch f s) = tx_state s"
  "reliable (allocate_epoch f s) = reliable s"
  "counters (allocate_epoch f s) = counters s"
  by (simp_all add: allocate_epoch_def)

lemma snd_frontend:
  "snd (frontend sha f s) =
     (allocate_epoch f (snd (frontend_update sha f s)))
       \<lparr>counters := bump_all (fst (frontend_update sha f s)) (counters s)\<rparr>"
  by (simp add: frontend_def split: prod.split) (metis allocate_epoch_fields(4) frontend_update_fields(5) snd_conv)

section \<open>What the current cycle will report\<close>

text \<open>
  The statement and the command tag that decide what ReadyForQuery completes. Once a cycle is at the
  front, no message of the client changes them, and of the server only CommandComplete,
  PortalSuspended and ReadyForQuery do.
\<close>

definition outcome :: "ConnectionState \<Rightarrow> (Statement \<times> string) option" where
  "outcome s = map_option (\<lambda>c. (c_last c, c_command c)) (front_of (cycles s))"

lemma outcome_ext [simp]:
  "outcome (s\<lparr>prepared := x\<rparr>) = outcome s" "outcome (s\<lparr>portals := x\<rparr>) = outcome s"
  "outcome (s\<lparr>confirmed_prepared := x\<rparr>) = outcome s" "outcome (s\<lparr>confirmed_portals := x\<rparr>) = outcome s"
  "outcome (s\<lparr>tx_epoch := n\<rparr>) = outcome s" "outcome (s\<lparr>counters := m\<rparr>) = outcome s"
  "outcome (s\<lparr>reliable := b\<rparr>) = outcome s" "outcome (s\<lparr>cs_startup := u\<rparr>) = outcome s"
  by (simp_all add: outcome_def)

lemma outcome_cycle [simp]: "cycles s \<noteq> [] \<Longrightarrow> outcome (cycle b s) = outcome s"
  by (simp add: outcome_def cycle_def front_append)

lemma outcome_on_back:
  "(\<And>c. c_last (f c) = c_last c \<and> c_command (f c) = c_command c) \<Longrightarrow> outcome (on_back f s) = outcome s"
  by (auto simp: outcome_def front_map_back split: list.split)

lemma outcome_on_front:
  "(\<And>c. c_last (f c) = c_last c \<and> c_command (f c) = c_command c) \<Longrightarrow> outcome (on_front f s) = outcome s"
  by (cases "cycles s") (simp_all add: outcome_def)

lemma outcome_push_mutation [simp]: "cycles s \<noteq> [] \<Longrightarrow> outcome (push_mutation m s) = outcome s"
  by (simp add: push_mutation_def outcome_on_back)

lemma frontend_update_keeps:
  assumes "cycles s \<noteq> []"
  shows "outcome (snd (frontend_update sha f s)) = outcome s"
    and "cycles (snd (frontend_update sha f s)) \<noteq> []"
  using assms by (simp_all add: client_defs outcome_on_back split: option.split list.split)

lemma allocate_epoch_keeps [simp]:
  "outcome (allocate_epoch f s) = outcome s"
  "cycles (allocate_epoch f s) = [] \<longleftrightarrow> cycles s = []"
  by (simp_all add: allocate_epoch_def outcome_on_front)

lemma frontend_keeps:
  assumes "cycles s \<noteq> []"
  shows "outcome (snd (frontend sha f s)) = outcome s" "cycles (snd (frontend sha f s)) \<noteq> []"
    "tx_state (snd (frontend sha f s)) = tx_state s" "reliable (snd (frontend sha f s)) = reliable s"
  using frontend_update_keeps [OF assms, of sha f] by (simp_all add: snd_frontend)

definition quiet :: "input \<Rightarrow> bool" where
  "quiet i = (case i of FromServer f \<Rightarrow> tag f \<notin> {CHR ''C'', CHR ''s'', CHR ''Z''} | _ \<Rightarrow> True)"

lemma pop_mutation_keeps [simp]:
  "outcome (snd (pop_mutation s)) = outcome s" "cycles (snd (pop_mutation s)) = [] \<longleftrightarrow> cycles s = []"
  "tx_state (snd (pop_mutation s)) = tx_state s" "reliable (snd (pop_mutation s)) = reliable s"
  by (simp_all add: pop_mutation_def outcome_on_front split: option.split)

lemma on_ack_keeps [simp]:
  "outcome (on_ack f s) = outcome s" "cycles (on_ack f s) = [] \<longleftrightarrow> cycles s = []"
  "tx_state (on_ack f s) = tx_state s"
  using pop_mutation_keeps [of s]
  by (auto simp: on_ack_def simp del: pop_mutation_keeps split: prod.splits option.splits Mutation.splits if_splits)

lemma on_ack_reliable: "reliable (on_ack f s) \<Longrightarrow> reliable s"
  using pop_mutation_keeps(4) [of s]
  by (auto simp: on_ack_def simp del: pop_mutation_keeps split: prod.splits option.splits Mutation.splits if_splits)

lemma backend_quiet_keeps:
  assumes "quiet (FromServer f)"
  shows "outcome (snd (backend f s)) = outcome s" "cycles (snd (backend f s)) = [] \<longleftrightarrow> cycles s = []"
    "tx_state (snd (backend f s)) = tx_state s" "reliable (snd (backend f s)) \<longrightarrow> reliable s"
  using assms on_ack_reliable [of f s]
  by (simp_all add: quiet_def backend_def on_parameter_status_def on_data_row_def on_error_def
      outcome_on_front Let_def split: option.split)

lemma cs_step_simps:
  "cs_step sha (FromClient f) s = frontend sha f s"
  "cs_step sha (FromServer f) s = backend f s"
  "cs_step sha Forwarded s = emit [''query.forwarded''] True s"
  by (simp_all add: cs_step_def forwarded_def Let_def split: prod.split)
    (simp add: event_def Let_def next_count_def bump_def bump_all_def cnt_def)

lemma cs_step_keeps:
  assumes "quiet i" and "cycles s \<noteq> []"
  shows "outcome (snd (cs_step sha i s)) = outcome s \<and> cycles (snd (cs_step sha i s)) \<noteq> [] \<and>
    tx_state (snd (cs_step sha i s)) = tx_state s \<and> (reliable (snd (cs_step sha i s)) \<longrightarrow> reliable s)"
proof (cases i)
  case (FromClient f)
  with frontend_keeps [OF assms(2), of sha f] show ?thesis by (simp add: cs_step_simps)
next
  case (FromServer f)
  with backend_quiet_keeps [of f s] assms show ?thesis by (simp add: cs_step_simps)
next
  case Forwarded
  with assms show ?thesis by (simp add: cs_step_simps del: emit.simps)
qed

lemma cs_run_keeps:
  assumes "list_all quiet is" and "cycles s \<noteq> []"
  shows "outcome (snd (cs_run sha is s)) = outcome s \<and> cycles (snd (cs_run sha is s)) \<noteq> [] \<and>
    tx_state (snd (cs_run sha is s)) = tx_state s \<and> (reliable (snd (cs_run sha is s)) \<longrightarrow> reliable s)"
  using assms
proof (induction "is" arbitrary: s)
  case (Cons i "is")
  then have q: "quiet i" and qs: "list_all quiet is" by simp_all
  note step = cs_step_keeps [OF q Cons.prems(2), of sha]
  with Cons.IH [OF qs, of "snd (cs_step sha i s)"] show ?case by (simp add: Let_def)
qed simp

end
