(* ===== verification/Conn_Props.thy ===== *)
theory Conn_Props
  imports Conn_State
begin

text \<open>
  What the protocol observer of \<^verbatim>\<open>crates/pgfault-state/src/lib.rs\<close> guarantees: which events it can
  emit and when, that the gate decision at CommandComplete agrees with the event at ReadyForQuery,
  the numbering of cycles, occurrences and rows, and that the speculative view of the prepared
  statements is the confirmed one plus the pending changes.
\<close>

section \<open>The observer as a machine\<close>

interpretation conn: machine "cs_step sha" "cs_run sha" for sha
  by unfold_locales (simp_all add: Let_def)

section \<open>Vocabulary\<close>

lemma requested_names_EVENTS: "set (requested_names cl) \<subseteq> set EVENTS"
  by (cases cl) (simp_all add: requested_names_def EVENTS_def)

lemma frontend_names_EVENTS: "set (fst (frontend_update sha f s)) \<subseteq> set EVENTS"
  using requested_names_EVENTS
  by (simp add: frontend_update_def on_execute_def Let_def) (simp add: EVENTS_def)

lemma ready_names_EVENTS: "set (ready_names new s) \<subseteq> set EVENTS"
  by (cases "completed_event new s") (auto simp: ready_names_def EVENTS_def dest!: completed_event_range)

lemma backend_names_EVENTS: "set (backend_names f s) \<subseteq> set EVENTS"
proof (cases "tag f = CHR ''Z''")
  case True
  then show ?thesis
    using ready_names_EVENTS
    by (cases "ready_status f") (simp_all add: backend_names_def, simp add: EVENTS_def)
next
  case False
  then show ?thesis by (simp add: backend_names_def Let_def EVENTS_def)
qed

lemma list_all_names: "list_all (\<lambda>e. ev_event e \<in> A) es \<longleftrightarrow> set (map ev_event es) \<subseteq> A"
  by (auto simp: list_all_iff)

lemma cs_step_names_EVENTS: "list_all (\<lambda>e. ev_event e \<in> set EVENTS) (fst (cs_step sha i s))"
proof (cases i)
  case (FromClient f)
  then show ?thesis
    by (simp only: list_all_names cs_step_simps names_frontend frontend_names_EVENTS)
next
  case (FromServer f)
  then show ?thesis
    by (simp only: list_all_names cs_step_simps names_backend backend_names_EVENTS)
next
  case Forwarded
  then show ?thesis by (simp only: list_all_names cs_step_simps names_emit) (simp add: EVENTS_def)
qed

section \<open>Identity\<close>

text \<open>The observer keeps the number of its connection and puts it into every event.\<close>

lemma emit_id [simp]: "cs_id (snd (emit ns fr s)) = cs_id s"
  by (induction ns arbitrary: s) (simp_all add: Let_def)

lemma emit_ids: "cs_id s = i \<Longrightarrow> list_all (\<lambda>e. ev_connection_id e = i) (fst (emit ns fr s))"
proof (induction ns arbitrary: s)
  case (Cons n ns)
  from Cons.IH [of "snd (event n fr s)"] Cons.prems show ?case by (simp add: Let_def)
qed simp

lemma on_ack_id [simp]: "cs_id (on_ack f s) = cs_id s"
  by (simp add: on_ack_def pop_mutation_def Let_def split: option.split Mutation.split)

lemmas server_defs = backend_def on_parameter_status_def on_data_row_def on_command_complete_def
  on_portal_suspended_def on_error_def on_ready_def complete_cycle_def finish_cycle_def Let_def

lemma backend_id:
  "cs_id (snd (backend f s)) = cs_id s" "list_all (\<lambda>e. ev_connection_id e = cs_id s) (fst (backend f s))"
  by (simp_all add: server_defs emit_ids split: option.split del: emit.simps)

lemma frontend_id:
  "cs_id (snd (frontend sha f s)) = cs_id s" "list_all (\<lambda>e. ev_connection_id e = cs_id s) (fst (frontend sha f s))"
proof -
  show "cs_id (snd (frontend sha f s)) = cs_id s" by (simp add: snd_frontend)
  obtain ns s1 where u: "frontend_update sha f s = (ns, s1)" by fastforce
  with frontend_update_fields(1) [of sha f s] show "list_all (\<lambda>e. ev_connection_id e = cs_id s) (fst (frontend sha f s))"
    by (simp add: frontend_def emit_ids)
qed

lemma cs_step_id:
  "cs_id (snd (cs_step sha i s)) = cs_id s" "list_all (\<lambda>e. ev_connection_id e = cs_id s) (fst (cs_step sha i s))"
  by (cases i; simp add: cs_step_simps backend_id frontend_id emit_ids del: emit.simps)+

lemma cs_run_id:
  "cs_id (snd (cs_run sha is s)) = cs_id s" "list_all (\<lambda>e. ev_connection_id e = cs_id s) (fst (cs_run sha is s))"
proof (induction "is" arbitrary: s)
  case (Cons i "is")
  {
    case 1
    show ?case using Cons.IH(1) [of "snd (cs_step sha i s)"] by (simp add: Let_def cs_step_id)
  next
    case 2
    show ?case using Cons.IH(2) [of "snd (cs_step sha i s)"] by (simp add: Let_def cs_step_id)
  }
qed simp_all

section \<open>Occurrence numbers\<close>

fun numbered :: "(string \<rightharpoonup> u64) \<Rightarrow> Event list \<Rightarrow> bool" where
  "numbered m [] = True"
| "numbered m (e # es) = (ev_occurrence e = cnt m (ev_event e) + 1 \<and> numbered (bump (ev_event e) m) es)"

lemma numbered_emit: "numbered (counters s) (fst (emit ns fr s))"
proof (induction ns arbitrary: s)
  case (Cons n ns)
  from Cons.IH [of "s\<lparr>counters := bump n (counters s)\<rparr>"] show ?case by (simp add: Let_def)
qed simp

lemma numbered_append:
  "numbered m (es @ es') \<longleftrightarrow> numbered m es \<and> numbered (bump_all (map ev_event es) m) es'"
  by (induction es arbitrary: m) (simp_all add: bump_all_def)

lemma numbered_nth:
  "numbered m es \<Longrightarrow> i < length es \<Longrightarrow>
   ev_occurrence (es ! i) =
     cnt m (ev_event (es ! i)) + of_nat (count_list (map ev_event (take (Suc i) es)) (ev_event (es ! i)))"
proof (induction es arbitrary: m i)
  case (Cons e es)
  show ?case
  proof (cases i)
    case 0
    with Cons.prems show ?thesis by simp
  next
    case (Suc j)
    with Cons.prems Cons.IH [of "bump (ev_event e) m" j] show ?thesis by (simp add: cnt_bump)
  qed
qed simp

lemma bump_all_append: "bump_all (ns @ ms) m = bump_all ms (bump_all ns m)"
  by (simp add: bump_all_def)

lemma counters_on_ack [simp]: "counters (on_ack f s) = counters s"
  by (auto simp: on_ack_def pop_mutation_def split: prod.splits option.splits Mutation.splits)

lemma counters_finish_cycle [simp]: "counters (finish_cycle new s) = counters s"
  by (simp add: finish_cycle_def Let_def)

lemma cs_step_numbered:
  "numbered (counters s) (fst (cs_step sha i s)) \<and>
   counters (snd (cs_step sha i s)) = bump_all (map ev_event (fst (cs_step sha i s))) (counters s)"
proof (cases i)
  case (FromClient f)
  obtain ns s1 where u: "frontend_update sha f s = (ns, s1)" by fastforce
  then have "counters (allocate_epoch f s1) = counters s"
    using frontend_update_fields(5) [of sha f s] by simp
  with u FromClient numbered_emit [of "allocate_epoch f s1" ns True] show ?thesis
    by (simp add: cs_step_simps frontend_def)
next
  case Forwarded
  with numbered_emit [of s "[''query.forwarded'']" True] show ?thesis
    by (simp add: cs_step_simps del: emit.simps)
next
  case (FromServer f)
  show ?thesis
  proof (cases "tag f = CHR ''Z''")
    case True
    show ?thesis
    proof (cases "ready_status f")
      case None
      with True FromServer show ?thesis by (simp add: cs_step_simps backend_def bump_all_def)
    next
      case (Some new)
      let ?s = "s\<lparr>counters := bump_all (ready_names new s) (counters s), tx_state := new\<rparr>"
      from numbered_emit [of s "ready_names new s" False] numbered_emit [of ?s "[''connection.ready'']" False]
      show ?thesis
        using True FromServer Some
        by (simp add: cs_step_simps backend_def on_ready_def numbered_append bump_all_append Let_def
            del: emit.simps)
    qed
  next
    case False
    note em = numbered_emit [where fr = False]
    let ?d = "on_front (\<lambda>c. c\<lparr>c_rows := c_rows c + 1\<rparr>) s"
    let ?e = "(on_front (\<lambda>c. c\<lparr>c_error := True, c_mutations := []\<rparr>) s)
      \<lparr>prepared := confirmed_prepared s, portals := confirmed_portals s\<rparr>"
    from False FromServer
      em [of s "[''result.started'']"] em [of ?d "[''result.row'']"] em [of ?e "[''backend.error'']"]
      em [of s "[''backend.command_complete'', ''statement.execution_completed'', ''result.completed'']"]
    show ?thesis
      by (simp add: cs_step_simps backend_def on_parameter_status_def on_data_row_def on_error_def
          on_command_complete_def on_portal_suspended_def Let_def bump_all_def [of "[]"]
          del: emit.simps split: option.split)
  qed
qed

lemma cs_run_numbered:
  "numbered (counters s) (fst (cs_run sha is s)) \<and>
   counters (snd (cs_run sha is s)) = bump_all (map ev_event (fst (cs_run sha is s))) (counters s)"
proof (induction "is" arbitrary: s)
  case (Cons i "is")
  from cs_step_numbered [of s sha i] Cons.IH [of "snd (cs_step sha i s)"] show ?case
    by (simp add: conn.run_Cons numbered_append bump_all_append del: cs_run.simps)
qed (simp add: bump_all_def)

section \<open>The gate and the event\<close>

abbreviation completions :: "string set" where
  "completions \<equiv> {''transaction.commit.completed'', ''transaction.rollback.completed'',
     ''transaction.implicit.completed''}"

lemma ready_names_completion:
  "n \<in> completions \<Longrightarrow> n \<in> set (ready_names new s @ [''connection.ready'']) \<longleftrightarrow> completed_event new s = Some n"
  by (elim insertE emptyE) (auto simp: ready_names_def split: option.splits if_splits)

lemma backend_names_completion:
  assumes n: "n \<in> completions"
  shows "n \<in> set (backend_names z s) \<longleftrightarrow>
    tag z = CHR ''Z'' \<and> (\<exists>new. ready_status z = Some new \<and> completed_event new s = Some n)"
proof (cases "tag z = CHR ''Z''")
  case True
  then show ?thesis
    using ready_names_completion [OF n] by (cases "ready_status z") (simp_all add: backend_names_def)
next
  case False
  with n show ?thesis by (elim insertE emptyE) (auto simp: backend_names_def Let_def)
qed

lemma backend_emits:
  "(\<exists>e \<in> set (fst (backend z s)). ev_event e = n) \<longleftrightarrow> n \<in> set (backend_names z s)"
  by (auto simp flip: names_backend)

lemma ready_status_Idle: "ready_status z = Some Idle \<longleftrightarrow> body z = ''I''"
  by (auto simp: ready_status_def)

text \<open>What the event at ReadyForQuery says about the cycle, in terms of its outcome.\<close>

lemma completed_event_outcome:
  assumes "completed_event new s = Some n"
  shows "\<exists>st cmd. outcome s = Some (st, cmd) \<and> reliable s \<and>
    (st_class st = Commit \<and> cmd = ''COMMIT'' \<and> n = ''transaction.commit.completed'' \<or>
     st_class st = Rollback \<and> cmd = ''ROLLBACK'' \<and> n = ''transaction.rollback.completed'' \<or>
     st_class st \<notin> {Commit, Rollback, Other} \<and> tx_state s = Idle \<and> cmd \<noteq> [] \<and>
       n = ''transaction.implicit.completed'')"
  using assms
  by (cases "front_of (cycles s)") (auto simp: completed_event_def outcome_def Let_def split: if_splits)

lemma finish_statement_last [simp]:
  "c_last (finish_statement c) = event_statement False c"
  "c_command (finish_statement c) = c_command c"
  by (simp_all add: finish_statement_def event_statement_def split: list.split)

lemma event_statement_command [simp]: "event_statement fr (c\<lparr>c_command := x\<rparr>) = event_statement fr c"
  by (simp add: event_statement_def split: option.split)

lemma complete_cycle_outcome [simp]:
  "c_last (complete_cycle t c) = event_statement False c" "c_command (complete_cycle t c) = t"
  by (simp_all add: complete_cycle_def Let_def)

lemma backend_command_complete:
  assumes "tag f = CHR ''C''" and "front_of (cycles s) = Some c"
  shows "outcome (snd (backend f s)) =
      Some (event_statement False c, case text_of (body f) of None \<Rightarrow> [] | Some t \<Rightarrow> t)"
    and "tx_state (snd (backend f s)) = tx_state s" and "reliable (snd (backend f s)) = reliable s"
    and "cycles (snd (backend f s)) \<noteq> []"
  using assms by (auto simp: backend_def on_command_complete_def outcome_def Let_def front_eq_Some)

lemma gate_agrees:
  assumes f: "tag f = CHR ''C''" and c: "front_of (cycles s) = Some c"
    and quiet: "list_all quiet is"
    and comp: "completed_event new (snd (cs_run sha is (snd (backend f s)))) = Some n"
  shows "completion_boundary f s = Some n \<or> st_class (event_statement False c) = Begin"
proof -
  let ?s1 = "snd (backend f s)" and ?t = "case text_of (body f) of None \<Rightarrow> [] | Some t \<Rightarrow> t"
  note after = backend_command_complete [OF f c]
  note kept = cs_run_keeps [OF quiet after(4), of sha]
  from completed_event_outcome [OF comp] kept after
  have rel: "reliable s" and cases:
    "st_class (event_statement False c) = Commit \<and> ?t = ''COMMIT'' \<and> n = ''transaction.commit.completed'' \<or>
     st_class (event_statement False c) = Rollback \<and> ?t = ''ROLLBACK'' \<and> n = ''transaction.rollback.completed'' \<or>
     st_class (event_statement False c) \<notin> {Commit, Rollback, Other} \<and> tx_state s = Idle \<and> ?t \<noteq> [] \<and>
       n = ''transaction.implicit.completed''"
    by auto
  from cases have "\<exists>t. text_of (body f) = Some t" by (cases "text_of (body f)") auto
  with cases rel f c show ?thesis by (auto simp: completion_boundary_def Let_def)
qed

section \<open>A session to evaluate\<close>

text \<open>
  A connection of the application \<^verbatim>\<open>checkout-test\<close> that has sent \<^verbatim>\<open>COMMIT\<close> as a simple query, and the
  frames PostgreSQL answers it with. The digest is the text itself.
\<close>

definition commit_query :: Frame where "commit_query = frame (CHR ''Q'') (''COMMIT'' @ [NUL])"
definition commit_done :: Frame where "commit_done = frame (CHR ''C'') (''COMMIT'' @ [NUL])"
definition ready_idle :: Frame where "ready_idle = frame (CHR ''Z'') ''I''"
definition notice :: Frame where "notice = frame (CHR ''N'') ''notice''"

definition example_meta :: StartupMetadata where
  "example_meta = StartupMetadata_default\<lparr>sm_application_name := Some ''checkout-test''\<rparr>"

definition commit_session :: ConnectionState where
  "commit_session = snd (frontend (\<lambda>sql. sql) commit_query (ConnectionState_new 1 example_meta))"

definition commit_cycle :: Cycle where
  "commit_cycle = Cycle_default\<lparr>c_id := 1, c_sealed := True, c_executions := 1,
     c_epoch_allocated := True, c_statements := [\<lparr>st_class = Commit, st_fingerprint = ''COMMIT''\<rparr>]\<rparr>"

lemmas example_frames = commit_query_def commit_done_def ready_idle_def notice_def

lemma tags_example [simp]:
  "tag commit_query = CHR ''Q''" "tag commit_done = CHR ''C''" "tag ready_idle = CHR ''Z''"
  "tag notice = CHR ''N''" "body ready_idle = ''I''" "text_of (body commit_done) = Some ''COMMIT''"
  "ready_status ready_idle = Some Idle"
  by (simp_all add: example_frames ready_status_def text_of_append [of "''COMMIT''" "[]", simplified] is_ascii_def)

lemma classify_COMMIT: "classify ''COMMIT'' = Commit"
  by code_simp

lemma cstr_COMMIT: "cstr (body commit_query) = Some (''COMMIT'', [])"
  using cstr_append [of "''COMMIT''" "[]"] by (simp add: commit_query_def)

lemma commit_session_fields [simp]:
  "cycles commit_session = [commit_cycle]" "tx_state commit_session = Idle" "tx_epoch commit_session = 1"
  "reliable commit_session" "cs_id commit_session = 1" "cs_startup commit_session = example_meta"
  "confirmed_prepared commit_session = Map.empty"
  by (simp_all add: commit_session_def frontend_def frontend_update_def on_execute_def Let_def
      executed_statement_def cstr_COMMIT Statement_new_def classify_COMMIT requested_names_def
      cycle_def ConnectionState_new_def forget_unnamed_def allocate_epoch_def on_back_def on_front_def
      commit_cycle_def Cycle_default_def)

lemma commit_cycle_fields [simp]:
  "event_statement False commit_cycle = \<lparr>st_class = Commit, st_fingerprint = ''COMMIT''\<rparr>"
  "c_error commit_cycle = False" "c_rows commit_cycle = 0" "c_id commit_cycle = 1"
  by (simp_all add: commit_cycle_def event_statement_def Cycle_default_def)

lemma backend_notice [simp]: "backend notice s = ([], s)"
  by (simp add: backend_def)

lemma commit_session_done:
  "cycles (snd (backend commit_done commit_session)) = [complete_cycle ''COMMIT'' commit_cycle]"
  "reliable (snd (backend commit_done commit_session))"
  by (simp_all add: backend_def on_command_complete_def Let_def)

lemma complete_cycle_error [simp]: "c_error (complete_cycle t c) = c_error c"
  by (simp add: complete_cycle_def finish_statement_def Let_def split: list.split)

section \<open>Properties: completion events\<close>

text \<open>
  C11: \<^verbatim>\<open>transaction.commit.completed\<close> is emitted exactly when PostgreSQL has confirmed the commit: the
  frame is ReadyForQuery with status idle, the cycle it answers had no error, its last statement is a
  commit and was acknowledged with the command tag \<^verbatim>\<open>COMMIT\<close> (not \<^verbatim>\<open>ROLLBACK\<close>), and the observer is
  certain of the order of the stream.
\<close>

theorem commit_completed_iff:
  "(\<exists>e \<in> set (fst (backend z s)). ev_event e = ''transaction.commit.completed'') \<longleftrightarrow>
   tag z = CHR ''Z'' \<and> body z = ''I'' \<and> reliable s \<and>
   (\<exists>c. front_of (cycles s) = Some c \<and> \<not> c_error c \<and> st_class (c_last c) = Commit \<and>
      c_command c = ''COMMIT'')"
proof -
  have "''transaction.commit.completed'' \<in> set (backend_names z s) \<longleftrightarrow>
    tag z = CHR ''Z'' \<and> (\<exists>new. ready_status z = Some new \<and>
      completed_event new s = Some ''transaction.commit.completed'')"
    by (rule backend_names_completion) simp
  then show ?thesis
    unfolding backend_emits completed_event_commit ready_status_Idle [symmetric] by auto
qed

text \<open>
  A portal that is suspended after the CommandComplete frame takes over the part of the statement that
  decides the completion, and the gate has not been asked about it: in an idle cycle that executes a
  statement of no known class, for example \<^verbatim>\<open>SET\<close>, and then one that returns only some of its rows, the
  completion is reported at ReadyForQuery although \<^verbatim>\<open>completion_boundary\<close> named no event.
\<close>

lemma suspended_portal_not_gated:
  assumes "front_of (cycles s) = Some c" and "c_statements c = st # st' # sts"
    and "st_class st = Other" and "st_class st' \<notin> {Commit, Rollback, Other}" and "\<not> c_error c"
    and "reliable s" and "tx_state s = Idle"
    and "tag f = CHR ''C''" and "text_of (body f) = Some t" and "t \<noteq> []"
    and "tag p = CHR ''s''" and "tag z = CHR ''Z''" and "body z = ''I''"
  shows "completion_boundary f s = None \<and>
    (\<exists>e \<in> set (fst (backend z (snd (backend p (snd (backend f s)))))). ev_event e = ''transaction.implicit.completed'')"
proof
  show "completion_boundary f s = None"
    using assms by (simp add: completion_boundary_def event_statement_def Let_def)
  let ?s = "snd (backend p (snd (backend f s)))"
  obtain cs where cs: "cycles s = c # cs" using assms(1) by (auto simp: front_eq_Some)
  have "cycles ?s = (finish_statement (complete_cycle t c))\<lparr>c_rows := 0\<rparr> # cs" "reliable ?s" "tx_state ?s = Idle"
    using assms cs
    by (simp_all add: backend_def on_command_complete_def on_portal_suspended_def Let_def del: emit.simps)
  moreover have "c_statements (complete_cycle t c) = st' # sts"
    using assms(2) by (simp add: complete_cycle_def finish_statement_def Let_def)
  ultimately have "completed_event Idle ?s = Some ''transaction.implicit.completed''"
    using assms(4,5,10) by (auto simp: completed_event_def finish_statement_def Let_def)
  then have "''transaction.implicit.completed'' \<in> set (backend_names z ?s)"
    using assms(12,13) by (subst backend_names_completion) (simp_all add: ready_status_def)
  then show "\<exists>e \<in> set (fst (backend z ?s)). ev_event e = ''transaction.implicit.completed''"
    unfolding backend_emits .
qed

text \<open>
  C10: a completion is announced to the gate, but for two exceptions. Take the latest CommandComplete
  frame before a ReadyForQuery at which a completion event is emitted; in between the client may have
  sent anything and the server any frames but these two. Then \<^verbatim>\<open>completion_boundary\<close> named this very event
  when the CommandComplete frame arrived, unless the statement is classified \<open>Begin\<close> (and the session is
  idle after it, which PostgreSQL does not do), or PortalSuspended came in after the CommandComplete
  frame. The second exception is real, see the lemma above.
\<close>

theorem completion_is_gated:
  assumes "tag f = CHR ''C''" and "front_of (cycles s) = Some c"
    and "\<forall>g. FromServer g \<in> set is \<longrightarrow> tag g \<noteq> CHR ''C'' \<and> tag g \<noteq> CHR ''Z''"
    and "e \<in> set (fst (backend z (snd (cs_run sha is (snd (backend f s))))))"
    and "ev_event e \<in> completions"
  shows "completion_boundary f s = Some (ev_event e) \<or> st_class (event_statement False c) = Begin \<or>
    (\<exists>g. FromServer g \<in> set is \<and> tag g = CHR ''s'')"
proof (cases "\<exists>g. FromServer g \<in> set is \<and> tag g = CHR ''s''")
  case False
  with assms(3) have quiet: "list_all quiet is"
    by (auto simp: list_all_iff quiet_def split: input.split)
  let ?s = "snd (cs_run sha is (snd (backend f s)))"
  from assms(4) have "ev_event e \<in> set (backend_names z ?s)" by (auto simp flip: names_backend)
  with backend_names_completion [OF assms(5)] obtain new where "completed_event new ?s = Some (ev_event e)"
    by blast
  from gate_agrees [OF assms(1,2) quiet this] show ?thesis by blast
qed simp

theorem completion_is_gated_witness:
  "completion_boundary commit_done commit_session = Some ''transaction.commit.completed''"
proof -
  let ?s = "snd (cs_run (\<lambda>sql. sql) [FromServer notice] (snd (backend commit_done commit_session)))"
  have "''transaction.commit.completed'' \<in> set (backend_names ready_idle ?s)"
    by (subst backend_names_completion)
      (simp_all add: completed_event_commit commit_session_done cs_step_simps Let_def)
  then obtain e where e: "e \<in> set (fst (backend ready_idle ?s))" "ev_event e = ''transaction.commit.completed''"
    unfolding backend_emits [symmetric] by blast
  from completion_is_gated [OF _ _ _ e(1), where c = commit_cycle] e(2) show ?thesis by simp
qed

text \<open>
  C27: the events of any session of the observer have names from the published vocabulary \<^verbatim>\<open>EVENTS\<close>, the
  list scenario validation accepts, and carry the identity of their connection number by number: in
  the sequence of all events of a connection, the \<open>i\<close>-th one has as its occurrence the number of
  events of its name up to and including it.
\<close>

theorem events_named_and_numbered:
  assumes "es = fst (cs_run sha is (ConnectionState_new cid meta))" and "i < length es"
  shows "ev_event (es ! i) \<in> set EVENTS \<and>
    ev_occurrence (es ! i) = of_nat (count_list (map ev_event (take (Suc i) es)) (ev_event (es ! i)))"
proof -
  let ?s = "ConnectionState_new cid meta"
  have "list_all (\<lambda>e. ev_event e \<in> set EVENTS) es"
    unfolding assms(1) by (rule conn.run_outputs) (rule cs_step_names_EVENTS)
  with assms(2) have name: "ev_event (es ! i) \<in> set EVENTS" by (simp add: list_all_length)
  have "numbered (counters ?s) es" unfolding assms(1) using cs_run_numbered [of ?s sha "is"] by simp
  from numbered_nth [OF this assms(2)] name show ?thesis
    by (simp add: ConnectionState_new_def cnt_def)
qed

theorem events_named_and_numbered_witness:
  "0 < length (fst (cs_run (\<lambda>sql. sql) [FromClient commit_query] (ConnectionState_new 1 example_meta))) \<and>
   ev_event (fst (cs_run (\<lambda>sql. sql) [FromClient commit_query] (ConnectionState_new 1 example_meta)) ! 0) \<in> set EVENTS"
proof -
  let ?es = "fst (cs_run (\<lambda>sql. sql) [FromClient commit_query] (ConnectionState_new 1 example_meta))"
  let ?ns = "fst (frontend_update (\<lambda>sql. sql) commit_query (ConnectionState_new 1 example_meta))"
  have "map ev_event ?es = ?ns" by (simp only: conn.run_single cs_step_simps names_frontend)
  then have "length ?es = length ?ns" by (metis length_map)
  moreover have "0 < length ?ns" by (simp add: frontend_update_def on_execute_def Let_def)
  ultimately have "0 < length ?es" by (simp only:)
  with events_named_and_numbered [OF refl, of 0] show ?thesis by blast
qed

end
