(* ===== verification/Conn_Inv.thy ===== *)
theory Conn_Inv
  imports Conn_Props
begin

text \<open>
  Invariants of the protocol observer: the queue of cycles (consecutive numbers, shape of simple
  cycles), the speculative and the confirmed view of prepared statements, the end of a cycle and the
  query that starts a transaction epoch.
\<close>

section \<open>The queue of cycles\<close>

definition cycle_ok :: "Cycle \<Rightarrow> bool" where
  "cycle_ok c \<longleftrightarrow> c_extended c \<or>
     (c_sealed c \<and> c_mutations c = [] \<and> c_executions c = 1 \<and> length (c_statements c) \<le> 1 \<and>
      c_statement_index c = 0)"

definition ids_ok :: "ConnectionState \<Rightarrow> bool" where
  "ids_ok s \<longleftrightarrow>
     map c_id (cycles s) = map (\<lambda>k. next_cycle s - of_nat k) (rev [0..<length (cycles s)])"

definition conn_inv :: "ConnectionState \<Rightarrow> bool" where
  "conn_inv s \<longleftrightarrow> ids_ok s \<and> list_all cycle_ok (cycles s)"

lemma rev_upt_Suc: "rev [0..<Suc n] = map Suc (rev [0..<n]) @ [0]"
  by (simp add: rev_map flip: map_Suc_upt) (simp add: upt_conv_Cons map_Suc_upt flip: rev_map)

lemma ids_pop:
  assumes "map c_id cs = map (\<lambda>k. n - of_nat k) (rev [0..<length cs])"
  shows "map c_id (tl cs) = map (\<lambda>k. n - of_nat k) (rev [0..<length (tl cs)])"
  using assms by (cases cs) simp_all

lemma ids_ok_cong: "map c_id (cycles t) = map c_id (cycles s) \<Longrightarrow> next_cycle t = next_cycle s \<Longrightarrow>
   ids_ok t = ids_ok s"
  by (simp add: ids_ok_def) (metis length_map)

lemma ids_ok_ends:
  "(\<And>c. c_id (f c) = c_id c) \<Longrightarrow> ids_ok (on_back f s) = ids_ok s"
  "(\<And>c. c_id (f c) = c_id c) \<Longrightarrow> ids_ok (on_front f s) = ids_ok s"
  by (intro ids_ok_cong; simp add: map_map_ends)+

lemma ids_ok_ext [simp]:
  "ids_ok (s\<lparr>prepared := x\<rparr>) = ids_ok s" "ids_ok (s\<lparr>portals := x\<rparr>) = ids_ok s"
  "ids_ok (s\<lparr>confirmed_prepared := x\<rparr>) = ids_ok s" "ids_ok (s\<lparr>confirmed_portals := x\<rparr>) = ids_ok s"
  "ids_ok (s\<lparr>tx_epoch := n\<rparr>) = ids_ok s" "ids_ok (s\<lparr>counters := m\<rparr>) = ids_ok s"
  "ids_ok (s\<lparr>reliable := b\<rparr>) = ids_ok s" "ids_ok (s\<lparr>cs_startup := u\<rparr>) = ids_ok s"
  "ids_ok (s\<lparr>tx_state := t\<rparr>) = ids_ok s"
  by (simp_all add: ids_ok_def)

lemma ids_ok_cycle [simp]: "ids_ok s \<Longrightarrow> ids_ok (cycle b s)"
  by (simp add: cycle_def ids_ok_def rev_upt_Suc del: upt_Suc)

lemma list_all_ends:
  "(\<And>c. P c \<Longrightarrow> P (f c)) \<Longrightarrow> list_all P cs \<Longrightarrow> list_all P (map_front f cs)"
  "(\<And>c. P c \<Longrightarrow> P (f c)) \<Longrightarrow> list_all P cs \<Longrightarrow> list_all P (map_back f cs)"
  by (cases cs, simp_all) (cases cs rule: rev_cases, simp_all)

text \<open>An extended message goes to an extended cycle.\<close>

lemma cycle_extended:
  assumes "list_all cycle_ok (cycles s)"
  obtains cs c where "cycles (cycle True s) = cs @ [c]" "list_all cycle_ok cs" "c_extended c"
proof (cases "back_of (cycles s)")
  case None
  then show ?thesis using that [of "[]"] by (simp add: cycle_def Cycle_default_def)
next
  case (Some c)
  then obtain cs where cs: "cycles s = cs @ [c]" by (auto simp: back_eq_Some)
  show ?thesis
  proof (cases "c_sealed c")
    case True
    with Some that [of "cycles s"] assms show ?thesis by (simp add: cycle_def Cycle_default_def)
  next
    case False
    with Some that [of cs c] assms cs show ?thesis by (simp add: cycle_def cycle_ok_def)
  qed
qed

lemma cycle_ok_True [simp]: "list_all cycle_ok (cycles s) \<Longrightarrow> list_all cycle_ok (cycles (cycle True s))"
  by (erule cycle_extended) (simp add: cycle_ok_def)

lemma cycle_ok_on_back_True:
  assumes "list_all cycle_ok (cycles s)" and "\<And>c. c_extended (f c) = c_extended c"
  shows "list_all cycle_ok (cycles (on_back f (cycle True s)))"
  using assms(1) by (rule cycle_extended) (simp add: cycle_ok_def assms(2))

lemma conn_inv_ext [simp]:
  "conn_inv (s\<lparr>prepared := x\<rparr>) = conn_inv s" "conn_inv (s\<lparr>portals := x\<rparr>) = conn_inv s"
  "conn_inv (s\<lparr>confirmed_prepared := x\<rparr>) = conn_inv s" "conn_inv (s\<lparr>confirmed_portals := x\<rparr>) = conn_inv s"
  "conn_inv (s\<lparr>tx_epoch := n\<rparr>) = conn_inv s" "conn_inv (s\<lparr>counters := m\<rparr>) = conn_inv s"
  "conn_inv (s\<lparr>reliable := b\<rparr>) = conn_inv s" "conn_inv (s\<lparr>cs_startup := u\<rparr>) = conn_inv s"
  "conn_inv (s\<lparr>tx_state := t\<rparr>) = conn_inv s"
  by (simp_all add: conn_inv_def)

lemma conn_inv_cycle [simp]: "conn_inv s \<Longrightarrow> conn_inv (cycle True s)"
  by (simp add: conn_inv_def)

lemma conn_inv_on_back:
  assumes "conn_inv s" and "\<And>c. c_extended (f c) = c_extended c" and "\<And>c. c_id (f c) = c_id c"
  shows "conn_inv (on_back f (cycle True s))"
  using assms cycle_ok_on_back_True [of s f] by (simp add: conn_inv_def ids_ok_ends)

lemma conn_inv_on_front:
  assumes "conn_inv s" and "\<And>c. cycle_ok c \<Longrightarrow> cycle_ok (f c)" and "\<And>c. c_id (f c) = c_id c"
  shows "conn_inv (on_front f s)"
  using assms by (simp add: conn_inv_def ids_ok_ends list_all_ends)

lemma conn_inv_push_mutation [simp]: "conn_inv s \<Longrightarrow> conn_inv (push_mutation m s)"
  by (simp add: push_mutation_def conn_inv_on_back)

lemma conn_inv_simple:
  assumes "conn_inv s"
  shows "conn_inv (on_back (\<lambda>c. c\<lparr>c_statements := c_statements c @ [st], c_executions := c_executions c + 1\<rparr>)
    (cycle False s))"
  using assms
  by (simp add: conn_inv_def ids_ok_ends) (simp add: cycle_def cycle_ok_def Cycle_default_def)

lemma conn_inv_frontend_update: "conn_inv s \<Longrightarrow> conn_inv (snd (frontend_update sha f s))"
  by (simp add: client_defs conn_inv_simple conn_inv_on_back split: option.split list.split)

lemma conn_inv_allocate_epoch: "conn_inv s \<Longrightarrow> conn_inv (allocate_epoch f s)"
  unfolding allocate_epoch_def by (auto intro!: conn_inv_on_front simp: cycle_ok_def)

lemma cycle_ok_finish [simp]: "cycle_ok c \<Longrightarrow> cycle_ok (finish_statement c)"
  by (auto simp: cycle_ok_def finish_statement_def split: list.split)

lemma cycle_id_finish [simp]: "c_id (finish_statement c) = c_id c"
  by (simp add: finish_statement_def split: list.split)

lemma cycle_ok_complete: "cycle_ok c \<Longrightarrow> cycle_ok (complete_cycle t c)" "c_id (complete_cycle t c) = c_id c"
  by (auto simp: complete_cycle_def cycle_ok_def finish_statement_def Let_def split: list.split)

lemma conn_inv_pop_mutation: "conn_inv s \<Longrightarrow> conn_inv (snd (pop_mutation s))"
  unfolding pop_mutation_def
  by (auto intro!: conn_inv_on_front simp: cycle_ok_def split: option.split)

lemma conn_inv_on_ack: "conn_inv s \<Longrightarrow> conn_inv (on_ack f s)"
  using conn_inv_pop_mutation [of s]
  by (auto simp: on_ack_def split: prod.split option.split Mutation.split)

lemma conn_inv_finish_cycle: "conn_inv s \<Longrightarrow> conn_inv (finish_cycle new s)"
  using ids_pop [of "cycles s" "next_cycle s"]
  by (cases "cycles s") (simp_all add: finish_cycle_def conn_inv_def ids_ok_def Let_def)

lemma conn_inv_backend: "conn_inv s \<Longrightarrow> conn_inv (snd (backend f s))"
proof -
  assume inv: "conn_inv s"
  have suspended: "conn_inv (on_portal_suspended s)"
    unfolding on_portal_suspended_def
    using cycle_ok_finish by (intro conn_inv_on_front [OF inv]) (auto simp: cycle_ok_def)
  have "conn_inv (on_front (\<lambda>c. c\<lparr>c_rows := c_rows c + 1\<rparr>) s)"
    "conn_inv (on_front (\<lambda>c. c\<lparr>c_error := True, c_mutations := []\<rparr>) s)"
    "conn_inv (on_front (complete_cycle t) (s\<lparr>counters := m\<rparr>))" for t m
    using inv by (auto intro!: conn_inv_on_front simp: cycle_ok_complete) (auto simp: cycle_ok_def)
  with inv suspended show ?thesis
    by (simp add: backend_def on_parameter_status_def on_data_row_def on_error_def on_ready_def
        on_command_complete_def conn_inv_on_ack conn_inv_finish_cycle Let_def del: emit.simps
        split: option.split)
qed

lemma conn_inv_step: "conn_inv s \<Longrightarrow> conn_inv (snd (cs_step sha i s))"
  by (cases i) (simp_all add: cs_step_simps snd_frontend conn_inv_allocate_epoch
      conn_inv_frontend_update conn_inv_backend del: emit.simps)

interpretation conn: invariant_machine "cs_step sha" "cs_run sha" conn_inv for sha
  by unfold_locales (rule conn_inv_step)

lemma conn_inv_new: "conn_inv (ConnectionState_new cid meta)"
  by (simp add: conn_inv_def ids_ok_def ConnectionState_new_def)

lemma event_index_simple: "cycle_ok c \<Longrightarrow> \<not> c_extended c \<Longrightarrow> event_index fr c = 1"
  by (simp add: cycle_ok_def event_index_def max_def)

section \<open>Speculative and confirmed statements\<close>

text \<open>The effect of a confirmed mutation on the prepared statements, and the mutations not confirmed yet.\<close>

definition apply_mutation :: "Mutation \<Rightarrow> (string \<rightharpoonup> Statement) \<Rightarrow> (string \<rightharpoonup> Statement)" where
  "apply_mutation m p =
     (case m of
        MParse n st \<Rightarrow> p(n \<mapsto> st)
      | MBind _ _ \<Rightarrow> p
      | MClose kind n \<Rightarrow> if kind = CHR ''S'' then p(n := None) else p)"

definition pending_in :: "Cycle list \<Rightarrow> Mutation list" where
  "pending_in cs = concat (map c_mutations cs)"

definition synced :: "ConnectionState \<Rightarrow> bool" where
  "synced s \<longleftrightarrow> prepared s = fold apply_mutation (pending_in (cycles s)) (confirmed_prepared s)"

text \<open>
  The steps the correspondence allows: a simple query while nothing is pending, an error that leaves
  no later cycle with pending changes, and the end of a cycle whose changes were all acknowledged or
  that is the last one. Every other message is unrestricted.
\<close>

definition orderly :: "input \<Rightarrow> ConnectionState \<Rightarrow> bool" where
  "orderly i s =
     (case i of
        FromClient f \<Rightarrow> tag f = CHR ''Q'' \<longrightarrow> pending_in (cycles s) = []
      | FromServer f \<Rightarrow>
          (tag f = CHR ''E'' \<longrightarrow> pending_in (tl (cycles s)) = []) \<and>
          (tag f = CHR ''Z'' \<longrightarrow>
             (case front_of (cycles s) of None \<Rightarrow> True | Some c \<Rightarrow> c_mutations c = []) \<or> tl (cycles s) = [])
      | Forwarded \<Rightarrow> True)"

fun orderly_run :: "(string \<Rightarrow> string) \<Rightarrow> input list \<Rightarrow> ConnectionState \<Rightarrow> bool" where
  "orderly_run sha [] s = True"
| "orderly_run sha (i # is) s = (orderly i s \<and> orderly_run sha is (snd (cs_step sha i s)))"

lemma pending_in_simps [simp]:
  "pending_in [] = []" "pending_in (c # cs) = c_mutations c @ pending_in cs"
  "pending_in (cs @ ds) = pending_in cs @ pending_in ds"
  by (simp_all add: pending_in_def)

lemma pending_cycle [simp]: "pending_in (cycles (cycle b s)) = pending_in (cycles s)"
  by (simp add: cycle_def Cycle_default_def)

lemma pending_on_back: "(\<And>c. c_mutations (f c) = c_mutations c) \<Longrightarrow>
   pending_in (map_back f cs) = pending_in cs"
  by (cases cs rule: rev_cases) simp_all

lemma pending_on_front: "(\<And>c. c_mutations (f c) = c_mutations c) \<Longrightarrow>
   pending_in (map_front f cs) = pending_in cs"
  by (cases cs) simp_all

lemma pending_push: "cs \<noteq> [] \<Longrightarrow>
   pending_in (map_back (\<lambda>c. c\<lparr>c_mutations := c_mutations c @ [m]\<rparr>) cs) = pending_in cs @ [m]"
  by (cases cs rule: rev_cases) simp_all

lemma pending_push_mutation [simp]:
  "pending_in (cycles (push_mutation m s)) = pending_in (cycles s) @ [m]"
  by (simp add: push_mutation_def pending_push)

lemma synced_cong: "prepared t = prepared s \<Longrightarrow> confirmed_prepared t = confirmed_prepared s \<Longrightarrow>
   pending_in (cycles t) = pending_in (cycles s) \<Longrightarrow> synced t = synced s"
  by (simp add: synced_def)

lemma synced_frontend_update:
  assumes "synced s" and "orderly (FromClient f) s"
  shows "synced (snd (frontend_update sha f s))"
  using assms
  by (simp add: client_defs synced_def orderly_def apply_mutation_def pending_on_back
      split: option.split list.split)

lemma synced_allocate_epoch [simp]: "synced (allocate_epoch f s) = synced s"
  by (rule synced_cong) (simp_all add: allocate_epoch_def pending_on_front)

lemma synced_on_ack:
  assumes "synced s" and "reliable (on_ack f s)"
  shows "synced (on_ack f s)"
proof -
  from assms(2) obtain c cs m ms where c: "cycles s = c # cs" "c_mutations c = m # ms"
    by (cases "cycles s"; cases "c_mutations (hd (cycles s))") (auto simp: on_ack_def pop_mutation_def)
  with assms show ?thesis
    by (cases m) (auto simp: on_ack_def pop_mutation_def synced_def apply_mutation_def split: if_splits)
qed

lemma synced_ready:
  assumes "reliable s \<Longrightarrow> synced s" and "orderly (FromServer f) s" and "tag f = CHR ''Z''"
    and "reliable (snd (on_ready new s))"
  shows "synced (snd (on_ready new s))"
proof (cases "cycles s")
  case Nil
  then show ?thesis by (simp add: on_ready_def finish_cycle_def synced_def Let_def)
next
  case (Cons c cs)
  with assms show ?thesis
    by (cases "cs = []") (auto simp: on_ready_def finish_cycle_def synced_def orderly_def Let_def split: if_splits)
qed

lemma complete_cycle_mutations [simp]:
  "c_mutations (finish_statement c) = c_mutations c" "c_mutations (complete_cycle t c) = c_mutations c"
  by (simp_all add: complete_cycle_def finish_statement_def Let_def split: list.split)

lemma synced_backend:
  assumes s: "reliable s \<Longrightarrow> synced s" and o: "orderly (FromServer f) s"
    and r: "reliable (snd (backend f s))"
  shows "synced (snd (backend f s))"
proof -
  consider (ack) "tag f \<in> {CHR ''1'', CHR ''2'', CHR ''3''}" | (err) "tag f = CHR ''E''"
    | (ready) "tag f = CHR ''Z''"
    | (rest) "tag f \<notin> {CHR ''1'', CHR ''2'', CHR ''3'', CHR ''E'', CHR ''Z''}"
    by blast
  then show ?thesis
  proof cases
    case ack
    then have b: "snd (backend f s) = on_ack f s" by (auto simp: backend_def)
    with r on_ack_reliable have "reliable s" by metis
    with s synced_on_ack r b show ?thesis by metis
  next
    case err
    with o show ?thesis
      by (cases "cycles s") (simp_all add: backend_def on_error_def synced_def orderly_def Let_def del: emit.simps)
  next
    case ready
    then show ?thesis
      using s r synced_ready [OF s o ready]
      by (cases "ready_status f") (simp_all add: backend_def)
  next
    case rest
    then have "prepared (snd (backend f s)) = prepared s" "reliable (snd (backend f s)) = reliable s"
      "confirmed_prepared (snd (backend f s)) = confirmed_prepared s"
      "pending_in (cycles (snd (backend f s))) = pending_in (cycles s)"
      by (simp_all add: backend_def on_parameter_status_def on_data_row_def on_command_complete_def
          on_portal_suspended_def pending_on_front Let_def del: emit.simps split: option.split)
    with s r synced_cong [of "snd (backend f s)" s] show ?thesis by simp
  qed
qed

lemma synced_step:
  assumes "reliable s \<Longrightarrow> synced s" and "orderly i s" and "reliable (snd (cs_step sha i s))"
  shows "synced (snd (cs_step sha i s))"
proof (cases i)
  case (FromClient f)
  with assms have "synced s" by (simp add: cs_step_simps snd_frontend)
  with FromClient assms(2) have "synced (allocate_epoch f (snd (frontend_update sha f s)))"
    by (simp add: synced_frontend_update)
  with FromClient show ?thesis by (simp add: cs_step_simps snd_frontend synced_def)
next
  case (FromServer f)
  with assms synced_backend [of s f] show ?thesis by (simp add: cs_step_simps)
next
  case Forwarded
  with assms show ?thesis by (simp add: cs_step_simps synced_def del: emit.simps)
qed

lemma synced_run:
  assumes "reliable s \<Longrightarrow> synced s" and "orderly_run sha is s" and "reliable (snd (cs_run sha is s))"
  shows "synced (snd (cs_run sha is s))"
  using assms
proof (induction "is" arbitrary: s)
  case (Cons i "is")
  have "synced (snd (cs_step sha i s))" if "reliable (snd (cs_step sha i s))"
    using synced_step [of s i sha] Cons.prems that by simp
  with Cons.IH [of "snd (cs_step sha i s)"] Cons.prems show ?case by (simp add: Let_def)
qed simp

section \<open>Properties\<close>

text \<open>
  C25: the outstanding cycles of a connection are the most recently opened ones, in order and without
  gaps: in every state the observer can reach, the queue holds the cycles \<open>next_cycle - n + 1\<close> to
  \<open>next_cycle\<close>, oldest first. Events of a simple query always carry statement index 1.
\<close>

theorem cycles_numbered:
  assumes "s = snd (cs_run sha is (ConnectionState_new cid meta))"
  shows "map c_id (cycles s) = map (\<lambda>k. next_cycle s - of_nat k) (rev [0..<length (cycles s)]) \<and>
    (\<forall>c \<in> set (cycles s). \<not> c_extended c \<longrightarrow> event_index fr c = 1)"
proof -
  have "conn_inv s" unfolding assms by (rule conn.inv_run [OF conn_inv_new])
  then show ?thesis by (auto simp: conn_inv_def ids_ok_def list_all_iff event_index_simple)
qed

theorem cycles_numbered_witness:
  "map c_id (cycles (snd (cs_run (\<lambda>sql. sql) [FromClient commit_query] (ConnectionState_new 1 example_meta)))) = [1]"
proof -
  have s: "snd (cs_run (\<lambda>sql. sql) [FromClient commit_query] (ConnectionState_new 1 example_meta)) = commit_session"
    by (simp add: cs_step_simps commit_session_def Let_def)
  have "map c_id (cycles commit_session) =
    map (\<lambda>k. next_cycle commit_session - of_nat k) (rev [0..<length (cycles commit_session)])"
    using cycles_numbered [OF s [symmetric]] by blast
  then show ?thesis unfolding s by simp
qed

text \<open>
  C23: the speculative view is sound. While the observer calls the stream reliable, the statements it
  resolves Bind messages with are those PostgreSQL has confirmed, changed by the Parse and Close
  messages that are still waiting for their acknowledgement, in order. The session is orderly: a
  simple query is sent only while no such message is pending, an error leaves no pending message in a
  later cycle, and a cycle that ends has had all its messages acknowledged or is the last one.
\<close>

theorem speculation_sound:
  assumes "orderly_run sha is (ConnectionState_new cid meta)"
    and "s = snd (cs_run sha is (ConnectionState_new cid meta))" and "reliable s"
  shows "prepared s = fold apply_mutation (concat (map c_mutations (cycles s))) (confirmed_prepared s)"
proof -
  have "synced (ConnectionState_new cid meta)" by (simp add: synced_def ConnectionState_new_def)
  with assms have "synced s" using synced_run [of "ConnectionState_new cid meta" sha "is"] by simp
  then show ?thesis by (simp add: synced_def pending_in_def)
qed

text \<open>A Parse message that is not acknowledged yet.\<close>

definition parse_frame :: Frame where
  "parse_frame = frame (CHR ''P'') (''a'' @ NUL # ''SELECT'' @ [NUL])"

theorem speculation_sound_witness:
  "let s = snd (cs_run (\<lambda>sql. sql) [FromClient commit_query, FromClient parse_frame] (ConnectionState_new 1 example_meta)) in
     prepared s ''a'' \<noteq> None \<and> confirmed_prepared s ''a'' = None \<and>
     prepared s = fold apply_mutation (concat (map c_mutations (cycles s))) (confirmed_prepared s)"
proof -
  let ?is = "[FromClient commit_query, FromClient parse_frame]"
  let ?s = "snd (cs_run (\<lambda>sql. sql) ?is (ConnectionState_new 1 example_meta))"
  have run: "?s = snd (frontend (\<lambda>sql. sql) parse_frame commit_session)"
    by (simp add: cs_step_simps commit_session_def Let_def)
  have "cstr (body parse_frame) = Some (''a'', ''SELECT'' @ [NUL])" "cstr (''SELECT'' @ [NUL]) = Some (''SELECT'', [])"
    using cstr_append [of "''a''" "''SELECT'' @ [NUL]"] cstr_append [of "''SELECT''" "[]"] by (simp_all add: parse_frame_def)
  then have "prepared ?s ''a'' \<noteq> None" "confirmed_prepared ?s ''a'' = None" "reliable ?s"
    unfolding run
    by (simp_all add: snd_frontend frontend_update_def parse_frame_def on_parse_def allocate_epoch_def Let_def)
  moreover have "orderly_run (\<lambda>sql. sql) ?is (ConnectionState_new 1 example_meta)"
    by (simp add: orderly_def ConnectionState_new_def parse_frame_def)
  from speculation_sound [OF this refl] \<open>reliable ?s\<close>
  have "prepared ?s = fold apply_mutation (concat (map c_mutations (cycles ?s))) (confirmed_prepared ?s)" .
  ultimately show ?thesis unfolding Let_def by blast
qed

text \<open>
  C26: ReadyForQuery ends exactly the oldest cycle. A valid ReadyForQuery removes the front of the
  queue and nothing else from it, every event it causes carries the number of that cycle, the
  transaction state becomes the reported one; when it leaves no cycle, the observer is reliable again
  and its speculative view is the confirmed one.
\<close>

theorem ready_ends_oldest_cycle:
  assumes "tag z = CHR ''Z''" and "ready_status z = Some new" and "front_of (cycles s) = Some c"
    and "s' = snd (backend z s)"
  shows "cycles s' = tl (cycles s) \<and> tx_state s' = new \<and>
    (\<forall>e \<in> set (fst (backend z s)). ev_query_cycle e = c_id c) \<and>
    (cycles s' = [] \<longrightarrow>
      reliable s' \<and> prepared s' = confirmed_prepared s' \<and> portals s' = confirmed_portals s')"
proof (intro conjI)
  have b: "backend z s = on_ready new s" using assms(1,2) by (simp add: backend_def)
  show "cycles s' = tl (cycles s)" "tx_state s' = new"
    "cycles s' = [] \<longrightarrow> reliable s' \<and> prepared s' = confirmed_prepared s' \<and> portals s' = confirmed_portals s'"
    by (simp_all add: assms(4) b on_ready_def finish_cycle_def Let_def del: emit.simps)
  have "ev_query_cycle e = c_id c" if "e \<in> set (fst (emit ns False t))" "cycles t = cycles s" for e ns t
    using emit_event [OF that(1)] that(2) assms(3) by (auto simp: event_def event_cycle_def Let_def)
  then show "\<forall>e \<in> set (fst (backend z s)). ev_query_cycle e = c_id c"
    by (auto simp: b on_ready_def Let_def simp del: emit.simps)
qed

theorem ready_ends_oldest_cycle_witness:
  "cycles (snd (backend ready_idle commit_session)) = [] \<and> reliable (snd (backend ready_idle commit_session))"
proof -
  have "front_of (cycles commit_session) = Some commit_cycle" by simp
  from ready_ends_oldest_cycle [OF tags_example(3) tags_example(7) this refl] show ?thesis by simp
qed

text \<open>
  C40: which queries start a transaction epoch. A simple query sent while the session is idle starts a new
  epoch exactly when no earlier cycle is outstanding (the queue is empty); queries pipelined behind it are counted to the
  epoch of the first one, although PostgreSQL runs each of them in a transaction of its own. All events
  of the query carry the epoch in force after it.
\<close>

theorem epoch_of_query:
  assumes "tx_state s = Idle" and "tag f = CHR ''Q''" and "s' = snd (frontend sha f s)"
  shows "tx_epoch s' = (if cycles s = [] then tx_epoch s + 1 else tx_epoch s) \<and>
    (\<forall>e \<in> set (fst (frontend sha f s)). ev_transaction_epoch e = tx_epoch s')"
proof -
  obtain ns s1 where u: "frontend_update sha f s = (ns, s1)" by fastforce
  have s': "s' = (allocate_epoch f s1)\<lparr>counters := bump_all ns (counters s)\<rparr>"
    using snd_frontend [of sha f s] u assms(3) by simp
  have s1: "tx_state s1 = Idle" "tx_epoch s1 = tx_epoch s"
    using frontend_update_fields(2,3) [of sha f s] u assms(1) by simp_all
  have cyc: "length (cycles s1) = Suc (length (cycles s))"
    "cycles s = [] \<Longrightarrow> \<exists>c. cycles s1 = [c] \<and> \<not> c_epoch_allocated c"
    using u assms(2)
    by (auto simp: frontend_update_def on_execute_def cycle_def forget_unnamed_def on_back_def Cycle_default_def Let_def)
  have "tx_epoch (allocate_epoch f s1) = (if cycles s = [] then tx_epoch s + 1 else tx_epoch s)"
    using cyc s1 assms(2) by (auto simp: allocate_epoch_def)
  moreover have "ev_transaction_epoch e = tx_epoch (allocate_epoch f s1)" if "e \<in> set (fst (frontend sha f s))" for e
    using that emit_event [of e ns True "allocate_epoch f s1"] by (auto simp: frontend_def u)
  ultimately show ?thesis by (simp add: s')
qed

theorem epoch_of_query_witness:
  "tx_epoch (snd (frontend (\<lambda>sql. sql) commit_query commit_session)) = tx_epoch commit_session"
  using epoch_of_query [of commit_session commit_query _ "\<lambda>sql. sql", OF _ _ refl] by simp

end
