(* ===== verification/Trace.thy ===== *)
theory Trace
  imports Scenario
begin

text \<open>
  The crate \<^verbatim>\<open>pgfault-trace\<close> (\<^verbatim>\<open>crates/pgfault-trace/src/lib.rs\<close>): the records of a trace, the
  recorder, and the reconstruction of scenarios from the faults of a trace. The JSON conversions of
  \<^verbatim>\<open>serde_json\<close> and the file system are parameters. The trace file is a byte sink, so that a write may
  fail at any point of a run; a task that panics never holds the lock of the recorder, which is
  therefore never poisoned.
\<close>

section \<open>Definitions\<close>

datatype Record =
    Semantic Event
  | Fault Event Scenario
  | Lifecycle u64 string string

type_synonym Recorder = Sink

text \<open>
  \<^verbatim>\<open>Recorder::create\<close>: the directory is made first, unless the path has none, then the file is
  opened, which must be new.
\<close>

definition Recorder_create ::
  "(string \<Rightarrow> string option) \<Rightarrow> (string \<Rightarrow> err + unit) \<Rightarrow> (string \<Rightarrow> err + Recorder) \<Rightarrow>
   string \<Rightarrow> err + Recorder" where
  "Recorder_create parent create_dir_all open_new path =
     try_then
       (case parent path of
          None \<Rightarrow> Inr ()
        | Some p \<Rightarrow> if p = [] then Inr () else create_dir_all p)
       (\<lambda>_. open_new path)"

definition record_line :: "(Record \<Rightarrow> err + string) \<Rightarrow> Record \<Rightarrow> (Recorder, unit) io" where
  "record_line to_json r rc =
     (case to_json r of
        Inl e \<Rightarrow> (Inl e, rc)
      | Inr line \<Rightarrow> write_all (line @ [LF]) rc)"

definition record_event ::
  "(Record \<Rightarrow> err + string) \<Rightarrow> Event \<Rightarrow> (Recorder, unit) io" where
  "record_event to_json e = record_line to_json (Semantic e)"

definition lifecycle ::
  "(Record \<Rightarrow> err + string) \<Rightarrow> u64 \<Rightarrow> string \<Rightarrow> string \<Rightarrow> (Recorder, unit) io" where
  "lifecycle to_json cid ev detail = record_line to_json (Lifecycle cid ev detail)"

text \<open>The scenario a fault is replayed with.\<close>

definition replay_scenario :: "Event \<Rightarrow> Scenario \<Rightarrow> Scenario" where
  "replay_scenario e s =
     s\<lparr>sc_selector := (sc_selector s)
         \<lparr>sel_application_name := sm_application_name (ev_startup e),
          sel_user := sm_user (ev_startup e),
          sel_database := sm_database (ev_startup e),
          sel_transaction := Some (ev_transaction_epoch e),
          sel_query_cycle := Some (ev_query_cycle e),
          sel_statement := Some (ev_statement_index e),
          sel_sql_fingerprint := Some (ev_sql_fingerprint e)\<rparr>,
       sc_when := (sc_when s)
         \<lparr>when_event := ev_event e,
          when_occurrence := Some 1,
          when_row := ev_row_index e\<rparr>\<rparr>"

text \<open>
  The loop of \<^verbatim>\<open>replay\<close>: \<open>seen\<close> is the hash set of serialised scenarios, \<open>out\<close> the schedules so far.
  A line of the file is the result of reading it.
\<close>

fun replay_loop ::
  "(string \<Rightarrow> err + Record) \<Rightarrow> (Scenario \<Rightarrow> err + string) \<Rightarrow> (string \<Rightarrow> err + nat) \<Rightarrow>
   (err + string) list \<Rightarrow> string set \<Rightarrow> Scenario list \<Rightarrow> err + Scenario list" where
  "replay_loop from_json to_key parse_duration [] seen out = Inr out"
| "replay_loop from_json to_key parse_duration (l # ls) seen out =
     try_then l (\<lambda>line.
     try_then (from_json line) (\<lambda>r.
       case r of
         Fault e s \<Rightarrow>
           (let s' = replay_scenario e s in
            try_then (validate parse_duration s') (\<lambda>_.
            try_then (to_key s') (\<lambda>k.
              if k \<in> seen then replay_loop from_json to_key parse_duration ls seen out
              else replay_loop from_json to_key parse_duration ls (insert k seen) (out @ [s']))))
       | _ \<Rightarrow> replay_loop from_json to_key parse_duration ls seen out))"

definition replay ::
  "(string \<Rightarrow> err + (err + string) list) \<Rightarrow> (string \<Rightarrow> err + Record) \<Rightarrow> (Scenario \<Rightarrow> err + string) \<Rightarrow>
   (string \<Rightarrow> err + nat) \<Rightarrow> string \<Rightarrow> err + Scenario list" where
  "replay open_lines from_json to_key parse_duration path =
     try_then (open_lines path) (\<lambda>ls.
     try_then (replay_loop from_json to_key parse_duration ls {} []) (\<lambda>out.
       if out = [] then Inl (Bail ''trace contains no fired faults'') else Inr out))"

section \<open>The recorder\<close>

lemma record_line_Inr:
  "record_line to_json r rc = (Inr u, rc') \<Longrightarrow>
   \<exists>line. to_json r = Inr line \<and> written rc' = written rc @ line @ [LF]"
  by (auto simp: record_line_def dest: write_all_Inr split: sum.splits)

text \<open>A run of records, and the file it leaves.\<close>

fun record_all :: "(Record \<Rightarrow> err + string) \<Rightarrow> Record list \<Rightarrow> (Recorder, unit) io" where
  "record_all to_json [] rc = (Inr (), rc)"
| "record_all to_json (r # rs) rc = and_then (record_line to_json r) (\<lambda>_. record_all to_json rs) rc"

lemma record_all_Inr:
  "record_all to_json rs rc = (Inr u, rc') \<Longrightarrow>
   \<exists>ls. list_all2 (\<lambda>r l. to_json r = Inr l) rs ls \<and> written rc' = written rc @ as_lines ls"
proof (induction rs arbitrary: rc)
  case Nil
  then show ?case by simp
next
  case (Cons r rs)
  then obtain rc1 where "record_line to_json r rc = (Inr (), rc1)"
    and rest: "record_all to_json rs rc1 = (Inr u, rc')"
    by (auto simp: and_then_Inr)
  from record_line_Inr [OF this(1)] obtain l where
    l: "to_json r = Inr l" "written rc1 = written rc @ l @ [LF]" by auto
  from Cons.IH [OF rest] obtain ls where
    "list_all2 (\<lambda>r l. to_json r = Inr l) rs ls" "written rc' = written rc1 @ as_lines ls" by auto
  with l show ?case by (intro exI [of _ "l # ls"]) simp
qed

section \<open>Replayed scenarios\<close>

text \<open>The coordinates a replayed scenario asks for.\<close>

definition same_coordinates :: "Event \<Rightarrow> Event \<Rightarrow> bool" where
  "same_coordinates e e' \<longleftrightarrow>
     ev_event e' = ev_event e \<and> ev_transaction_epoch e' = ev_transaction_epoch e \<and>
     ev_query_cycle e' = ev_query_cycle e \<and> ev_statement_index e' = ev_statement_index e \<and>
     ev_sql_fingerprint e' = ev_sql_fingerprint e \<and>
     is_none_or (ev_row_index e) (\<lambda>n. ev_row_index e' = Some n)"

lemma replay_occurrence [simp]: "occurrence_of (replay_scenario e s) = 1"
  by (simp add: occurrence_of_def replay_scenario_def)

lemma is_none_or_self [simp]: "is_none_or x (\<lambda>y. x = Some y)"
  by (cases x) (simp_all add: is_none_or_def)

lemma replay_counts_itself:
  "counted s e \<Longrightarrow> counted (replay_scenario e s) e"
  by (simp add: counted_def selects_def replay_scenario_def Let_def)
    (simp add: is_none_or_def)

lemma replay_counts_coordinates:
  assumes "counted (replay_scenario e s) e'"
  shows "same_coordinates e e' \<and> ev_semantic_reliable e'"
  using assms
  by (simp add: counted_def selects_def replay_scenario_def Let_def same_coordinates_def)
    (simp add: is_none_or_def)

text \<open>
  What the loop keeps of its hash set: it holds the keys of the schedules, which are all different.
\<close>

definition keyed :: "(Scenario \<Rightarrow> err + string) \<Rightarrow> string set \<Rightarrow> Scenario list \<Rightarrow> bool" where
  "keyed to_key seen out \<longleftrightarrow> to_key ` set out = Inr ` seen \<and> distinct (map to_key out)"

lemma keyed_Nil [simp]: "keyed to_key {} []"
  by (simp add: keyed_def)

lemma keyed_snoc:
  "keyed to_key seen out \<Longrightarrow> to_key s = Inr k \<Longrightarrow> k \<notin> seen \<Longrightarrow> keyed to_key (insert k seen) (out @ [s])"
  by (simp add: keyed_def image_iff)

lemma keyed_member: "keyed to_key seen out \<Longrightarrow> k \<in> seen \<Longrightarrow> Inr k \<in> to_key ` set out"
  by (simp add: keyed_def)

text \<open>The scenarios the faults among some records stand for.\<close>

fun replays :: "Record list \<Rightarrow> Scenario list" where
  "replays [] = []"
| "replays (Fault e s # rs) = replay_scenario e s # replays rs"
| "replays (_ # rs) = replays rs"

lemma replays_Cons: "replays (r # rs) = replays [r] @ replays rs"
  by (cases r) simp_all

definition reads_as :: "(string \<Rightarrow> err + Record) \<Rightarrow> err + string \<Rightarrow> Record \<Rightarrow> bool" where
  "reads_as from_json l r \<longleftrightarrow> (\<exists>t. l = Inr t \<and> from_json t = Inr r)"

lemma replay_loop_result:
  assumes "replay_loop from_json to_key pd ls seen out = Inr res" and "keyed to_key seen out"
  shows "\<exists>rs. list_all2 (reads_as from_json) ls rs \<and>
    list_all (\<lambda>s. validate pd s = Inr ()) (replays rs) \<and> distinct (map to_key res) \<and>
    set out \<subseteq> set res \<and> set res \<subseteq> set out \<union> set (replays rs) \<and>
    to_key ` set (replays rs) \<subseteq> to_key ` set res"
  using assms
proof (induction ls arbitrary: seen out)
  case Nil
  then show ?case by (simp add: keyed_def)
next
  case (Cons l ls)
  from Cons.prems(1) obtain t r where l: "l = Inr t" and r: "from_json t = Inr r" by auto
  then have here: "reads_as from_json l r" by (simp add: reads_as_def)
  show ?case
  proof (cases "replays [r]")
    case Nil
    with Cons.prems(1) l r have "replay_loop from_json to_key pd ls seen out = Inr res"
      by (cases r) auto
    from Cons.IH [OF this Cons.prems(2)] obtain rs where
      "list_all2 (reads_as from_json) ls rs" "list_all (\<lambda>s. validate pd s = Inr ()) (replays rs)"
      "distinct (map to_key res)" "set out \<subseteq> set res" "set res \<subseteq> set out \<union> set (replays rs)"
      "to_key ` set (replays rs) \<subseteq> to_key ` set res"
      by blast
    with here Nil show ?thesis by (intro exI [of _ "r # rs"]) (simp add: replays_Cons [of r rs])
  next
    case fault: (Cons s ss)
    then obtain e s0 where f: "r = Fault e s0" "s = replay_scenario e s0" by (cases r) auto
    with Cons.prems(1) l r obtain k where v: "validate pd s = Inr ()" and k: "to_key s = Inr k"
      by (auto simp: Let_def)
    obtain seen' out' where "replay_loop from_json to_key pd ls seen' out' = Inr res"
      and keyed: "keyed to_key seen' out'" and out: "set out \<subseteq> set out'" "set out' \<subseteq> insert s (set out)"
      and key: "to_key s \<in> to_key ` set out'"
    proof (cases "k \<in> seen")
      case True
      with Cons.prems(1) l r f v k have "replay_loop from_json to_key pd ls seen out = Inr res"
        by (simp add: Let_def)
      from that [OF this Cons.prems(2)] keyed_member [OF Cons.prems(2) True] k show thesis by auto
    next
      case False
      with Cons.prems(1) l r f v k
      have "replay_loop from_json to_key pd ls (insert k seen) (out @ [s]) = Inr res"
        by (simp add: Let_def)
      from that [OF this keyed_snoc [OF Cons.prems(2) k False]] show thesis by auto
    qed
    from Cons.IH [OF this(1,2)] obtain rs where
      "list_all2 (reads_as from_json) ls rs" "list_all (\<lambda>s. validate pd s = Inr ()) (replays rs)"
      "distinct (map to_key res)" "set out' \<subseteq> set res" "set res \<subseteq> set out' \<union> set (replays rs)"
      "to_key ` set (replays rs) \<subseteq> to_key ` set res"
      by blast
    moreover from this(4) key have "to_key s \<in> to_key ` set res" by blast
    ultimately show ?thesis using here f v out by (intro exI [of _ "r # rs"]) auto
  qed
qed

text \<open>A trace whose lines can be read and whose faults can be replayed is replayed.\<close>

lemma replay_loop_complete:
  assumes "list_all2 (reads_as from_json) ls rs"
    and "list_all (\<lambda>s. validate pd s = Inr () \<and> (\<exists>k. to_key s = Inr k)) (replays rs)"
  shows "\<exists>res. replay_loop from_json to_key pd ls seen out = Inr res"
  using assms
proof (induction ls rs arbitrary: seen out rule: list_all2_induct)
  case (Cons l ls r rs)
  from Cons.hyps(1) obtain t where "l = Inr t" "from_json t = Inr r" by (auto simp: reads_as_def)
  with Cons.IH Cons.prems show ?case by (cases r) (auto simp: Let_def simp del: try_then_eq_Inr)
qed simp

lemma replay_eq_Inr:
  "replay open_lines from_json to_key pd path = Inr res \<longleftrightarrow>
   res \<noteq> [] \<and> (\<exists>ls. open_lines path = Inr ls \<and> replay_loop from_json to_key pd ls {} [] = Inr res)"
  by (auto simp: replay_def)

lemma replay_valid:
  assumes "replay open_lines from_json to_key pd path = Inr res"
  shows "list_all (\<lambda>s. validate pd s = Inr ()) res"
proof -
  from assms obtain ls where "replay_loop from_json to_key pd ls {} [] = Inr res" by (auto simp: replay_eq_Inr)
  from replay_loop_result [OF this keyed_Nil] show ?thesis by (auto simp: list_all_iff)
qed

text \<open>What a recorded trace reads as.\<close>

lemma recorded_reads_as:
  assumes "list_all2 (\<lambda>r l. to_json r = Inr l) rs ls"
    and "\<And>r l. r \<in> set rs \<Longrightarrow> to_json r = Inr l \<Longrightarrow> line_ok l \<and> from_json l = Inr r"
  shows "list_all2 (reads_as from_json) (file_lines (as_lines ls)) rs"
proof -
  have "list_all line_ok ls \<and> list_all2 (reads_as from_json) (map Inr ls) rs"
    using assms by (induction rs ls rule: list_all2_induct) (auto simp: reads_as_def)
  then show ?thesis by (simp add: file_lines_as_lines)
qed

lemma reads_as_unique:
  "list_all2 (reads_as from_json) ls rs \<Longrightarrow> list_all2 (reads_as from_json) ls rs' \<Longrightarrow> rs' = rs"
proof (induction ls rs arbitrary: rs' rule: list_all2_induct)
  case (Cons l ls r rs)
  from Cons.prems obtain r' rs'' where
    rs': "rs' = r' # rs''" "reads_as from_json l r'" "list_all2 (reads_as from_json) ls rs''"
    by (auto simp: list_all2_Cons1)
  moreover from Cons.hyps(1) rs'(2) have "r' = r" by (auto simp: reads_as_def)
  ultimately show ?case using Cons.IH by simp
qed simp

text \<open>A fresh matcher whose occurrence is 1 fires at the first event it counts.\<close>

lemma feed_first:
  assumes "occurrence_of s = 1" and "i < length es"
  shows "fst (feed observe (Matcher_new s) es) ! i \<longleftrightarrow>
    counted s (es ! i) \<and> (\<forall>j < i. \<not> counted s (es ! j))"
proof -
  have "fst (feed observe (Matcher_new s) es) ! i \<longleftrightarrow>
    counted s (es ! i) \<and> length (filter (counted s) (take i es @ [es ! i])) = 1"
    using feed_observe_nth [of "Matcher_new s" i es] assms
    by (simp add: Matcher_new_def take_Suc_conv_app_nth)
  also have "\<dots> \<longleftrightarrow> counted s (es ! i) \<and> filter (counted s) (take i es) = []" by auto
  also have "filter (counted s) (take i es) = [] \<longleftrightarrow> (\<forall>j < i. \<not> counted s (es ! j))"
    using assms(2) by (simp add: filter_empty_conv all_set_conv_all_nth)
  finally show ?thesis .
qed

text \<open>The replay of a fault of a valid scenario is valid.\<close>

lemma replay_scenario_valid:
  assumes "validate parse_duration s = Inr ()" and "counted s e" and "ev_row_index e \<noteq> Some 0"
  shows "validate parse_duration (replay_scenario e s) = Inr ()"
proof -
  from assms(2) have "ev_event e = when_event (sc_when s)" by (simp add: counted_def)
  with assms(1,3) show ?thesis
    by (auto simp: validate_def replay_scenario_def split: if_splits option.splits)
qed

lemma example_replay_valid:
  "validate (\<lambda>_. Inl (External ''no duration'')) (replay_scenario example_commit ambiguous_commit) = Inr ()"
  using replay_scenario_valid [OF ambiguous_commit_valid ambiguous_commit_counts] by (simp add: example_commit_def)

section \<open>Properties\<close>

text \<open>
  C20: a replayed fault happens again where it happened. If a scenario fired at position \<open>i\<close> of a
  session, the scenario \<^verbatim>\<open>replay\<close> makes of that fault fires, on a session with the same events, at an
  event of the same name, transaction, query cycle, statement, fingerprint and row only; and it fires
  at position \<open>i\<close> itself exactly when no earlier event of the session is counted by it, since the
  occurrence number is not kept.
\<close>

theorem replay_reproduces:
  assumes "fst (feed observe (Matcher_new s) es) ! i" and "i < length es" and "occurrence_of s \<noteq> 0"
  shows "(\<forall>k < length es. fst (feed observe (Matcher_new (replay_scenario (es ! i) s)) es) ! k \<longrightarrow>
      same_coordinates (es ! i) (es ! k)) \<and>
    (fst (feed observe (Matcher_new (replay_scenario (es ! i) s)) es) ! i \<longleftrightarrow>
      (\<forall>j < i. \<not> counted (replay_scenario (es ! i) s) (es ! j)))"
proof -
  let ?s = "replay_scenario (es ! i) s"
  have "counted s (es ! i)"
    using feed_observe_nth [of "Matcher_new s" i es] assms
    by (simp add: Matcher_new_def unat_gt_0)
  then have "counted ?s (es ! i)" by (rule replay_counts_itself)
  with feed_first [of ?s _ es] assms(2) replay_counts_coordinates show ?thesis by auto
qed

theorem replay_reproduces_witness:
  "fst (feed observe (Matcher_new (replay_scenario example_commit ambiguous_commit)) [example_commit]) ! 0"
proof -
  have "fst (feed observe (Matcher_new ambiguous_commit) [example_commit]) ! 0"
    by (subst feed_first) (simp_all add: ambiguous_commit_occurrence ambiguous_commit_counts)
  from replay_reproduces [OF this] show ?thesis by (simp add: ambiguous_commit_occurrence)
qed

text \<open>
  C33: what \<^verbatim>\<open>replay\<close> returns is never empty; every schedule is the replay of a fault of the trace and
  valid, no two have the same serialisation, and every fault of the trace is among them.
\<close>

theorem replay_schedules:
  assumes "replay open_lines from_json to_key parse_duration path = Inr res"
    and "open_lines path = Inr ls"
  shows "res \<noteq> [] \<and> (\<exists>rs. list_all2 (reads_as from_json) ls rs \<and>
    set res \<subseteq> set (replays rs) \<and> list_all (\<lambda>s. validate parse_duration s = Inr ()) res \<and>
    distinct (map to_key res) \<and> to_key ` set (replays rs) = to_key ` set res)"
proof -
  from assms have "res \<noteq> []" and "replay_loop from_json to_key parse_duration ls {} [] = Inr res"
    by (auto simp: replay_eq_Inr)
  from replay_loop_result [OF this(2) keyed_Nil] obtain rs where
    rs: "list_all2 (reads_as from_json) ls rs" "list_all (\<lambda>s. validate parse_duration s = Inr ()) (replays rs)"
      "distinct (map to_key res)" "set res \<subseteq> set (replays rs)" "to_key ` set (replays rs) \<subseteq> to_key ` set res"
    by auto
  then have "list_all (\<lambda>s. validate parse_duration s = Inr ()) res" by (auto simp: list_all_iff)
  moreover have "to_key ` set (replays rs) = to_key ` set res" using rs(4,5) by blast
  ultimately show ?thesis using rs \<open>res \<noteq> []\<close> by blast
qed

text \<open>
  A serialisation for examples: a record is written as the word \<^verbatim>\<open>fault\<close>, which reads back as the fault
  of the shipped scenario, or as \<^verbatim>\<open>other\<close>.
\<close>

definition example_to_json :: "Record \<Rightarrow> err + string" where
  "example_to_json r =
     Inr (if r = Fault example_commit ambiguous_commit then ''fault'' else ''other'')"

definition example_from_json :: "string \<Rightarrow> err + Record" where
  "example_from_json l =
     (if l = ''fault'' then Inr (Fault example_commit ambiguous_commit)
      else Inr (Lifecycle 1 ''startup'' []))"

definition example_trace :: "Record list" where
  "example_trace = [Lifecycle 1 ''startup'' [], Fault example_commit ambiguous_commit]"

theorem replay_schedules_witness:
  "replay (\<lambda>_. Inr [Inr ''fault'', Inr ''fault'']) example_from_json (\<lambda>s. Inr (sc_name s))
     (\<lambda>_. Inl (External ''no duration'')) ''t'' = Inr [replay_scenario example_commit ambiguous_commit] \<and>
   distinct (map (\<lambda>s. Inr (sc_name s) :: err + string) [replay_scenario example_commit ambiguous_commit])"
proof -
  have "replay (\<lambda>_. Inr [Inr ''fault'', Inr ''fault'']) example_from_json (\<lambda>s. Inr (sc_name s))
     (\<lambda>_. Inl (External ''no duration'')) ''t'' = Inr [replay_scenario example_commit ambiguous_commit]"
    by (simp add: replay_def example_from_json_def example_replay_valid Let_def)
  with replay_schedules [OF this refl] show ?thesis by blast
qed

text \<open>
  C21: a recorded trace can be replayed. If all records were written to a fresh file and every record
  is serialised on one line of UTF-8 that parses back to it, then the file's lines replay to schedules
  with exactly the serialisations of the replayed faults among the records, provided there is a fault
  and each replayed scenario is valid and serialisable.
\<close>

theorem recorded_trace_replays:
  assumes "record_all to_json rs \<lparr>written = [], room = space\<rparr> = (Inr (), file)"
    and "\<And>r l. r \<in> set rs \<Longrightarrow> to_json r = Inr l \<Longrightarrow> line_ok l \<and> from_json l = Inr r"
    and "list_all (\<lambda>s. validate parse_duration s = Inr () \<and> (\<exists>k. to_key s = Inr k)) (replays rs)"
    and "replays rs \<noteq> []"
  shows "\<exists>res. replay (\<lambda>_. Inr (file_lines (written file))) from_json to_key parse_duration path = Inr res \<and>
    to_key ` set res = to_key ` set (replays rs)"
proof -
  from record_all_Inr [OF assms(1)] obtain ls where
    ls: "list_all2 (\<lambda>r l. to_json r = Inr l) rs ls" "written file = as_lines ls" by auto
  note reads = recorded_reads_as [OF ls(1) assms(2), unfolded ls(2) [symmetric]]
  obtain res where res: "replay_loop from_json to_key parse_duration (file_lines (written file)) {} [] = Inr res"
    using replay_loop_complete [OF reads assms(3)] by blast
  from replay_loop_result [OF res keyed_Nil] obtain rs' where
    "list_all2 (reads_as from_json) (file_lines (written file)) rs'"
    and sub: "set res \<subseteq> set (replays rs')" "to_key ` set (replays rs') \<subseteq> to_key ` set res" by auto
  with reads_as_unique [OF reads] have "rs' = rs" by blast
  with sub assms(4) have "res \<noteq> []" "to_key ` set res = to_key ` set (replays rs)" by auto
  with res show ?thesis by (auto simp: replay_eq_Inr)
qed

theorem recorded_trace_replays_witness:
  "\<exists>res. replay (\<lambda>_. Inr (file_lines (as_lines [''other'', ''fault'']))) example_from_json
     (\<lambda>s. Inr (sc_name s)) (\<lambda>_. Inl (External ''no duration'')) ''t'' = Inr res"
proof -
  have "record_all example_to_json example_trace \<lparr>written = [], room = Some 100\<rparr> =
    (Inr (), \<lparr>written = as_lines [''other'', ''fault''], room = Some 88\<rparr>)"
    by (simp add: example_trace_def example_to_json_def record_line_def write_all_def and_then_def)
  moreover have "line_ok l \<and> example_from_json l = Inr r"
    if "r \<in> set example_trace" "example_to_json r = Inr l" for r l
    using that
    by (auto simp: example_trace_def example_to_json_def example_from_json_def line_ok_def strip_cr_def is_ascii_def)
  moreover have "list_all (\<lambda>s. validate (\<lambda>_. Inl (External ''no duration'')) s = Inr () \<and>
      (\<exists>k. (Inr (sc_name s) :: err + string) = Inr k)) (replays example_trace)"
    by (simp add: example_trace_def example_replay_valid)
  moreover have "replays example_trace \<noteq> []" by (simp add: example_trace_def)
  ultimately show ?thesis
    using recorded_trace_replays [of example_to_json example_trace "Some 100" _ example_from_json
        "\<lambda>_. Inl (External ''no duration'')" "\<lambda>s. Inr (sc_name s)" "''t''"] by fastforce
qed

end
