(* ===== verification/Tls_Stream.thy ===== *)
theory Tls_Stream
  imports Wire
begin

text \<open>
  The module \<^verbatim>\<open>tls\<close> of the proxy (\<^verbatim>\<open>crates/pgfault-proxy/src/tls.rs\<close>): the connection to a peer, plain or
  wrapped in TLS, and the TLS configuration. The handshakes of \<^verbatim>\<open>rustls\<close>, its certificate checks and
  the PEM reader are parameters.

  A channel is the writing side of a connection: a byte sink, whether it has been shut down, and the
  error a shutdown will meet, if any. A TCP socket is a channel with its linger option and the errors
  its options will meet. A TLS stream is the encrypted channel together with the socket under it,
  which the raw descriptor of the source names.
\<close>

section \<open>Streams\<close>

record Chan =
  ch_out :: Sink
  ch_shut :: bool
  ch_shut_err :: "err option"

record TcpStream =
  tcp_chan :: Chan
  tcp_linger_zero :: bool
  tcp_linger_err :: "err option"
  tcp_nodelay_err :: "err option"

datatype Stream = Plain TcpStream | Tls Chan TcpStream

definition Stream_plain :: "TcpStream \<Rightarrow> Stream" where
  "Stream_plain t = Plain t"

text \<open>The socket the descriptor of a stream names.\<close>

fun fd :: "Stream \<Rightarrow> TcpStream" where
  "fd (Plain t) = t"
| "fd (Tls c t) = t"

fun with_fd :: "TcpStream \<Rightarrow> Stream \<Rightarrow> Stream" where
  "with_fd t (Plain _) = Plain t"
| "with_fd t (Tls c _) = Tls c t"

definition set_linger_zero :: "(TcpStream, unit) io" where
  "set_linger_zero t =
     (case tcp_linger_err t of
        Some e \<Rightarrow> (Inl e, t)
      | None \<Rightarrow> (Inr (), t\<lparr>tcp_linger_zero := True\<rparr>))"

definition reset :: "(Stream, unit) io" where
  "reset = on_part fd with_fd set_linger_zero"

definition into_plain :: "Stream \<Rightarrow> err + TcpStream" where
  "into_plain s =
     (case s of
        Plain t \<Rightarrow> Inr t
      | Tls _ _ \<Rightarrow> Inl (Panic ''SSLRequest after TLS already established''))"

text \<open>The channel that the writes and shutdowns of a stream go to. What a stream reads is given separately.\<close>

fun chan :: "Stream \<Rightarrow> Chan" where
  "chan (Plain t) = tcp_chan t"
| "chan (Tls c t) = c"

fun with_chan :: "Chan \<Rightarrow> Stream \<Rightarrow> Stream" where
  "with_chan c (Plain t) = Plain (t\<lparr>tcp_chan := c\<rparr>)"
| "with_chan c (Tls _ t) = Tls c t"

definition chan_shutdown :: "(Chan, unit) io" where
  "chan_shutdown c =
     (case ch_shut_err c of
        Some e \<Rightarrow> (Inl e, c)
      | None \<Rightarrow> (Inr (), c\<lparr>ch_shut := True\<rparr>))"

definition stream_write_all :: "string \<Rightarrow> (Stream, unit) io" where
  "stream_write_all bs = on_part chan with_chan (on_part ch_out (\<lambda>k c. c\<lparr>ch_out := k\<rparr>) (write_all bs))"

definition stream_shutdown :: "(Stream, unit) io" where
  "stream_shutdown = on_part chan with_chan chan_shutdown"

definition set_nodelay :: "TcpStream \<Rightarrow> err + unit" where
  "set_nodelay t = (case tcp_nodelay_err t of None \<Rightarrow> Inr () | Some e \<Rightarrow> Inl e)"

section \<open>Configuration\<close>

text \<open>
  Certificates, keys and trust anchors are their encodings. An acceptor holds the certificate chain
  and the key it was built from; a connector either verifies the server against its trust anchors or
  does not verify it at all.
\<close>

datatype TlsAcceptor = TlsAcceptor "string list" string

datatype Verifier = NoVerify | WebPki "string list"

datatype TlsConnector = TlsConnector Verifier

record TlsConfig =
  tls_frontend :: "TlsAcceptor option"
  tls_upstream :: "TlsConnector option"

definition TlsConfig_default :: TlsConfig where
  "TlsConfig_default = \<lparr>tls_frontend = None, tls_upstream = None\<rparr>"

text \<open>
  The process has one default crypto provider, \<open>None\<close> until one is installed. \<open>install_default\<close> stands for
  the call of \<^verbatim>\<open>rustls\<close> that installs one and says whether it did; \<^verbatim>\<open>ensure_crypto_provider\<close> drops the
  answer. \<open>pem_certs\<close> and \<open>pem_key\<close> stand for \<^verbatim>\<open>rustls_pemfile::certs\<close> and \<^verbatim>\<open>rustls_pemfile::private_key\<close>,
  \<open>single_cert\<close> for the check of \<^verbatim>\<open>with_single_cert\<close>, \<open>add_root\<close> for \<^verbatim>\<open>RootCertStore::add\<close> and
  \<open>default_roots\<close> for \<^verbatim>\<open>webpki_roots::TLS_SERVER_ROOTS\<close>.
\<close>

type_synonym Crypto = "string option"

definition ensure_crypto_provider :: "(Crypto \<Rightarrow> bool \<times> Crypto) \<Rightarrow> Crypto \<Rightarrow> Crypto" where
  "ensure_crypto_provider install_default p = snd (install_default p)"

definition load_certs ::
  "(string \<Rightarrow> err + string) \<Rightarrow> (string \<Rightarrow> (err + string) list) \<Rightarrow> string \<Rightarrow> err + string list" where
  "load_certs read_file pem_certs path =
     try_then (read_file path) (\<lambda>data. collect_results (pem_certs data))"

definition load_key ::
  "(string \<Rightarrow> err + string) \<Rightarrow> (string \<Rightarrow> err + string option) \<Rightarrow> string \<Rightarrow> err + string" where
  "load_key read_file pem_key path =
     try_then (read_file path) (\<lambda>data.
     try_then (pem_key data) (\<lambda>k.
       case k of None \<Rightarrow> Inl (Bail ''no private key found'') | Some key \<Rightarrow> Inr key))"

definition frontend_acceptor ::
  "(Crypto \<Rightarrow> bool \<times> Crypto) \<Rightarrow> (string \<Rightarrow> err + string) \<Rightarrow> (string \<Rightarrow> (err + string) list) \<Rightarrow>
   (string \<Rightarrow> err + string option) \<Rightarrow> (string list \<Rightarrow> string \<Rightarrow> err + unit) \<Rightarrow> string \<Rightarrow> string \<Rightarrow>
   (Crypto, TlsAcceptor) io" where
  "frontend_acceptor install_default read_file pem_certs pem_key single_cert cert key p =
     (try_then (load_certs read_file pem_certs cert) (\<lambda>certs.
      try_then (load_key read_file pem_key key) (\<lambda>k.
      try_then (single_cert certs k) (\<lambda>_. Inr (TlsAcceptor certs k)))),
      ensure_crypto_provider install_default p)"

fun add_roots :: "(string \<Rightarrow> err + string) \<Rightarrow> string list \<Rightarrow> string list \<Rightarrow> err + string list" where
  "add_roots add_root roots [] = Inr roots"
| "add_roots add_root roots (c # cs) =
     try_then (add_root c) (\<lambda>r. add_roots add_root (roots @ [r]) cs)"

definition upstream_connector ::
  "(Crypto \<Rightarrow> bool \<times> Crypto) \<Rightarrow> (string \<Rightarrow> err + string) \<Rightarrow> (string \<Rightarrow> (err + string) list) \<Rightarrow>
   (string \<Rightarrow> err + string) \<Rightarrow> string list \<Rightarrow> bool \<Rightarrow> string option \<Rightarrow> (Crypto, TlsConnector) io" where
  "upstream_connector install_default read_file pem_certs add_root default_roots insecure extra_ca p =
     (if insecure then Inr (TlsConnector NoVerify)
      else try_then
        (case extra_ca of
           None \<Rightarrow> Inr default_roots
         | Some ca \<Rightarrow>
             try_then (load_certs read_file pem_certs ca) (\<lambda>certs. add_roots add_root default_roots certs))
        (\<lambda>roots. Inr (TlsConnector (WebPki roots))),
      ensure_crypto_provider install_default p)"

text \<open>
  \<^verbatim>\<open>NoVerify\<close>, the verifier of an insecure connector, accepts every certificate and every signature. The
  checks of the other one are those of \<^verbatim>\<open>rustls\<close>.
\<close>

definition verify_server_cert :: "string \<Rightarrow> string list \<Rightarrow> string \<Rightarrow> string \<Rightarrow> nat \<Rightarrow> err + unit" where
  "verify_server_cert end_entity intermediates name ocsp_response now = Inr ()"

definition verify_tls12_signature :: "string \<Rightarrow> string \<Rightarrow> string \<Rightarrow> err + unit" where
  "verify_tls12_signature message cert dss = Inr ()"

definition verify_tls13_signature :: "string \<Rightarrow> string \<Rightarrow> string \<Rightarrow> err + unit" where
  "verify_tls13_signature message cert dss = Inr ()"

definition server_name :: "(string \<Rightarrow> string option) \<Rightarrow> string \<Rightarrow> err + string" where
  "server_name parse_name host =
     (case parse_name host of
        None \<Rightarrow> Inl (Bail ''invalid upstream host for TLS SNI'')
      | Some n \<Rightarrow> Inr n)"

text \<open>
  The handshakes: \<open>handshake\<close> stands for \<^verbatim>\<open>TlsAcceptor::accept\<close> and \<^verbatim>\<open>TlsConnector::connect\<close>. Given the
  socket and the bytes that are still to be read from it, it returns the encrypted channel, the
  socket under it and the bytes the peer sends through the channel.
\<close>

definition accept ::
  "(TlsAcceptor \<Rightarrow> TcpStream \<Rightarrow> string \<Rightarrow> err + Chan \<times> TcpStream \<times> string) \<Rightarrow>
   TcpStream \<Rightarrow> string \<Rightarrow> TlsAcceptor \<Rightarrow> err + Stream \<times> string" where
  "accept handshake tcp raw_in acceptor =
     try_then (handshake acceptor tcp raw_in) (\<lambda>(c, t, input). Inr (Tls c t, input))"

definition connect ::
  "(TlsConnector \<Rightarrow> string \<Rightarrow> TcpStream \<Rightarrow> err + Chan \<times> TcpStream) \<Rightarrow>
   TcpStream \<Rightarrow> TlsConnector \<Rightarrow> string \<Rightarrow> err + Stream" where
  "connect handshake tcp connector name =
     try_then (handshake connector name tcp) (\<lambda>(c, t). Inr (Tls c t))"

section \<open>What a stream keeps\<close>

declare stream_write_all_def [stream_defs] stream_shutdown_def [stream_defs] reset_def [stream_defs]
  on_part_def [stream_defs] chan_shutdown_def [stream_defs] set_linger_zero_def [stream_defs]

text \<open>The bytes written to the peer, and what the operations leave unchanged.\<close>

definition delivered :: "Stream \<Rightarrow> string" where
  "delivered s = written (ch_out (chan s))"

lemma chan_with_chan [simp]: "chan (with_chan c s) = c" "fd (with_fd t s) = t"
  by (cases s; simp)+

lemma linger_with_chan [simp]: "tcp_linger_zero (fd (with_chan c s)) = tcp_linger_zero (fd s)"
  by (cases s) simp_all

lemma chan_reset [simp]: "chan (snd (reset s)) = chan s"
  by (cases s) (simp_all add: reset_def on_part_def set_linger_zero_def split: option.split prod.split)

lemma delivered_reset [simp]: "delivered (snd (reset s)) = delivered s"
  by (simp add: delivered_def)

lemma reset_Inr: "reset s = (Inr u, s') \<Longrightarrow> tcp_linger_zero (fd s')"
  by (auto simp: reset_def on_part_def set_linger_zero_def split: option.splits prod.splits)

lemma stream_write_all_Inr: "stream_write_all bs s = (Inr u, s') \<Longrightarrow> delivered s' = delivered s @ bs"
  by (auto simp: stream_write_all_def on_part_def delivered_def dest: write_all_Inr split: prod.splits)

lemma stream_write_all_prefix: "\<exists>n. delivered (snd (stream_write_all bs s)) = delivered s @ take n bs"
  using write_all_prefix [of bs "ch_out (chan s)"]
  by (cases "write_all bs (ch_out (chan s))") (simp add: stream_write_all_def on_part_def delivered_def)

lemma delivered_shutdown [simp]: "delivered (snd (stream_shutdown s)) = delivered s"
  by (simp add: stream_shutdown_def on_part_def chan_shutdown_def delivered_def split: option.split)

lemma linger_write [simp]:
  "tcp_linger_zero (fd (snd (stream_write_all bs s))) = tcp_linger_zero (fd s)"
  by (simp add: stream_write_all_def on_part_def split: prod.split)

lemma linger_shutdown [simp]:
  "tcp_linger_zero (fd (snd (stream_shutdown s))) = tcp_linger_zero (fd s)"
  by (simp add: stream_shutdown_def on_part_def split: prod.split)

text \<open>A stream none of whose operations fails.\<close>

definition healthy :: "Stream \<Rightarrow> bool" where
  "healthy s \<longleftrightarrow> room (ch_out (chan s)) = None \<and> ch_shut_err (chan s) = None \<and> tcp_linger_err (fd s) = None"

lemma healthy_ops:
  assumes "healthy s"
  shows "\<exists>s'. stream_write_all bs s = (Inr (), s') \<and> healthy s' \<and> delivered s' = delivered s @ bs \<and>
      tcp_linger_zero (fd s') = tcp_linger_zero (fd s)"
    and "\<exists>s'. reset s = (Inr (), s') \<and> healthy s' \<and> delivered s' = delivered s \<and> tcp_linger_zero (fd s')"
    and "\<exists>s'. stream_shutdown s = (Inr (), s') \<and> healthy s' \<and> delivered s' = delivered s \<and> ch_shut (chan s')"
  using assms
  by (cases s; simp add: healthy_def stream_defs delivered_def)+

section \<open>Verification of the server\<close>

lemma add_roots_Inr:
  "add_roots add_root roots cs = Inr rs \<longleftrightarrow>
   (\<exists>added. rs = roots @ added \<and> list_all2 (\<lambda>c r. add_root c = Inr r) cs added)"
proof (induction cs arbitrary: roots)
  case (Cons c cs)
  then show ?case by (auto simp: list_all2_Cons1)
qed auto

text \<open>
  The server's certificate is checked unless the operator asked for the contrary. A connector that
  \<^verbatim>\<open>upstream_connector\<close> returns accepts every certificate only if \<^verbatim>\<open>insecure\<close> was given; otherwise it trusts
  exactly the built-in roots followed by all certificates of the extra CA file, if one was given, and
  a file that cannot be read or parsed is an error.
\<close>

lemma upstream_connector_verifies:
  "fst (upstream_connector install_default read_file pem_certs add_root default_roots insecure extra_ca p) =
     Inr (TlsConnector v) \<longleftrightarrow>
     (if insecure then v = NoVerify
      else \<exists>added. v = WebPki (default_roots @ added) \<and>
        (case extra_ca of
           None \<Rightarrow> added = []
         | Some ca \<Rightarrow> \<exists>data certs. read_file ca = Inr data \<and> pem_certs data = map Inr certs \<and>
             list_all2 (\<lambda>c r. add_root c = Inr r) certs added))"
  by (cases extra_ca) (auto simp: upstream_connector_def load_certs_def collect_results_Inr add_roots_Inr)

end
