(* ===== verification/Relay.thy ===== *)
theory Relay
  imports Conn_Inv Trace Tls_Stream
begin

text \<open>
  The relay of the proxy (\<^verbatim>\<open>crates/pgfault-proxy/src/lib.rs\<close>): \<^verbatim>\<open>apply\<close>, which records events, offers them
  to the matchers and carries out the actions of the scenarios that fire, and the two arms of the
  \<^verbatim>\<open>select!\<close> loop of \<^verbatim>\<open>connection\<close>, one per direction, with the completion gate and the truncation of
  results.

  An arm runs to its end before the loop polls again, so a run of the loop is a sequence of results of
  the two frame readers in the order in which they were taken. A reader that is not taken keeps its
  buffer (\<^verbatim>\<open>FrameReader::next\<close> may be cancelled while it waits).
\<close>

section \<open>Definitions\<close>

text \<open>
  What the relay uses of libraries: the digest of a statement, the serialisation of a record and the
  parser of durations (in nanoseconds).
\<close>

record Env =
  env_sha :: "string \<Rightarrow> string"
  env_to_json :: "Record \<Rightarrow> err + string"
  env_parse_duration :: "string \<Rightarrow> err + nat"

text \<open>What \<^verbatim>\<open>apply\<close> borrows, and the clock that its delays advance.\<close>

record Net =
  n_trace :: Recorder
  n_frontend :: Stream
  n_upstream :: Stream
  n_truncate :: "u64 option"
  n_matchers :: "Matcher list"
  n_clock :: nat

abbreviation on_trace :: "(Recorder, 'a) io \<Rightarrow> (Net, 'a) io" where
  "on_trace \<equiv> on_part n_trace (\<lambda>t n. n\<lparr>n_trace := t\<rparr>)"

abbreviation on_frontend :: "(Stream, 'a) io \<Rightarrow> (Net, 'a) io" where
  "on_frontend \<equiv> on_part n_frontend (\<lambda>t n. n\<lparr>n_frontend := t\<rparr>)"

abbreviation on_upstream :: "(Stream, 'a) io \<Rightarrow> (Net, 'a) io" where
  "on_upstream \<equiv> on_part n_upstream (\<lambda>t n. n\<lparr>n_upstream := t\<rparr>)"

record Disposition =
  d_suppress :: bool
  d_disconnect :: bool

definition Disposition_default :: Disposition where
  "Disposition_default = \<lparr>d_suppress = False, d_disconnect = False\<rparr>"

definition humantime_duration :: "Env \<Rightarrow> string \<Rightarrow> err + nat" where
  "humantime_duration env s = env_parse_duration env s"

definition delay_for :: "Env \<Rightarrow> Delay option \<Rightarrow> (Net, unit) io" where
  "delay_for env d n =
     (case d of
        None \<Rightarrow> (Inr (), n)
      | Some x \<Rightarrow>
          (case humantime_duration env (del_duration x) of
             Inl e \<Rightarrow> (Inl e, n)
           | Inr t \<Rightarrow> (Inr (), n\<lparr>n_clock := n_clock n + t\<rparr>)))"

definition suppresses :: "Action \<Rightarrow> bool" where
  "suppresses a \<longleftrightarrow> (case act_suppress a of None \<Rightarrow> False | Some s \<Rightarrow> sup_current s)"

definition set_truncate :: "Truncate option \<Rightarrow> Net \<Rightarrow> Net" where
  "set_truncate t n = (case t of None \<Rightarrow> n | Some x \<Rightarrow> n\<lparr>n_truncate := Some (tr_after_rows x)\<rparr>)"

definition disconnect :: "Disconnect \<Rightarrow> (Net, unit) io" where
  "disconnect dc =
     (let act = (case dis_mode dc of Reset \<Rightarrow> reset | Close \<Rightarrow> stream_shutdown)
      in case dis_side dc of Frontend \<Rightarrow> on_frontend act | Upstream \<Rightarrow> on_upstream act)"

text \<open>A scenario that fires: the fault is recorded, then its actions are carried out in this order.\<close>

definition fire :: "Env \<Rightarrow> Event \<Rightarrow> Scenario \<Rightarrow> Disposition \<Rightarrow> (Net, Disposition) io" where
  "fire env e s d =
     and_then (on_trace (record_line (env_to_json env) (Fault e s))) (\<lambda>_.
     and_then (delay_for env (act_delay (sc_action s))) (\<lambda>_ n.
       let d1 = (if suppresses (sc_action s) then d\<lparr>d_suppress := True\<rparr> else d);
           n1 = set_truncate (act_truncate_result (sc_action s)) n
       in case act_disconnect (sc_action s) of
            None \<Rightarrow> (Inr d1, n1)
          | Some dc \<Rightarrow> and_then (disconnect dc) (\<lambda>_. io_return (d1\<lparr>d_disconnect := True\<rparr>)) n1))"

text \<open>The inner loop of \<^verbatim>\<open>apply\<close>: an event is shown to the matchers in turn.\<close>

fun offer ::
  "Env \<Rightarrow> Event \<Rightarrow> Matcher list \<Rightarrow> Disposition \<Rightarrow> Net \<Rightarrow> (err + Disposition) \<times> Matcher list \<times> Net" where
  "offer env e [] d n = (Inr d, [], n)"
| "offer env e (m # ms) d n =
     (case observe m e of (fired, m') \<Rightarrow>
        (case (if fired then fire env e (m_scenario m') d n else (Inr d, n)) of
           (Inl x, n') \<Rightarrow> (Inl x, m' # ms, n')
         | (Inr d', n') \<Rightarrow>
             (case offer env e ms d' n' of (r, ms', n'') \<Rightarrow> (r, m' # ms', n''))))"

definition apply_event :: "Env \<Rightarrow> Event \<Rightarrow> Disposition \<Rightarrow> (Net, Disposition) io" where
  "apply_event env e d =
     and_then (on_trace (record_event (env_to_json env) e)) (\<lambda>_ n.
       case offer env e (n_matchers n) d n of (r, ms, n') \<Rightarrow> (r, n'\<lparr>n_matchers := ms\<rparr>))"

fun apply_loop :: "Env \<Rightarrow> Event list \<Rightarrow> Disposition \<Rightarrow> (Net, Disposition) io" where
  "apply_loop env [] d n = (Inr d, n)"
| "apply_loop env (e # es) d n = and_then (apply_event env e d) (apply_loop env es) n"

definition apply_events :: "Env \<Rightarrow> Event list \<Rightarrow> (Net, Disposition) io" where
  "apply_events env es = apply_loop env es Disposition_default"

text \<open>The state of the loop.\<close>

record Relay =
  r_id :: u64
  r_state :: ConnectionState
  r_net :: Net
  r_held :: "string list"
  r_held_size :: nat

abbreviation on_net :: "(Net, 'a) io \<Rightarrow> (Relay, 'a) io" where
  "on_net \<equiv> on_part r_net (\<lambda>n r. r\<lparr>r_net := n\<rparr>)"

text \<open>A call of the observer whose events go to \<^verbatim>\<open>apply\<close>.\<close>

definition observing :: "Env \<Rightarrow> input \<Rightarrow> (Relay, Disposition) io" where
  "observing env i r =
     (case cs_step (env_sha env) i (r_state r) of (es, s) \<Rightarrow>
        on_net (apply_events env es) (r\<lparr>r_state := s\<rparr>))"

text \<open>
  The arm of the client. The result is whether the loop goes on; \<^verbatim>\<open>return Ok(())\<close> is \<open>False\<close>.
\<close>

definition forward :: "Env \<Rightarrow> Frame \<Rightarrow> (Relay, bool) io" where
  "forward env f =
     and_then (on_net (on_upstream (stream_write_all (raw f)))) (\<lambda>_.
       if tag f = CHR ''Q'' \<or> tag f = CHR ''E''
       then and_then (observing env Forwarded) (\<lambda>d. io_return (\<not> d_disconnect d))
       else io_return True)"

definition client_frame :: "Env \<Rightarrow> Frame \<Rightarrow> (Relay, bool) io" where
  "client_frame env f =
     and_then (observing env (FromClient f)) (\<lambda>d.
       if d_disconnect d then io_return False
       else and_then (if d_suppress d then io_return True else forward env f) (\<lambda>go.
         io_return (go \<and> tag f \<noteq> CHR ''X'')))"

definition on_client :: "Env \<Rightarrow> err + Frame option \<Rightarrow> (Relay, bool) io" where
  "on_client env res =
     (case res of
        Inl e \<Rightarrow> (\<lambda>r. (Inl e, r))
      | Inr None \<Rightarrow> and_then (on_net (on_upstream stream_shutdown)) (\<lambda>_. io_return False)
      | Inr (Some f) \<Rightarrow> client_frame env f)"

text \<open>The arm of the server.\<close>

definition gate :: "Frame \<Rightarrow> Relay \<Rightarrow> bool" where
  "gate f r \<longleftrightarrow>
     (case completion_boundary f (r_state r) of
        None \<Rightarrow> False
      | Some b \<Rightarrow> list_ex (\<lambda>m. needs_gate m b) (n_matchers (r_net r)))"

definition take_row :: "Frame \<Rightarrow> Net \<Rightarrow> bool \<times> Net" where
  "take_row f n =
     (if tag f = CHR ''D'' then
        (case n_truncate n of
           None \<Rightarrow> (False, n)
         | Some left \<Rightarrow>
             if left = 0 then (True, n) else (False, n\<lparr>n_truncate := Some (left - 1)\<rparr>))
      else (False, n))"

definition cut_result :: "Env \<Rightarrow> (Relay, bool) io" where
  "cut_result env r =
     and_then (on_net (on_frontend reset)) (\<lambda>_.
     and_then (on_net (on_trace (lifecycle (env_to_json env) (r_id r) ''result.truncated'' []))) (\<lambda>_.
       io_return False)) r"

fun write_each :: "string list \<Rightarrow> (Stream, unit) io" where
  "write_each [] s = (Inr (), s)"
| "write_each (b # bs) s = and_then (stream_write_all b) (\<lambda>_. write_each bs) s"

definition deliver_ready :: "Frame \<Rightarrow> bool \<Rightarrow> (Relay, unit) io" where
  "deliver_ready f suppress r =
     and_then
       (if suppress then io_return ()
        else on_net (on_frontend (and_then (write_each (r_held r)) (\<lambda>_. stream_write_all (raw f)))))
       (\<lambda>_ r'. (Inr (), r'\<lparr>r_held_size := 0, r_net := (r_net r')\<lparr>n_truncate := None\<rparr>\<rparr>))
       (r\<lparr>r_held := []\<rparr>)"

definition deliver_other :: "Frame \<Rightarrow> bool \<Rightarrow> bool \<Rightarrow> (Relay, unit) io" where
  "deliver_other f gated suppress r =
     (if suppress then (Inr (), r)
      else if gated \<or> r_held r \<noteq> [] then
        let r1 = r\<lparr>r_held_size := r_held_size r + length (raw f)\<rparr> in
        if r_held_size r1 > 1024 * 1024
        then (Inl (Bail ''completion gate exceeded 1 MiB; unsupported pipelined completion''), r1)
        else (Inr (), r1\<lparr>r_held := r_held r @ [raw f]\<rparr>)
      else on_net (on_frontend (stream_write_all (raw f))) r)"

definition deliver :: "Frame \<Rightarrow> bool \<Rightarrow> bool \<Rightarrow> (Relay, unit) io" where
  "deliver f gated suppress =
     (if tag f = CHR ''Z'' then deliver_ready f suppress else deliver_other f gated suppress)"

definition server_frame :: "Env \<Rightarrow> Frame \<Rightarrow> (Relay, bool) io" where
  "server_frame env f r =
     (let gated = gate f r in
      and_then (observing env (FromServer f)) (\<lambda>d r1.
        if d_disconnect d then (Inr False, r1)
        else case take_row f (r_net r1) of (ended, n) \<Rightarrow>
          if ended then cut_result env (r1\<lparr>r_net := n\<rparr>)
          else and_then (deliver f gated (d_suppress d)) (\<lambda>_ r2.
            if tag f = CHR ''D'' \<and> n_truncate (r_net r2) = Some 0 then cut_result env r2
            else (Inr True, r2)) (r1\<lparr>r_net := n\<rparr>)) r)"

definition on_server :: "Env \<Rightarrow> err + Frame option \<Rightarrow> (Relay, bool) io" where
  "on_server env res =
     (case res of
        Inl e \<Rightarrow> (\<lambda>r. (Inl e, r))
      | Inr None \<Rightarrow> and_then (on_net (on_frontend stream_shutdown)) (\<lambda>_. io_return False)
      | Inr (Some f) \<Rightarrow> server_frame env f)"

text \<open>
  The loop over the results of the readers. \<open>None\<close> says that it still waits, \<open>Some\<close> is what
  \<^verbatim>\<open>connection\<close> returns; the results after that are not read any more.
\<close>

datatype arrival = ClientNext "err + Frame option" | ServerNext "err + Frame option"

definition relay_step :: "Env \<Rightarrow> arrival \<Rightarrow> (Relay, bool) io" where
  "relay_step env a =
     (case a of ClientNext res \<Rightarrow> on_client env res | ServerNext res \<Rightarrow> on_server env res)"

fun relay :: "Env \<Rightarrow> arrival list \<Rightarrow> Relay \<Rightarrow> (err + unit) option \<times> Relay" where
  "relay env [] r = (None, r)"
| "relay env (a # as) r =
     (case relay_step env a r of
        (Inl e, r') \<Rightarrow> (Some (Inl e), r')
      | (Inr go, r') \<Rightarrow> if go then relay env as r' else (Some (Inr ()), r'))"

section \<open>The matchers as a group\<close>

text \<open>What becomes of the matchers when they are shown an event, and the scenarios that fire on it.\<close>

definition offered :: "Event \<Rightarrow> Matcher list \<Rightarrow> Matcher list" where
  "offered e ms = map (\<lambda>m. snd (observe m e)) ms"

definition firing :: "Event \<Rightarrow> Matcher list \<Rightarrow> Scenario list" where
  "firing e ms = map m_scenario (filter (\<lambda>m. fst (observe m e)) ms)"

fun fire_all :: "Env \<Rightarrow> Event \<Rightarrow> Scenario list \<Rightarrow> Disposition \<Rightarrow> (Net, Disposition) io" where
  "fire_all env e [] d n = (Inr d, n)"
| "fire_all env e (s # ss) d n = and_then (fire env e s d) (fire_all env e ss) n"

lemma offer_fires:
  "offer env e ms d n = (r, ms', n') \<Longrightarrow>
   fire_all env e (firing e ms) d n = (r, n') \<and> (\<forall>x. r = Inr x \<longrightarrow> ms' = offered e ms)"
proof (induction ms arbitrary: d n ms')
  case Nil
  then show ?case by (auto simp: offered_def firing_def)
next
  case (Cons m ms)
  obtain fired m' where ob: "observe m e = (fired, m')" by fastforce
  then have m': "m_scenario m' = m_scenario m" using observe_scenario [of m e] by simp
  obtain q n1 where f: "(if fired then fire env e (m_scenario m') d n else (Inr d, n)) = (q, n1)"
    by fastforce
  show ?case
  proof (cases q)
    case (Inl x)
    with Cons.prems ob f m' show ?thesis
      by (cases fired) (auto simp: firing_def)
  next
    case (Inr d1)
    then obtain ms1 where o: "offer env e ms d1 n1 = (r, ms1, n')" and ms': "ms' = m' # ms1"
      using Cons.prems ob f by (auto split: prod.splits)
    from Cons.IH [OF o] ob f m' Inr ms' show ?thesis
      by (cases fired) (auto simp: firing_def offered_def)
  qed
qed

lemma scenarios_offered [simp]: "map m_scenario (offered e ms) = map m_scenario ms"
  by (simp add: offered_def)

lemma length_offered [simp]: "length (offered e ms) = length ms"
  by (simp add: offered_def)

text \<open>The records of a sequence of events, and the matchers after it.\<close>

fun trace_records :: "Matcher list \<Rightarrow> Event list \<Rightarrow> Record list" where
  "trace_records ms [] = []"
| "trace_records ms (e # es) =
     Semantic e # map (Fault e) (firing e ms) @ trace_records (offered e ms) es"

definition offered_all :: "Event list \<Rightarrow> Matcher list \<Rightarrow> Matcher list" where
  "offered_all es ms = fold offered es ms"

lemma offered_all_simps [simp]:
  "offered_all [] ms = ms" "offered_all (e # es) ms = offered_all es (offered e ms)"
  "offered_all (es @ es') ms = offered_all es' (offered_all es ms)"
  by (simp_all add: offered_all_def)

lemma trace_records_append:
  "trace_records ms (es @ es') = trace_records ms es @ trace_records (offered_all es ms) es'"
  by (induction es arbitrary: ms) simp_all

lemma offered_all_feed: "offered_all es ms = map (\<lambda>m. snd (feed observe m es)) ms"
  by (induction es arbitrary: ms) (simp_all add: offered_def Let_def)

section \<open>What firing a scenario does\<close>

text \<open>The bytes given to both peers so far.\<close>

definition passed :: "Net \<Rightarrow> string \<times> string" where
  "passed n = (delivered (n_frontend n), delivered (n_upstream n))"

lemma passed_disconnect: "passed (snd (disconnect dc n)) = passed n"
  by (simp add: disconnect_def passed_def on_part_def split: Side.split Mode.split prod.split)
    (metis delivered_reset delivered_shutdown snd_conv)

lemma passed_delay [simp]: "passed (snd (delay_for env d n)) = passed n"
  by (simp add: delay_for_def passed_def split: option.split sum.split)

lemma passed_truncate [simp]: "passed (set_truncate t n) = passed n"
  by (simp add: set_truncate_def passed_def split: option.split)

lemma passed_trace [simp]: "passed (snd (on_trace m n)) = passed n"
  by (simp add: on_part_def passed_def split: prod.split)

lemma passed_fire [simp]: "passed (snd (fire env e s d n)) = passed n"
proof -
  have "passed (snd (and_then (disconnect dc) (\<lambda>_. io_return x) n)) = passed n" for dc and x :: Disposition and n
    by (rule and_then_keeps [where P = passed]) (simp_all add: passed_disconnect)
  then show ?thesis unfolding fire_def
    by (intro and_then_keeps [where P = passed]) (simp_all add: Let_def split: option.split)
qed

lemma passed_fire_all [simp]: "passed (snd (fire_all env e ss d n)) = passed n"
proof (induction ss arbitrary: d n)
  case (Cons s ss)
  show ?case
    by (simp only: fire_all.simps) (rule and_then_keeps [where P = passed], simp_all add: Cons.IH)
qed simp

text \<open>
  \<open>logs env rs n n'\<close>: between \<open>n\<close> and \<open>n'\<close> exactly the records \<open>rs\<close> were written to the trace and
  nothing to the peers.
\<close>

definition trace_lines :: "Env \<Rightarrow> Record list \<Rightarrow> string list \<Rightarrow> bool" where
  "trace_lines env = list_all2 (\<lambda>r l. env_to_json env r = Inr l)"

definition logs :: "Env \<Rightarrow> Record list \<Rightarrow> Net \<Rightarrow> Net \<Rightarrow> bool" where
  "logs env rs n n' \<longleftrightarrow>
     (\<exists>ls. trace_lines env rs ls \<and> written (n_trace n') = written (n_trace n) @ as_lines ls)"

lemma logs_refl [simp]: "n_trace n' = n_trace n \<Longrightarrow> logs env [] n n'"
  by (simp add: logs_def trace_lines_def)

lemma logs_trans: "logs env rs n n' \<Longrightarrow> logs env rs' n' n'' \<Longrightarrow> logs env (rs @ rs') n n''"
proof -
  assume "logs env rs n n'" "logs env rs' n' n''"
  then obtain ls ls' where "trace_lines env rs ls" "trace_lines env rs' ls'"
    "written (n_trace n') = written (n_trace n) @ as_lines ls"
    "written (n_trace n'') = written (n_trace n') @ as_lines ls'"
    by (auto simp: logs_def)
  then show ?thesis
    unfolding logs_def trace_lines_def by (intro exI [of _ "ls @ ls'"]) (simp add: list_all2_appendI)
qed

lemma logs_record:
  "on_trace (record_line (env_to_json env) r) n = (Inr u, n') \<Longrightarrow>
   logs env [r] n n' \<and> n' = n\<lparr>n_trace := n_trace n'\<rparr>"
  by (auto simp: on_part_def logs_def trace_lines_def list_all2_Cons1 split: prod.splits
      dest!: record_line_Inr)

lemma disconnect_Inr:
  assumes "disconnect dc n = (Inr u, n')"
  shows "n_trace n' = n_trace n" "n_matchers n' = n_matchers n" "n_truncate n' = n_truncate n"
    "n_clock n' = n_clock n"
    "tcp_linger_zero (fd (n_frontend n')) \<longleftrightarrow>
       tcp_linger_zero (fd (n_frontend n)) \<or> dc = \<lparr>dis_side = Frontend, dis_mode = Reset\<rparr>"
  using assms linger_shutdown [of "n_frontend n"]
  by (cases dc; auto simp: disconnect_def on_part_def split: Side.splits Mode.splits prod.splits
      dest: reset_Inr)+

text \<open>How long a scenario makes the connection wait, in nanoseconds.\<close>

definition delay_of :: "Env \<Rightarrow> Scenario \<Rightarrow> nat" where
  "delay_of env s =
     (case act_delay (sc_action s) of
        None \<Rightarrow> 0
      | Some d \<Rightarrow> (case humantime_duration env (del_duration d) of Inl _ \<Rightarrow> 0 | Inr t \<Rightarrow> t))"

definition total_delay :: "Env \<Rightarrow> Scenario list \<Rightarrow> nat" where
  "total_delay env ss = sum_list (map (delay_of env) ss)"

lemma total_delay_simps [simp]:
  "total_delay env [] = 0" "total_delay env [s] = delay_of env s"
  "total_delay env (ss @ ss') = total_delay env ss + total_delay env ss'"
  by (simp_all add: total_delay_def)

text \<open>What a scenario that fires without an error does.\<close>

lemma fire_Inr:
  assumes "fire env e s d n = (Inr d', n')"
  shows "logs env [Fault e s] n n'" "n_matchers n' = n_matchers n"
    "d' = \<lparr>d_suppress = d_suppress d \<or> suppresses (sc_action s),
           d_disconnect = d_disconnect d \<or> act_disconnect (sc_action s) \<noteq> None\<rparr>"
    "n_truncate n' = (case act_truncate_result (sc_action s) of
       None \<Rightarrow> n_truncate n | Some t \<Rightarrow> Some (tr_after_rows t))"
    "tcp_linger_zero (fd (n_frontend n')) \<longleftrightarrow> tcp_linger_zero (fd (n_frontend n)) \<or>
       act_disconnect (sc_action s) = Some \<lparr>dis_side = Frontend, dis_mode = Reset\<rparr>"
    "n_clock n' = n_clock n + delay_of env s"
proof -
  from assms obtain n1 n2 where rec: "on_trace (record_line (env_to_json env) (Fault e s)) n = (Inr (), n1)"
    and del: "delay_for env (act_delay (sc_action s)) n1 = (Inr (), n2)"
    and rest: "(let d1 = (if suppresses (sc_action s) then d\<lparr>d_suppress := True\<rparr> else d);
           n3 = set_truncate (act_truncate_result (sc_action s)) n2
       in case act_disconnect (sc_action s) of
            None \<Rightarrow> (Inr d1, n3)
          | Some dc \<Rightarrow> and_then (disconnect dc) (\<lambda>_. io_return (d1\<lparr>d_disconnect := True\<rparr>)) n3) = (Inr d', n')"
    by (auto simp: fire_def and_then_Inr)
  let ?t = "act_truncate_result (sc_action s)"
  note log = logs_record [OF rec]
  from del have n2: "n2 = n1\<lparr>n_clock := n_clock n2\<rparr>" and clock: "n_clock n2 = n_clock n1 + delay_of env s"
    by (auto simp: delay_for_def delay_of_def split: option.splits sum.splits)
  have clock1: "n_clock n1 = n_clock n" by (subst conjunct2 [OF log], simp)
  have n3: "n_trace (set_truncate ?t n2) = n_trace n1" "n_matchers (set_truncate ?t n2) = n_matchers n"
    "n_frontend (set_truncate ?t n2) = n_frontend n"
    "n_truncate (set_truncate ?t n2) = (case ?t of None \<Rightarrow> n_truncate n | Some t \<Rightarrow> Some (tr_after_rows t))"
    by (subst n2, subst conjunct2 [OF log], simp add: set_truncate_def split: option.split)+
  have n3_clock: "n_clock (set_truncate ?t n2) = n_clock n + delay_of env s"
    using clock clock1 by (simp add: set_truncate_def split: option.split)
  have d: "(if suppresses (sc_action s) then d\<lparr>d_suppress := True\<rparr> else d) =
      \<lparr>d_suppress = d_suppress d \<or> suppresses (sc_action s), d_disconnect = d_disconnect d\<rparr>"
    by (cases d) simp
  have fin: "n_trace n' = n_trace (set_truncate ?t n2) \<and> n_matchers n' = n_matchers (set_truncate ?t n2) \<and>
    n_truncate n' = n_truncate (set_truncate ?t n2) \<and> n_clock n' = n_clock (set_truncate ?t n2) \<and>
    d' = \<lparr>d_suppress = d_suppress d \<or> suppresses (sc_action s),
           d_disconnect = d_disconnect d \<or> act_disconnect (sc_action s) \<noteq> None\<rparr> \<and>
    (tcp_linger_zero (fd (n_frontend n')) \<longleftrightarrow> tcp_linger_zero (fd (n_frontend (set_truncate ?t n2))) \<or>
       act_disconnect (sc_action s) = Some \<lparr>dis_side = Frontend, dis_mode = Reset\<rparr>)"
    using rest unfolding d Let_def
    by (cases "act_disconnect (sc_action s)") (auto simp: and_then_Inr disconnect_Inr)
  from fin n3_clock show "n_clock n' = n_clock n + delay_of env s" by simp
  from fin n3 log show "logs env [Fault e s] n n'" by (simp add: logs_def)
  from fin n3 show "n_matchers n' = n_matchers n"
    "d' = \<lparr>d_suppress = d_suppress d \<or> suppresses (sc_action s),
           d_disconnect = d_disconnect d \<or> act_disconnect (sc_action s) \<noteq> None\<rparr>"
    "n_truncate n' = (case ?t of None \<Rightarrow> n_truncate n | Some t \<Rightarrow> Some (tr_after_rows t))"
    "tcp_linger_zero (fd (n_frontend n')) \<longleftrightarrow> tcp_linger_zero (fd (n_frontend n)) \<or>
       act_disconnect (sc_action s) = Some \<lparr>dis_side = Frontend, dis_mode = Reset\<rparr>"
    by simp_all
qed

text \<open>The scenarios that fire on a sequence of events.\<close>

fun firings :: "Event list \<Rightarrow> Matcher list \<Rightarrow> Scenario list" where
  "firings [] ms = []"
| "firings (e # es) ms = firing e ms @ firings es (offered e ms)"

text \<open>
  The summary of some fired scenarios: what they leave of the disposition, of the truncation counter,
  of the clock and of the linger option of the client's socket.
\<close>

definition disposed :: "Scenario list \<Rightarrow> Disposition \<Rightarrow> Disposition" where
  "disposed ss d =
     \<lparr>d_suppress = d_suppress d \<or> (\<exists>s \<in> set ss. suppresses (sc_action s)),
      d_disconnect = d_disconnect d \<or> (\<exists>s \<in> set ss. act_disconnect (sc_action s) \<noteq> None)\<rparr>"

definition truncated :: "Scenario list \<Rightarrow> u64 option \<Rightarrow> u64 option" where
  "truncated ss t =
     fold (\<lambda>s t. case act_truncate_result (sc_action s) of None \<Rightarrow> t | Some x \<Rightarrow> Some (tr_after_rows x)) ss t"

definition resets_client :: "Scenario \<Rightarrow> bool" where
  "resets_client s \<longleftrightarrow> act_disconnect (sc_action s) = Some \<lparr>dis_side = Frontend, dis_mode = Reset\<rparr>"

definition acted :: "Env \<Rightarrow> Record list \<Rightarrow> Scenario list \<Rightarrow> Net \<Rightarrow> Net \<Rightarrow> bool" where
  "acted env rs ss n n' \<longleftrightarrow>
     logs env rs n n' \<and> n_truncate n' = truncated ss (n_truncate n) \<and>
     n_clock n' = n_clock n + total_delay env ss \<and>
     (tcp_linger_zero (fd (n_frontend n')) \<longleftrightarrow>
        tcp_linger_zero (fd (n_frontend n)) \<or> (\<exists>s \<in> set ss. resets_client s))"

lemma disposed_simps [simp]:
  "disposed [] d = d" "disposed (ss @ ss') d = disposed ss' (disposed ss d)"
  "d_suppress (disposed ss d) \<longleftrightarrow> d_suppress d \<or> (\<exists>s \<in> set ss. suppresses (sc_action s))"
  "d_disconnect (disposed ss d) \<longleftrightarrow> d_disconnect d \<or> (\<exists>s \<in> set ss. act_disconnect (sc_action s) \<noteq> None)"
  by (auto simp: disposed_def)

lemma truncated_simps [simp]:
  "truncated [] t = t" "truncated (ss @ ss') t = truncated ss' (truncated ss t)"
  by (simp_all add: truncated_def)

lemma acted_refl [simp]: "acted env [] [] n n"
  by (simp add: acted_def)

lemma acted_trans:
  "acted env rs ss n n' \<Longrightarrow> acted env rs' ss' n' n'' \<Longrightarrow> acted env (rs @ rs') (ss @ ss') n n''"
  by (auto simp: acted_def intro: logs_trans)

lemma fire_acted:
  assumes "fire env e s d n = (Inr d', n')"
  shows "acted env [Fault e s] [s] n n' \<and> n_matchers n' = n_matchers n \<and> d' = disposed [s] d"
  using fire_Inr [OF assms]
  by (simp add: acted_def truncated_def disposed_def resets_client_def split: option.split)

lemma fire_all_acted:
  assumes "fire_all env e ss d n = (Inr d', n')"
  shows "acted env (map (Fault e) ss) ss n n' \<and> n_matchers n' = n_matchers n \<and> d' = disposed ss d"
  using assms
proof (induction ss arbitrary: d n)
  case (Cons s ss)
  then obtain d1 n1 where s: "fire env e s d n = (Inr d1, n1)" and ss: "fire_all env e ss d1 n1 = (Inr d', n')"
    by (auto simp: and_then_Inr)
  from acted_trans [OF _ conjunct1 [OF Cons.IH [OF ss]]] fire_acted [OF s] Cons.IH [OF ss]
    disposed_simps(2) [of "[s]" ss d]
  show ?case by fastforce
qed simp

lemma apply_event_acted:
  assumes "apply_event env e d n = (Inr d', n')"
  shows "acted env (Semantic e # map (Fault e) (firing e (n_matchers n))) (firing e (n_matchers n)) n n' \<and>
    n_matchers n' = offered e (n_matchers n) \<and> d' = disposed (firing e (n_matchers n)) d"
proof -
  from assms obtain n1 where r: "on_trace (record_line (env_to_json env) (Semantic e)) n = (Inr (), n1)"
    and "(case offer env e (n_matchers n1) d n1 of (r, ms, n') \<Rightarrow> (r, n'\<lparr>n_matchers := ms\<rparr>)) = (Inr d', n')"
    by (auto simp: apply_event_def record_event_def and_then_Inr)
  then obtain ms n2 where o: "offer env e (n_matchers n1) d n1 = (Inr d', ms, n2)"
    and n': "n' = n2\<lparr>n_matchers := ms\<rparr>"
    by (auto split: prod.split_asm)
  from logs_record [OF r] have l: "logs env [Semantic e] n n1" and m: "n_matchers n1 = n_matchers n"
    and "n_truncate n1 = n_truncate n" "n_frontend n1 = n_frontend n" "n_clock n1 = n_clock n"
    by (metis Net.select_convs Net.surjective Net.update_convs(1))+
  then have a: "acted env [Semantic e] [] n n1" by (simp add: acted_def)
  from offer_fires [OF o] have ms: "ms = offered e (n_matchers n)"
    and f: "fire_all env e (firing e (n_matchers n)) d n1 = (Inr d', n2)" using m by auto
  from acted_trans [OF a conjunct1 [OF fire_all_acted [OF f]]] fire_all_acted [OF f] ms n'
  show ?thesis by (simp add: acted_def logs_def)
qed

lemma apply_loop_acted:
  assumes "apply_loop env es d n = (Inr d', n')"
  shows "acted env (trace_records (n_matchers n) es) (firings es (n_matchers n)) n n' \<and>
    n_matchers n' = offered_all es (n_matchers n) \<and> d' = disposed (firings es (n_matchers n)) d"
  using assms
proof (induction es arbitrary: d n)
  case (Cons e es)
  then obtain d1 n1 where e: "apply_event env e d n = (Inr d1, n1)"
    and es: "apply_loop env es d1 n1 = (Inr d', n')"
    by (auto simp: and_then_Inr)
  note here = apply_event_acted [OF e] and rest = Cons.IH [OF es]
  from acted_trans [OF conjunct1 [OF here] conjunct1 [OF rest]] here rest show ?case by simp
qed simp

lemma passed_offer:
  assumes "offer env e ms d n = (r, ms', n')"
  shows "passed n' = passed n"
  using passed_fire_all [of env e "firing e ms" d n] offer_fires [OF assms] by simp

lemma passed_apply_event [simp]: "passed (snd (apply_event env e d n)) = passed n"
  unfolding apply_event_def
proof (rule and_then_keeps [where P = passed])
  show "passed (snd (on_trace (record_event (env_to_json env) e) n)) = passed n" for n by simp
  fix x :: unit and n
  obtain r ms n' where "offer env e (n_matchers n) d n = (r, ms, n')" by (metis prod_cases3)
  with passed_offer [OF this]
  show "passed (snd (case offer env e (n_matchers n) d n of (r, ms, n') \<Rightarrow> (r, n'\<lparr>n_matchers := ms\<rparr>))) = passed n"
    by (simp add: passed_def)
qed

lemma passed_apply_events [simp]: "passed (snd (apply_events env es n)) = passed n"
proof -
  have "passed (snd (apply_loop env es d n)) = passed n" for d
  proof (induction es arbitrary: d n)
    case (Cons e es)
    show ?case
      by (simp only: apply_loop.simps) (rule and_then_keeps [where P = passed], simp_all add: Cons.IH)
  qed simp
  then show ?thesis by (simp add: apply_events_def)
qed

end
