(* ===== verification/Relay_Steps.thy ===== *)
theory Relay_Steps
  imports Relay
begin

text \<open>
  What one turn of the relay loop does when it does not fail: which events the observer emitted, what
  went to the trace, to the matchers and to the two peers. The properties of whole runs follow by
  induction over the arrivals.
\<close>

section \<open>Following a run\<close>

text \<open>
  \<open>follows env ins ss r r'\<close>: between \<open>r\<close> and \<open>r'\<close> the observer was shown the inputs \<open>ins\<close>, every event
  it emitted was recorded and offered to the matchers, and the scenarios \<open>ss\<close> fired, each one right
  after the record of its event, and made the connection wait as long as they say.
\<close>

definition events_of :: "Env \<Rightarrow> input list \<Rightarrow> Relay \<Rightarrow> Event list" where
  "events_of env ins r = fst (cs_run (env_sha env) ins (r_state r))"

definition follows :: "Env \<Rightarrow> input list \<Rightarrow> Relay \<Rightarrow> Relay \<Rightarrow> bool" where
  "follows env ins r r' \<longleftrightarrow>
     r_id r' = r_id r \<and> r_state r' = snd (cs_run (env_sha env) ins (r_state r)) \<and>
     n_matchers (r_net r') = offered_all (events_of env ins r) (n_matchers (r_net r)) \<and>
     n_clock (r_net r') = n_clock (r_net r) +
       total_delay env (firings (events_of env ins r) (n_matchers (r_net r))) \<and>
     logs env (trace_records (n_matchers (r_net r)) (events_of env ins r)) (r_net r) (r_net r')"

lemma follows_refl [simp]: "follows env [] r r"
  by (simp add: follows_def events_of_def)

lemma firings_append: "firings (es @ es') ms = firings es ms @ firings es' (offered_all es ms)"
  by (induction es arbitrary: ms) simp_all

lemma follows_trans:
  assumes "follows env ins r r'" and "follows env ins' r' r''"
  shows "follows env (ins @ ins') r r''"
  using assms
  by (auto simp: follows_def events_of_def conn.run_append trace_records_append firings_append intro: logs_trans)

abbreviation fired_in :: "Env \<Rightarrow> input list \<Rightarrow> Relay \<Rightarrow> Scenario list" where
  "fired_in env ins r \<equiv> firings (events_of env ins r) (n_matchers (r_net r))"

section \<open>Observing\<close>

lemma observing_Inr:
  assumes "observing env i r = (Inr d, r')"
  shows "follows env [i] r r'" "r_held r' = r_held r" "r_held_size r' = r_held_size r"
    "passed (r_net r') = passed (r_net r)"
    "d = disposed (fired_in env [i] r) Disposition_default"
    "n_truncate (r_net r') = truncated (fired_in env [i] r) (n_truncate (r_net r))"
    "tcp_linger_zero (fd (n_frontend (r_net r'))) \<longleftrightarrow>
       tcp_linger_zero (fd (n_frontend (r_net r))) \<or> (\<exists>s \<in> set (fired_in env [i] r). resets_client s)"
proof -
  obtain es s where st: "cs_step (env_sha env) i (r_state r) = (es, s)" by fastforce
  with assms obtain n where ap: "apply_events env es (r_net r) = (Inr d, n)"
    and r': "r' = r\<lparr>r_state := s, r_net := n\<rparr>"
    by (auto simp: observing_def on_part_def split: prod.split_asm)
  note a = apply_loop_acted [OF ap [unfolded apply_events_def]]
  have es: "events_of env [i] r = es" by (simp add: events_of_def conn.run_single st)
  from a r' st es show "follows env [i] r r'"
    by (simp add: follows_def acted_def conn.run_single logs_def)
  from passed_apply_events [of env es "r_net r"] ap r' show "passed (r_net r') = passed (r_net r)" by simp
  from a r' es show "d = disposed (fired_in env [i] r) Disposition_default"
    "n_truncate (r_net r') = truncated (fired_in env [i] r) (n_truncate (r_net r))"
    "tcp_linger_zero (fd (n_frontend (r_net r'))) \<longleftrightarrow>
       tcp_linger_zero (fd (n_frontend (r_net r))) \<or> (\<exists>s \<in> set (fired_in env [i] r). resets_client s)"
    by (simp_all add: acted_def)
  from r' show "r_held r' = r_held r" "r_held_size r' = r_held_size r" by simp_all
qed

lemma observing_passed: "passed (r_net (snd (observing env i r))) = passed (r_net r)"
  using passed_apply_events [of env "fst (cs_step (env_sha env) i (r_state r))" "r_net r"]
  by (simp add: observing_def on_part_def case_prod_beta)

section \<open>Writing\<close>

text \<open>The effect of writing to one of the peers, and of the other operations on streams.\<close>

abbreviation to_client :: "Relay \<Rightarrow> string" where
  "to_client r \<equiv> delivered (n_frontend (r_net r))"

abbreviation to_server :: "Relay \<Rightarrow> string" where
  "to_server r \<equiv> delivered (n_upstream (r_net r))"

abbreviation aborts_client :: "Relay \<Rightarrow> bool" where
  "aborts_client r \<equiv> tcp_linger_zero (fd (n_frontend (r_net r)))"

lemma passed_eq: "passed n' = passed n \<longleftrightarrow>
    delivered (n_frontend n') = delivered (n_frontend n) \<and> delivered (n_upstream n') = delivered (n_upstream n)"
  by (simp add: passed_def)

text \<open>\<open>r'\<close> is \<open>r\<close> but for what was done to the two streams.\<close>

definition same_but_streams :: "Relay \<Rightarrow> Relay \<Rightarrow> bool" where
  "same_but_streams r r' \<longleftrightarrow>
     r_id r' = r_id r \<and> r_state r' = r_state r \<and> n_matchers (r_net r') = n_matchers (r_net r) \<and>
     n_trace (r_net r') = n_trace (r_net r) \<and> n_clock (r_net r') = n_clock (r_net r)"

lemma same_but_streams_follows:
  "follows env ins r r' \<Longrightarrow> same_but_streams r' r'' \<Longrightarrow> follows env ins r r''"
  by (simp add: follows_def same_but_streams_def logs_def)

lemma write_client_Inr:
  assumes "on_net (on_frontend m) r = (Inr u, r')"
  shows "same_but_streams r r'" "to_server r' = to_server r" "r_held r' = r_held r"
    "r_held_size r' = r_held_size r" "n_truncate (r_net r') = n_truncate (r_net r)"
    "m (n_frontend (r_net r)) = (Inr u, n_frontend (r_net r'))"
  using assms by (auto simp: on_part_def same_but_streams_def split: prod.split_asm)

lemma write_server_Inr:
  assumes "on_net (on_upstream m) r = (Inr u, r')"
  shows "same_but_streams r r'" "to_client r' = to_client r" "r_held r' = r_held r"
    "r_held_size r' = r_held_size r" "n_truncate (r_net r') = n_truncate (r_net r)"
    "m (n_upstream (r_net r)) = (Inr u, n_upstream (r_net r'))" "aborts_client r' = aborts_client r"
  using assms by (auto simp: on_part_def same_but_streams_def split: prod.split_asm)

lemma write_each_linger: "tcp_linger_zero (fd (snd (write_each bs s))) = tcp_linger_zero (fd s)"
proof (induction bs arbitrary: s)
  case (Cons b bs)
  show ?case
    by (simp only: write_each.simps)
      (rule and_then_keeps [where P = "\<lambda>s. tcp_linger_zero (fd s)"], simp_all add: Cons.IH)
qed simp

lemma write_each_Inr: "write_each bs s = (Inr u, s') \<Longrightarrow> delivered s' = delivered s @ concat bs"
proof (induction bs arbitrary: s)
  case (Cons b bs)
  then obtain s1 where "stream_write_all b s = (Inr (), s1)" "write_each bs s1 = (Inr u, s')"
    by (auto simp: and_then_Inr)
  with Cons.IH [of s1] stream_write_all_Inr show ?case by fastforce
qed simp

section \<open>The client's arm\<close>

lemma forward_Inr:
  assumes "forward env f r = (Inr go, r')"
  shows "\<exists>ins. (ins = [] \<or> ins = [Forwarded]) \<and> follows env ins r r' \<and>
    to_server r' = to_server r @ raw f \<and> to_client r' = to_client r \<and>
    r_held r' = r_held r \<and> r_held_size r' = r_held_size r \<and>
    n_truncate (r_net r') = truncated (fired_in env ins r) (n_truncate (r_net r)) \<and>
    (fired_in env ins r = [] \<longrightarrow> go)"
proof -
  from assms obtain r1 where w: "on_net (on_upstream (stream_write_all (raw f))) r = (Inr (), r1)"
    and rest: "(if tag f = CHR ''Q'' \<or> tag f = CHR ''E''
       then and_then (observing env Forwarded) (\<lambda>d. io_return (\<not> d_disconnect d))
       else io_return True) r1 = (Inr go, r')"
    by (auto simp: forward_def and_then_Inr)
  note w = write_server_Inr [OF w]
  from stream_write_all_Inr [OF w(6)] have up: "to_server r1 = to_server r @ raw f" .
  from w(1) have f0: "follows env [] r r1"
    by (simp add: follows_def same_but_streams_def events_of_def)
  have ev: "events_of env ins r1 = events_of env ins r" "n_matchers (r_net r1) = n_matchers (r_net r)" for ins
    using w(1) by (simp_all add: events_of_def same_but_streams_def)
  show ?thesis
  proof (cases "tag f = CHR ''Q'' \<or> tag f = CHR ''E''")
    case True
    with rest obtain d where o: "observing env Forwarded r1 = (Inr d, r')" and go: "go = (\<not> d_disconnect d)"
      by (auto simp: and_then_Inr)
    note o = observing_Inr [OF o]
    from follows_trans [OF f0 o(1)] o(2-6) w up go show ?thesis
      by (intro exI [of _ "[Forwarded]"]) (auto simp: passed_eq ev Disposition_default_def)
  next
    case False
    with rest w up f0 show ?thesis by (intro exI [of _ "[]"]) (auto simp: events_of_def)
  qed
qed

text \<open>The inputs the observer sees for a frame of the client.\<close>

definition client_inputs :: "Frame \<Rightarrow> input list \<Rightarrow> bool" where
  "client_inputs f ins \<longleftrightarrow> ins = [FromClient f] \<or> ins = [FromClient f, Forwarded]"

lemma client_frame_Inr:
  assumes "client_frame env f r = (Inr go, r')"
  shows "\<exists>ins. client_inputs f ins \<and> follows env ins r r' \<and> to_client r' = to_client r \<and>
    r_held r' = r_held r \<and> r_held_size r' = r_held_size r \<and>
    n_truncate (r_net r') = truncated (fired_in env ins r) (n_truncate (r_net r)) \<and>
    to_server r' \<in> {to_server r, to_server r @ raw f} \<and>
    (fired_in env ins r = [] \<longrightarrow> to_server r' = to_server r @ raw f \<and> go = (tag f \<noteq> CHR ''X''))"
proof -
  from assms obtain d r1 where o: "observing env (FromClient f) r = (Inr d, r1)"
    and rest: "(if d_disconnect d then io_return False
       else and_then (if d_suppress d then io_return True else forward env f) (\<lambda>go.
         io_return (go \<and> tag f \<noteq> CHR ''X''))) r1 = (Inr go, r')"
    by (auto simp: client_frame_def and_then_Inr)
  note o = observing_Inr [OF o]
  show ?thesis
  proof (cases "d_disconnect d \<or> d_suppress d")
    case True
    with rest have "r' = r1" by (auto simp: and_then_Inr split: if_splits)
    with o True show ?thesis
      by (intro exI [of _ "[FromClient f]"]) (auto simp: client_inputs_def passed_eq Disposition_default_def)
  next
    case False
    with rest obtain go1 where f: "forward env f r1 = (Inr go1, r')" and go: "go = (go1 \<and> tag f \<noteq> CHR ''X'')"
      by (auto simp: and_then_Inr)
    from forward_Inr [OF f] obtain ins where ins: "ins = [] \<or> ins = [Forwarded]"
      and fw: "follows env ins r1 r'" "to_server r' = to_server r1 @ raw f" "to_client r' = to_client r1"
        "r_held r' = r_held r1" "r_held_size r' = r_held_size r1"
        "n_truncate (r_net r') = truncated (fired_in env ins r1) (n_truncate (r_net r1))"
        "fired_in env ins r1 = [] \<longrightarrow> go1"
      by blast
    have split: "fired_in env (FromClient f # ins) r = fired_in env [FromClient f] r @ fired_in env ins r1"
    proof -
      have "events_of env ([FromClient f] @ ins) r = events_of env [FromClient f] r @ events_of env ins r1"
        using o(1) by (simp only: events_of_def conn.run_append follows_def fst_conv)
      then show ?thesis using o(1) by (simp add: firings_append follows_def)
    qed
    from ins have "client_inputs f (FromClient f # ins)" by (auto simp: client_inputs_def)
    moreover from follows_trans [OF o(1) fw(1)] have "follows env (FromClient f # ins) r r'" by simp
    ultimately show ?thesis
      using o(2-6) fw go split by (intro exI [of _ "FromClient f # ins"]) (auto simp: passed_eq)
  qed
qed

section \<open>The server's arm\<close>

text \<open>What becomes of a frame of the server that the loop delivers, holds or drops.\<close>

definition placed :: "Frame \<Rightarrow> bool \<Rightarrow> bool \<Rightarrow> Relay \<Rightarrow> Relay \<Rightarrow> bool" where
  "placed f gated suppress r r' \<longleftrightarrow>
     (if suppress then
        to_client r' = to_client r \<and> r_held r' = (if tag f = CHR ''Z'' then [] else r_held r) \<and>
        r_held_size r' = (if tag f = CHR ''Z'' then 0 else r_held_size r)
      else if tag f = CHR ''Z'' then
        to_client r' = to_client r @ concat (r_held r) @ raw f \<and> r_held r' = [] \<and> r_held_size r' = 0
      else if gated \<or> r_held r \<noteq> [] then
        to_client r' = to_client r \<and> r_held r' = r_held r @ [raw f] \<and>
        r_held_size r' = r_held_size r + length (raw f) \<and> r_held_size r' \<le> 1024 * 1024
      else
        to_client r' = to_client r @ raw f \<and> r_held r' = [] \<and> r_held_size r' = r_held_size r)"

lemma deliver_Inr:
  assumes "deliver f gated suppress r = (Inr u, r')"
  shows "same_but_streams r r'" "to_server r' = to_server r" "placed f gated suppress r r'"
    "n_truncate (r_net r') = (if tag f = CHR ''Z'' then None else n_truncate (r_net r))"
    "aborts_client r' = aborts_client r"
proof -
  have "same_but_streams r r' \<and> to_server r' = to_server r \<and> placed f gated suppress r r' \<and>
    n_truncate (r_net r') = (if tag f = CHR ''Z'' then None else n_truncate (r_net r)) \<and>
    aborts_client r' = aborts_client r"
  proof (cases "tag f = CHR ''Z''")
    case Z: True
    show ?thesis
    proof (cases suppress)
      case True
      with Z assms show ?thesis
        by (auto simp: deliver_def deliver_ready_def and_then_Inr same_but_streams_def placed_def)
    next
      case False
      with Z assms obtain r1 where
        w: "on_net (on_frontend (and_then (write_each (r_held r)) (\<lambda>_. stream_write_all (raw f))))
          (r\<lparr>r_held := []\<rparr>) = (Inr (), r1)"
        and r': "r' = r1\<lparr>r_held_size := 0, r_net := (r_net r1)\<lparr>n_truncate := None\<rparr>\<rparr>"
        by (auto simp: deliver_def deliver_ready_def and_then_Inr [of "on_net _"])
      note w = write_client_Inr [OF w]
      from w(6) obtain s1 where w1: "write_each (r_held r) (n_frontend (r_net r)) = (Inr (), s1)"
        and w2: "stream_write_all (raw f) s1 = (Inr (), n_frontend (r_net r1))"
        by (auto simp: and_then_Inr)
      from stream_write_all_Inr [OF w2] write_each_Inr [OF w1]
      have "to_client r1 = to_client r @ concat (r_held r) @ raw f" by simp
      moreover have "aborts_client r1 = aborts_client r"
        using linger_write [of "raw f" s1] write_each_linger [of "r_held r" "n_frontend (r_net r)"] w1 w2
        by simp
      ultimately show ?thesis using Z False w r' by (simp add: same_but_streams_def placed_def)
    qed
  next
    case Z: False
    show ?thesis
    proof (cases "\<not> suppress \<and> \<not> gated \<and> r_held r = []")
      case True
      with Z assms have w: "on_net (on_frontend (stream_write_all (raw f))) r = (Inr (), r')"
        by (simp add: deliver_def deliver_other_def)
      note w = write_client_Inr [OF w]
      from stream_write_all_Inr [OF w(6)] w True Z linger_write [of "raw f" "n_frontend (r_net r)"]
      show ?thesis by (simp add: placed_def)
    next
      case False
      with Z assms show ?thesis
        by (auto simp: deliver_def deliver_other_def same_but_streams_def placed_def Let_def split: if_splits)
    qed
  qed
  then show "same_but_streams r r'" "to_server r' = to_server r" "placed f gated suppress r r'"
    "n_truncate (r_net r') = (if tag f = CHR ''Z'' then None else n_truncate (r_net r))"
    "aborts_client r' = aborts_client r" by blast+
qed

lemma cut_result_Inr:
  assumes "cut_result env r = (Inr go, r')"
  shows "\<not> go" "aborts_client r'" "to_client r' = to_client r" "to_server r' = to_server r"
    "logs env [Lifecycle (r_id r) ''result.truncated'' []] (r_net r) (r_net r')"
    "r_state r' = r_state r" "r_id r' = r_id r" "n_matchers (r_net r') = n_matchers (r_net r)"
    "r_held r' = r_held r" "n_clock (r_net r') = n_clock (r_net r)"
proof -
  from assms obtain r1 where w: "on_net (on_frontend reset) r = (Inr (), r1)"
    and l: "on_net (on_trace (lifecycle (env_to_json env) (r_id r) ''result.truncated'' [])) r1 = (Inr (), r')"
    and go: "\<not> go"
    by (auto simp: cut_result_def and_then_Inr)
  note w = write_client_Inr [OF w]
  from l obtain n where n: "on_trace (record_line (env_to_json env) (Lifecycle (r_id r) ''result.truncated'' []))
      (r_net r1) = (Inr (), n)" and r': "r' = r1\<lparr>r_net := n\<rparr>"
    by (auto simp: on_part_def [of r_net] lifecycle_def split: prod.split_asm)
  note log = logs_record [OF n]
  have same: "n_frontend n = n_frontend (r_net r1)" "n_upstream n = n_upstream (r_net r1)"
    "n_matchers n = n_matchers (r_net r1)" "n_clock n = n_clock (r_net r1)"
    by (subst conjunct2 [OF log], simp)+
  from delivered_reset [of "n_frontend (r_net r)"] w(6) have "to_client r1 = to_client r" by simp
  with same w r' show "to_client r' = to_client r" "to_server r' = to_server r" "r_state r' = r_state r"
    "r_id r' = r_id r" "n_matchers (r_net r') = n_matchers (r_net r)" "r_held r' = r_held r"
    "n_clock (r_net r') = n_clock (r_net r)"
    by (simp_all add: same_but_streams_def)
  from reset_Inr [OF w(6)] same r' show "aborts_client r'" by simp
  from log w(1) r' show "logs env [Lifecycle (r_id r) ''result.truncated'' []] (r_net r) (r_net r')"
    by (simp add: logs_def same_but_streams_def)
  from go show "\<not> go" .
qed

text \<open>The ways a frame of the server can go.\<close>

lemma server_frame_cases:
  assumes "server_frame env f r = (Inr go, r')"
  obtains (dropped) d r1 where "observing env (FromServer f) r = (Inr d, r1)"
    and "d_disconnect d" "\<not> go" "r' = r1"
  | (ended) d r1 where "observing env (FromServer f) r = (Inr d, r1)" and "\<not> d_disconnect d"
    and "tag f = CHR ''D''" "n_truncate (r_net r1) = Some 0" "cut_result env r1 = (Inr go, r')" "\<not> go"
  | (last) d r1 n r2 where "observing env (FromServer f) r = (Inr d, r1)" and "\<not> d_disconnect d"
    and "take_row f (r_net r1) = (False, n)"
    and "deliver f (gate f r) (d_suppress d) (r1\<lparr>r_net := n\<rparr>) = (Inr (), r2)"
    and "tag f = CHR ''D''" "n_truncate (r_net r2) = Some 0" "cut_result env r2 = (Inr go, r')" "\<not> go"
  | (on) d r1 n where "observing env (FromServer f) r = (Inr d, r1)" and "\<not> d_disconnect d"
    and "take_row f (r_net r1) = (False, n)"
    and "deliver f (gate f r) (d_suppress d) (r1\<lparr>r_net := n\<rparr>) = (Inr (), r')" "go"
    and "\<not> (tag f = CHR ''D'' \<and> n_truncate (r_net r') = Some 0)"
proof -
  from assms obtain d r1 where o: "observing env (FromServer f) r = (Inr d, r1)"
    and rest: "(if d_disconnect d then (Inr False, r1)
        else case take_row f (r_net r1) of (ended, n) \<Rightarrow>
          if ended then cut_result env (r1\<lparr>r_net := n\<rparr>)
          else and_then (deliver f (gate f r) (d_suppress d)) (\<lambda>_ r2.
            if tag f = CHR ''D'' \<and> n_truncate (r_net r2) = Some 0 then cut_result env r2
            else (Inr True, r2)) (r1\<lparr>r_net := n\<rparr>)) = (Inr go, r')"
    by (auto simp: server_frame_def and_then_Inr Let_def)
  show thesis
  proof (cases "d_disconnect d")
    case True
    with o rest that(1) show ?thesis by auto
  next
    case d: False
    obtain c n where t: "take_row f (r_net r1) = (c, n)" by fastforce
    show ?thesis
    proof (cases c)
      case True
      with t have "tag f = CHR ''D''" "n_truncate (r_net r1) = Some 0" "n = r_net r1"
        by (auto simp: take_row_def split: if_splits option.splits)
      with True d t rest o that(2) cut_result_Inr(1) show ?thesis by auto
    next
      case False
      with t d rest obtain r2 where dl: "deliver f (gate f r) (d_suppress d) (r1\<lparr>r_net := n\<rparr>) = (Inr (), r2)"
        and fin: "(if tag f = CHR ''D'' \<and> n_truncate (r_net r2) = Some 0 then cut_result env r2
            else (Inr True, r2)) = (Inr go, r')"
        by (auto simp: and_then_Inr)
      from False t have t: "take_row f (r_net r1) = (False, n)" by simp
      show ?thesis
      proof (cases "tag f = CHR ''D'' \<and> n_truncate (r_net r2) = Some 0")
        case True
        with fin have "cut_result env r2 = (Inr go, r')" by simp
        with True cut_result_Inr(1) that(3) [OF o d t dl] show ?thesis by blast
      next
        case False
        with fin have "r' = r2" "go" by auto
        with False dl that(4) [OF o d t] show ?thesis by blast
      qed
    qed
  qed
qed

end
