(* ===== verification/Relay_Props.thy ===== *)
theory Relay_Props
  imports Relay_Steps "HOL-Library.Sublist"
begin

text \<open>
  What the relay guarantees over whole runs: it is transparent until a scenario fires, it delivers the
  server's frames in order and never invents bytes, the gate keeps a completion from the client until
  the fault on it has been decided, its memory is bounded, a truncated result has exactly the rows it
  should, and the trace is exactly the record of the events and faults.
\<close>

section \<open>Runs\<close>

fun client_frames :: "arrival list \<Rightarrow> Frame list" where
  "client_frames [] = []"
| "client_frames (ClientNext (Inr (Some f)) # as) = f # client_frames as"
| "client_frames (_ # as) = client_frames as"

fun server_frames :: "arrival list \<Rightarrow> Frame list" where
  "server_frames [] = []"
| "server_frames (ServerNext (Inr (Some f)) # as) = f # server_frames as"
| "server_frames (_ # as) = server_frames as"

abbreviation bytes_of :: "Frame list \<Rightarrow> string" where
  "bytes_of fs \<equiv> concat (map raw fs)"

lemma client_frames_Cons: "client_frames (a # as) = client_frames [a] @ client_frames as"
  by (cases "[a]" rule: client_frames.cases) auto

lemma server_frames_Cons: "server_frames (a # as) = server_frames [a] @ server_frames as"
  by (cases "[a]" rule: server_frames.cases) auto

text \<open>The inputs of the observer that an arrival may lead to.\<close>

fun step_inputs :: "arrival \<Rightarrow> input list \<Rightarrow> bool" where
  "step_inputs (ClientNext (Inr (Some f))) ins = client_inputs f ins"
| "step_inputs (ServerNext (Inr (Some f))) ins = (ins = [FromServer f])"
| "step_inputs (ClientNext (Inr None)) ins = (ins = [])"
| "step_inputs (ServerNext (Inr None)) ins = (ins = [])"
| "step_inputs _ ins = False"

definition run_inputs :: "arrival list \<Rightarrow> input list \<Rightarrow> bool" where
  "run_inputs as ins \<longleftrightarrow> (\<exists>inss. list_all2 step_inputs as inss \<and> ins = concat inss)"

lemma run_inputs_Nil [simp]: "run_inputs [] ins \<longleftrightarrow> ins = []"
  by (auto simp: run_inputs_def)

lemma run_inputs_Cons: "step_inputs a i \<Longrightarrow> run_inputs as ins \<Longrightarrow> run_inputs (a # as) (i @ ins)"
  unfolding run_inputs_def by (metis concat.simps(2) list.rel_intros(2))

lemma placed_cong:
  "to_client s = to_client r \<Longrightarrow> r_held s = r_held r \<Longrightarrow> r_held_size s = r_held_size r \<Longrightarrow>
   placed f g b s r' = placed f g b r r'"
  by (simp only: placed_def)

text \<open>One turn of the loop after which the loop goes on.\<close>

lemma server_frame_on:
  assumes "server_frame env f r = (Inr True, r')"
  shows "follows env [FromServer f] r r' \<and> to_server r' = to_server r \<and>
    placed f (gate f r) (\<exists>s \<in> set (fired_in env [FromServer f] r). suppresses (sc_action s)) r r' \<and>
    (\<forall>s \<in> set (fired_in env [FromServer f] r). act_disconnect (sc_action s) = None) \<and>
    (n_truncate (r_net r) = None \<and> fired_in env [FromServer f] r = [] \<longrightarrow> n_truncate (r_net r') = None)"
  using assms
proof (cases rule: server_frame_cases)
  case (on d r1 n)
  note o = observing_Inr [OF on(1)] and dl = deliver_Inr [OF on(4)]
  have n: "n_frontend n = n_frontend (r_net r1)" "n_upstream n = n_upstream (r_net r1)"
    "n_matchers n = n_matchers (r_net r1)" "n_trace n = n_trace (r_net r1)" "n_clock n = n_clock (r_net r1)"
    "n_truncate (r_net r1) = None \<Longrightarrow> n_truncate n = None"
    using on(3) by (auto simp: take_row_def split: if_splits option.splits)
  from dl(1) n have "same_but_streams r1 r'" by (simp add: same_but_streams_def)
  with same_but_streams_follows [OF o(1)] have fol: "follows env [FromServer f] r r'" .
  have "placed f (gate f r) (d_suppress d) r r'"
    using dl(3) n o(2-4) placed_cong [of "r1\<lparr>r_net := n\<rparr>" r] by (simp add: passed_eq)
  moreover have "d_suppress d \<longleftrightarrow> (\<exists>s \<in> set (fired_in env [FromServer f] r). suppresses (sc_action s))"
    using o(5) by (simp add: Disposition_default_def)
  moreover have "\<forall>s \<in> set (fired_in env [FromServer f] r). act_disconnect (sc_action s) = None"
    using o(5) on(2) by (simp add: Disposition_default_def)
  ultimately show ?thesis using fol dl(2,4) n o(4,6) by (simp add: passed_eq)
qed simp_all

lemma relay_step_onE:
  assumes "relay_step env a r = (Inr True, r')"
  obtains (client) f where "a = ClientNext (Inr (Some f))" "client_frame env f r = (Inr True, r')"
  | (server) f where "a = ServerNext (Inr (Some f))" "server_frame env f r = (Inr True, r')"
  using assms that
  by (auto simp: relay_step_def on_client_def on_server_def and_then_Inr
      split: arrival.splits sum.splits option.splits)

lemma relay_step_on:
  assumes "relay_step env a r = (Inr True, r')"
  shows "\<exists>ins. step_inputs a ins \<and> follows env ins r r'"
  using assms
proof (cases rule: relay_step_onE)
  case (client f)
  with client_frame_Inr show ?thesis by fastforce
next
  case (server f)
  with server_frame_on show ?thesis by fastforce
qed

interpretation relay: io_loop "relay_step env" "relay env" for env
  by unfold_locales simp_all

lemma relay_follows:
  assumes "relay env as r = (None, r')"
  shows "\<exists>ins. run_inputs as ins \<and> follows env ins r r'"
  using assms
proof (induction as arbitrary: r)
  case (Cons a as)
  then obtain r1 where a: "relay_step env a r = (Inr True, r1)" and as: "relay env as r1 = (None, r')"
    by (auto simp: relay.run_Cons_None simp del: relay.simps)
  from relay_step_on [OF a] Cons.IH [OF as] obtain i ins where
    "step_inputs a i" "follows env i r r1" "run_inputs as ins" "follows env ins r1 r'" by blast
  with run_inputs_Cons follows_trans show ?case by blast
qed simp

section \<open>Transparency\<close>

lemma fired_stays: "m_fired m \<Longrightarrow> m_fired (snd (observe m e))"
  by (simp add: observe_fired)

lemma unfired_firings:
  "\<forall>m \<in> set (offered_all es ms). \<not> m_fired m \<Longrightarrow> firings es ms = [] \<and> (\<forall>m \<in> set ms. \<not> m_fired m)"
proof (induction es arbitrary: ms)
  case (Cons e es)
  then have "firings es (offered e ms) = []" and un: "\<forall>m \<in> set (offered e ms). \<not> m_fired m" by simp_all
  moreover from un have "firing e ms = []"
    using observe_spends by (auto simp: firing_def offered_def filter_empty_conv)
  moreover from un have "\<forall>m \<in> set ms. \<not> m_fired m" using fired_stays by (auto simp: offered_def)
  ultimately show ?case by simp
qed simp

definition unfired :: "Relay \<Rightarrow> bool" where
  "unfired r \<longleftrightarrow> (\<forall>m \<in> set (n_matchers (r_net r)). \<not> m_fired m)"

lemma follows_unfired: "follows env ins r r' \<Longrightarrow> unfired r' \<Longrightarrow> unfired r \<and> fired_in env ins r = []"
  using unfired_firings by (simp add: follows_def unfired_def)

lemma step_transparent:
  assumes "relay_step env a r = (Inr True, r')" and "unfired r'" and "n_truncate (r_net r) = None"
  shows "to_server r' = to_server r @ bytes_of (client_frames [a]) \<and>
    to_client r' @ concat (r_held r') = to_client r @ concat (r_held r) @ bytes_of (server_frames [a]) \<and>
    n_truncate (r_net r') = None"
  using assms(1)
proof (cases rule: relay_step_onE)
  case (client f)
  from client_frame_Inr [OF client(2)] obtain ins where "follows env ins r r'"
    "to_client r' = to_client r" "r_held r' = r_held r"
    "n_truncate (r_net r') = truncated (fired_in env ins r) (n_truncate (r_net r))"
    "fired_in env ins r = [] \<longrightarrow> to_server r' = to_server r @ raw f"
    by blast
  with follows_unfired assms(2,3) client(1) show ?thesis by simp
next
  case (server f)
  note s = server_frame_on [OF server(2)]
  with follows_unfired assms(2) have "fired_in env [FromServer f] r = []" by blast
  with s assms(3) server(1) show ?thesis by (auto simp: placed_def split: if_splits)
qed

lemma relay_transparent:
  assumes "relay env as r = (None, r')" and "unfired r'" and "n_truncate (r_net r) = None"
  shows "to_server r' = to_server r @ bytes_of (client_frames as) \<and>
    to_client r' @ concat (r_held r') = to_client r @ concat (r_held r) @ bytes_of (server_frames as)"
  using assms(1,3)
proof (induction as arbitrary: r)
  case (Cons a as)
  then obtain r1 where a: "relay_step env a r = (Inr True, r1)" and as: "relay env as r1 = (None, r')"
    by (auto simp: relay.run_Cons_None simp del: relay.simps)
  from relay_follows [OF as] follows_unfired assms(2) have "unfired r1" by blast
  note one = step_transparent [OF a this Cons.prems(2)]
  with Cons.IH [OF as] show ?case
    by (simp add: client_frames_Cons [of a as] server_frames_Cons [of a as])
qed simp

section \<open>A proxy without scenarios\<close>

text \<open>
  A relay with no scenarios on connections and a trace file that do not fail, between two results: it
  has nothing to hold and nothing to truncate.
\<close>

definition calm :: "Relay \<Rightarrow> bool" where
  "calm r \<longleftrightarrow> n_matchers (r_net r) = [] \<and> n_truncate (r_net r) = None \<and> r_held r = [] \<and>
     healthy (n_frontend (r_net r)) \<and> healthy (n_upstream (r_net r)) \<and> room (n_trace (r_net r)) = None"

definition total_json :: "Env \<Rightarrow> bool" where
  "total_json env \<longleftrightarrow> (\<forall>r. \<exists>l. env_to_json env r = Inr l)"

text \<open>Without a fault and on a trace file that does not fail, \<^verbatim>\<open>apply\<close> only records and offers.\<close>

lemma offer_no_fault:
  "firing e ms = [] \<Longrightarrow> offer env e ms d n = (Inr d, offered e ms, n)"
proof (induction ms)
  case (Cons m ms)
  then show ?case by (cases "observe m e") (simp add: firing_def offered_def split: if_splits)
qed (simp add: offered_def)

lemma apply_loop_no_fault:
  assumes "total_json env" and "firings es (n_matchers n) = []" and "room (n_trace n) = None"
  shows "\<exists>t. apply_loop env es d n =
      (Inr d, n\<lparr>n_trace := t, n_matchers := offered_all es (n_matchers n)\<rparr>) \<and> room t = None"
  using assms(2,3)
proof (induction es arbitrary: n)
  case Nil
  then show ?case by (intro exI [of _ "n_trace n"]) simp
next
  case (Cons e es)
  from assms(1) obtain l where "env_to_json env (Semantic e) = Inr l" by (auto simp: total_json_def)
  with Cons.prems obtain t where
    t: "apply_event env e d n = (Inr d, n\<lparr>n_trace := t, n_matchers := offered e (n_matchers n)\<rparr>)" "room t = None"
    by (simp add: apply_event_def record_event_def record_line_def on_part_def and_then_def offer_no_fault)
  from Cons.IH [of "n\<lparr>n_trace := t, n_matchers := offered e (n_matchers n)\<rparr>"] Cons.prems t show ?case by auto
qed

lemma observing_no_fault:
  assumes "total_json env" and "fired_in env [i] r = []" and "room (n_trace (r_net r)) = None"
  shows "\<exists>t. observing env i r = (Inr Disposition_default,
      r\<lparr>r_state := snd (cs_step (env_sha env) i (r_state r)),
        r_net := (r_net r)\<lparr>n_trace := t,
          n_matchers := offered_all (events_of env [i] r) (n_matchers (r_net r))\<rparr>\<rparr>) \<and> room t = None"
proof -
  obtain es s where st: "cs_step (env_sha env) i (r_state r) = (es, s)" by fastforce
  then have es: "events_of env [i] r = es" by (simp add: events_of_def conn.run_single)
  from apply_loop_no_fault [OF assms(1) _ assms(3), of es Disposition_default] assms(2) obtain t where
    "apply_loop env es Disposition_default (r_net r) =
      (Inr Disposition_default, (r_net r)\<lparr>n_trace := t, n_matchers := offered_all es (n_matchers (r_net r))\<rparr>)"
    "room t = None"
    by (auto simp: es)
  then show ?thesis by (auto simp: observing_def apply_events_def on_part_def st es)
qed

lemma offered_all_Nil [simp]: "offered_all es [] = []" "firings es [] = []"
  by (induction es) (simp_all add: offered_def firing_def)

lemma observing_calm:
  assumes "total_json env" and "calm r"
  shows "\<exists>r'. observing env i r = (Inr Disposition_default, r') \<and> calm r' \<and>
    to_client r' = to_client r \<and> to_server r' = to_server r"
  using observing_no_fault [OF assms(1), of i r] assms(2) by (auto simp: calm_def)

lemma write_calm:
  assumes "calm r"
  shows "\<exists>r'. on_net (on_upstream (stream_write_all bs)) r = (Inr (), r') \<and> calm r' \<and>
      to_client r' = to_client r \<and> to_server r' = to_server r @ bs"
    and "\<exists>r'. on_net (on_frontend (stream_write_all bs)) r = (Inr (), r') \<and> calm r' \<and>
      to_client r' = to_client r @ bs \<and> to_server r' = to_server r"
  using assms healthy_ops(1) [of "n_upstream (r_net r)" bs] healthy_ops(1) [of "n_frontend (r_net r)" bs]
  by (auto simp: calm_def on_part_def)

lemma client_frame_calm:
  assumes "total_json env" and "calm r"
  shows "\<exists>r'. client_frame env f r = (Inr (tag f \<noteq> CHR ''X''), r') \<and> calm r' \<and>
    to_client r' = to_client r \<and> to_server r' = to_server r @ raw f"
proof -
  from observing_calm [OF assms, of "FromClient f"] obtain r1 where
    r1: "observing env (FromClient f) r = (Inr Disposition_default, r1)" "calm r1"
      "to_client r1 = to_client r" "to_server r1 = to_server r" by blast
  from write_calm(1) [OF r1(2), of "raw f"] obtain r2 where
    r2: "on_net (on_upstream (stream_write_all (raw f))) r1 = (Inr (), r2)" "calm r2"
      "to_client r2 = to_client r1" "to_server r2 = to_server r1 @ raw f" by blast
  from observing_calm [OF assms(1) r2(2), of Forwarded] obtain r3 where
    r3: "observing env Forwarded r2 = (Inr Disposition_default, r3)" "calm r3"
      "to_client r3 = to_client r2" "to_server r3 = to_server r2" by blast
  have "\<exists>r'. forward env f r1 = (Inr True, r') \<and> calm r' \<and>
    to_client r' = to_client r2 \<and> to_server r' = to_server r2"
    unfolding forward_def using r2 r3
    by (simp add: r2(1) r3(1) Disposition_default_def)
  then obtain r' where fw: "forward env f r1 = (Inr True, r')"
    "calm r'" "to_client r' = to_client r2" "to_server r' = to_server r2" by blast
  then have "client_frame env f r = (Inr (tag f \<noteq> CHR ''X''), r')"
    unfolding client_frame_def
    by (simp add: r1(1) fw(1) Disposition_default_def)
  with fw r1 r2 show ?thesis by auto
qed

lemma server_frame_calm:
  assumes "total_json env" and "calm r"
  shows "\<exists>r'. server_frame env f r = (Inr True, r') \<and> calm r' \<and>
    to_client r' = to_client r @ raw f \<and> to_server r' = to_server r"
proof -
  from observing_calm [OF assms, of "FromServer f"] obtain r1 where
    r1: "observing env (FromServer f) r = (Inr Disposition_default, r1)" "calm r1"
      "to_client r1 = to_client r" "to_server r1 = to_server r" by blast
  have g: "\<not> gate f r" using assms(2) by (simp add: gate_def calm_def split: option.split)
  have t: "take_row f (r_net r1) = (False, r_net r1)" using r1(2) by (simp add: take_row_def calm_def)
  have "\<exists>r'. deliver f False False r1 = (Inr (), r') \<and> calm r' \<and>
    to_client r' = to_client r1 @ raw f \<and> to_server r' = to_server r1"
  proof (cases "tag f = CHR ''Z''")
    case True
    have held: "r1\<lparr>r_held := []\<rparr> = r1" using r1(2) by (simp add: calm_def)
    have "and_then (write_each []) (\<lambda>_. stream_write_all (raw f)) = stream_write_all (raw f)"
      by (simp add: fun_eq_iff and_then_def)
    moreover from write_calm(2) [OF r1(2), of "raw f"] obtain r2 where
      "on_net (on_frontend (stream_write_all (raw f))) r1 = (Inr (), r2)" "calm r2"
      "to_client r2 = to_client r1 @ raw f" "to_server r2 = to_server r1" by blast
    ultimately show ?thesis
      using True r1(2) by (simp add: deliver_def deliver_ready_def held) (simp add: calm_def)
  next
    case False
    with write_calm(2) [OF r1(2), of "raw f"] r1(2) show ?thesis
      by (simp add: deliver_def deliver_other_def calm_def)
  qed
  then obtain r' where dl: "deliver f False False r1 = (Inr (), r')" "calm r'"
    "to_client r' = to_client r1 @ raw f" "to_server r' = to_server r1" by blast
  then have "server_frame env f r = (Inr True, r')"
    unfolding server_frame_def
    by (simp add: r1(1) dl(1) Disposition_default_def t g calm_def Let_def)
  with dl r1 show ?thesis by auto
qed

text \<open>An arrival that is a frame, but not the client's Terminate.\<close>

fun frame_arrival :: "arrival \<Rightarrow> bool" where
  "frame_arrival (ClientNext (Inr (Some f))) = (tag f \<noteq> CHR ''X'')"
| "frame_arrival (ServerNext (Inr (Some f))) = True"
| "frame_arrival _ = False"

lemma relay_calm:
  assumes "total_json env" and "calm r" and "list_all frame_arrival as"
  shows "\<exists>r'. relay env as r = (None, r') \<and> calm r' \<and>
    to_server r' = to_server r @ bytes_of (client_frames as) \<and>
    to_client r' = to_client r @ bytes_of (server_frames as)"
  using assms(2,3)
proof (induction as arbitrary: r)
  case (Cons a as)
  have "\<exists>r'. relay_step env a r = (Inr True, r') \<and> calm r' \<and>
    to_server r' = to_server r @ bytes_of (client_frames [a]) \<and>
    to_client r' = to_client r @ bytes_of (server_frames [a])"
  proof (cases a rule: frame_arrival.cases)
    case (1 f)
    with client_frame_calm [OF assms(1) Cons.prems(1), of f] Cons.prems(2) show ?thesis
      by (auto simp: relay_step_def on_client_def)
  next
    case (2 f)
    with server_frame_calm [OF assms(1) Cons.prems(1), of f] show ?thesis
      by (auto simp: relay_step_def on_server_def)
  qed (use Cons.prems(2) in simp_all)
  then obtain r1 where r1: "relay_step env a r = (Inr True, r1)" "calm r1"
    "to_server r1 = to_server r @ bytes_of (client_frames [a])"
    "to_client r1 = to_client r @ bytes_of (server_frames [a])" by blast
  from Cons.IH [OF r1(2)] Cons.prems(2) obtain r' where "relay env as r1 = (None, r')" "calm r'"
    "to_server r' = to_server r1 @ bytes_of (client_frames as)"
    "to_client r' = to_client r1 @ bytes_of (server_frames as)" by auto
  with r1 show ?case
    by (auto simp: relay.run_Cons_None client_frames_Cons [of a as] server_frames_Cons [of a as] simp del: relay.simps)
qed simp

section \<open>Memory\<close>

definition held_inv :: "Relay \<Rightarrow> bool" where
  "held_inv r \<longleftrightarrow> r_held_size r = length (concat (r_held r)) \<and> r_held_size r \<le> 1024 * 1024"

lemma placed_held_inv: "placed f g b r r' \<Longrightarrow> held_inv r \<Longrightarrow> held_inv r'"
  by (auto simp: placed_def held_inv_def split: if_splits)

lemma relay_step_held_inv:
  assumes "held_inv r" and "relay_step env a r = (Inr True, r')"
  shows "held_inv r'"
  using assms(2)
proof (cases rule: relay_step_onE)
  case (client f)
  from client_frame_Inr [OF client(2)] have "r_held r' = r_held r" "r_held_size r' = r_held_size r" by auto
  with assms(1) show ?thesis by (simp add: held_inv_def)
next
  case (server f)
  with server_frame_on [OF server(2)] placed_held_inv assms(1) show ?thesis by blast
qed

section \<open>Order\<close>

text \<open>What is written to the client is, frame by frame, a part of what the server sent.\<close>

lemma placed_order:
  assumes "placed f g b r r'"
  shows "\<exists>gs. to_client r' = to_client r @ concat gs \<and> subseq (gs @ r_held r') (r_held r @ [raw f])"
proof -
  have sub: "subseq (r_held r) (r_held r @ [raw f])" "subseq [] (r_held r @ [raw f])"
    by (rule prefix_imp_subseq) simp_all
  consider "b" | "\<not> b" "tag f = CHR ''Z''" | "\<not> b" "tag f \<noteq> CHR ''Z''" "g \<or> r_held r \<noteq> []"
    | "\<not> b" "tag f \<noteq> CHR ''Z''" "\<not> g" "r_held r = []" by blast
  then show ?thesis
  proof cases
    case 1
    with assms sub show ?thesis by (intro exI [of _ "[]"]) (auto simp: placed_def)
  next
    case 2
    with assms show ?thesis by (intro exI [of _ "r_held r @ [raw f]"]) (simp add: placed_def)
  next
    case 3
    with assms show ?thesis by (intro exI [of _ "[]"]) (auto simp: placed_def)
  next
    case 4
    with assms show ?thesis by (intro exI [of _ "[raw f]"]) (simp add: placed_def)
  qed
qed

lemma step_order:
  assumes "relay_step env a r = (Inr True, r')"
  shows "\<exists>gs. to_client r' = to_client r @ concat gs \<and>
    subseq (gs @ r_held r') (r_held r @ map raw (server_frames [a]))"
  using assms
proof (cases rule: relay_step_onE)
  case (client f)
  with client_frame_Inr [OF client(2)] show ?thesis by (intro exI [of _ "[]"]) auto
next
  case (server f)
  with server_frame_on [OF server(2)] placed_order show ?thesis by fastforce
qed

lemma run_order:
  assumes "relay env as r = (None, r')"
  shows "\<exists>gs. to_client r' = to_client r @ concat gs \<and>
    subseq (gs @ r_held r') (r_held r @ map raw (server_frames as))"
  using assms
proof (induction as arbitrary: r)
  case Nil
  then show ?case by (intro exI [of _ "[]"]) simp
next
  case (Cons a as)
  then obtain r1 where a: "relay_step env a r = (Inr True, r1)" and as: "relay env as r1 = (None, r')"
    by (auto simp: relay.run_Cons_None simp del: relay.simps)
  from step_order [OF a] Cons.IH [OF as] obtain gs gs' where
    gs: "to_client r1 = to_client r @ concat gs" "subseq (gs @ r_held r1) (r_held r @ map raw (server_frames [a]))"
    and gs': "to_client r' = to_client r1 @ concat gs'" "subseq (gs' @ r_held r') (r_held r1 @ map raw (server_frames as))"
    by blast
  have "subseq (gs @ gs' @ r_held r') (gs @ r_held r1 @ map raw (server_frames as))"
    by (rule list_emb_append_mono [OF subseq_order.order_refl gs'(2)])
  also have "subseq \<dots> (r_held r @ map raw (server_frames [a]) @ map raw (server_frames as))"
    using list_emb_append_mono [OF gs(2) subseq_order.order_refl, of "map raw (server_frames as)"] by simp
  finally show ?case
    using gs(1) gs'(1) by (intro exI [of _ "gs @ gs'"]) (simp add: server_frames_Cons [of a as])
qed

text \<open>A step that fails may leave part of a write behind.\<close>

lemma write_each_prefix: "\<exists>p. delivered (snd (write_each bs s)) = delivered s @ p \<and> prefix p (concat bs)"
proof (induction bs arbitrary: s)
  case (Cons b bs)
  obtain q s1 where w: "stream_write_all b s = (q, s1)" by fastforce
  show ?case
  proof (cases q)
    case (Inl e)
    with w stream_write_all_prefix [of b s] show ?thesis by (auto simp: take_is_prefix prefix_prefix)
  next
    case (Inr u)
    with w stream_write_all_Inr have "delivered s1 = delivered s @ b" by blast
    with Inr w Cons.IH [of s1] show ?thesis by auto
  qed
qed simp

lemma write_each_snoc: "and_then (write_each bs) (\<lambda>_. stream_write_all b) s = write_each (bs @ [b]) s"
proof (induction bs arbitrary: s)
  case Nil
  then show ?case by (auto simp: and_then_def split: prod.split sum.split)
next
  case (Cons c bs)
  obtain q s1 where w: "stream_write_all c s = (q, s1)" by fastforce
  with Cons.IH [of s1] show ?case by (cases q) (auto simp: and_then_def)
qed

lemma deliver_prefix:
  "\<exists>p. to_client (snd (deliver f g b r)) = to_client r @ p \<and> prefix p (concat (r_held r) @ raw f)"
proof -
  obtain q s where w: "write_each (r_held r @ [raw f]) (n_frontend (r_net r)) = (q, s)" by fastforce
  obtain q' s' where w': "stream_write_all (raw f) (n_frontend (r_net r)) = (q', s')" by fastforce
  from write_each_prefix [of "r_held r @ [raw f]" "n_frontend (r_net r)"] w
  have 1: "\<exists>p. delivered s = to_client r @ p \<and> prefix p (concat (r_held r) @ raw f)" by simp
  from stream_write_all_prefix [of "raw f" "n_frontend (r_net r)"] w'
  have 2: "\<exists>p. delivered s' = to_client r @ p \<and> prefix p (raw f)" by (auto simp: take_is_prefix)
  show ?thesis
  proof (cases "tag f = CHR ''Z''")
    case True
    with 1 w show ?thesis
      by (cases q) (auto simp: deliver_def deliver_ready_def write_each_snoc [abs_def] on_part_def and_then_def)
  next
    case False
    with 2 w' show ?thesis
      by (auto simp: deliver_def deliver_other_def Let_def on_part_def)
  qed
qed

lemma on_net_keeps:
  "(\<And>n. passed (snd (m n)) = passed n) \<Longrightarrow> passed (r_net (snd (on_net m r))) = passed (r_net r)"
  by (simp add: on_part_def case_prod_beta)

lemma cut_result_passed: "passed (r_net (snd (cut_result env r))) = passed (r_net r)"
  unfolding cut_result_def
  by (intro and_then_keeps [where P = "\<lambda>r. passed (r_net r)"] on_net_keeps)
    (simp_all add: passed_def on_part_def case_prod_beta)

lemma client_frame_to_client: "to_client (snd (client_frame env f r)) = to_client r"
proof -
  have obs: "to_client (snd (observing env i r)) = to_client r" for i r
    using observing_passed [of env i r] by (simp add: passed_eq)
  have "to_client (snd (forward env f r)) = to_client r" for r
    unfolding forward_def
    by (rule and_then_keeps [where P = to_client])
      (auto simp: on_part_def case_prod_beta obs intro!: and_then_keeps [where P = to_client])
  then show ?thesis
    unfolding client_frame_def
    by (intro and_then_keeps [where P = to_client])
      (auto simp: obs intro!: and_then_keeps [where P = to_client])
qed

lemma on_net_frontend_to_client:
  "delivered (snd (m (n_frontend (r_net r)))) = to_client r \<Longrightarrow>
   to_client (snd (on_net (on_frontend m) r)) = to_client r"
  by (simp add: on_part_def case_prod_beta)

text \<open>The last step of a run that ends.\<close>

lemma relay_step_doneE:
  assumes "relay_step env a r = (Inr False, r')"
  obtains (client) f where "a = ClientNext (Inr (Some f))" "client_frame env f r = (Inr False, r')"
  | (client_eof) "a = ClientNext (Inr None)" "on_net (on_upstream stream_shutdown) r = (Inr (), r')"
  | (server) f where "a = ServerNext (Inr (Some f))" "server_frame env f r = (Inr False, r')"
  | (server_eof) "a = ServerNext (Inr None)" "on_net (on_frontend stream_shutdown) r = (Inr (), r')"
  using assms that
  by (auto simp: relay_step_def on_client_def on_server_def and_then_Inr
      split: arrival.splits sum.splits option.splits)

lemma subseq_appendD: "subseq (xs @ ys) zs \<Longrightarrow> subseq xs zs"
  by (meson prefixI prefix_imp_subseq subseq_order.order_trans)

lemma done_order:
  assumes "relay_step env a r = (Inr False, r')"
  shows "\<exists>gs. to_client r' = to_client r @ concat gs \<and> subseq gs (r_held r @ map raw (server_frames [a]))"
proof -
  have same: ?thesis if "to_client r' = to_client r" using that by (intro exI [of _ "[]"]) simp
  show ?thesis using assms
  proof (cases rule: relay_step_doneE)
    case (client f)
    with client_frame_to_client [of env f r] same show ?thesis by simp
  next
    case client_eof
    with same show ?thesis by (auto simp: on_part_def split: prod.split_asm)
  next
    case server_eof
    from delivered_shutdown [of "n_frontend (r_net r)"] write_client_Inr(6) [OF server_eof(2)]
    have "to_client r' = to_client r" by simp
    then show ?thesis by (rule same)
  next
    case (server f)
    from server(2) show ?thesis
    proof (cases rule: server_frame_cases)
      case (dropped d r1)
      with observing_Inr(4) [OF dropped(1)] same show ?thesis by (simp add: passed_eq)
    next
      case (ended d r1)
      with observing_Inr(4) [OF ended(1)] cut_result_Inr(3) [OF ended(5)] same show ?thesis
        by (simp add: passed_eq)
    next
      case (last d r1 n r2)
      from last(3) have "n_frontend n = n_frontend (r_net r1)"
        by (auto simp: take_row_def split: if_splits option.splits)
      with observing_Inr(2,4) [OF last(1)] placed_order [OF deliver_Inr(3) [OF last(4)]]
        cut_result_Inr(3) [OF last(7)] server(1)
      show ?thesis by (auto simp: passed_eq dest: subseq_appendD)
    qed simp_all
  qed
qed

lemma relay_step_errorE:
  assumes "relay_step env a r = (Inl e, r')"
  obtains (read) "r' = r"
  | (client) f where "a = ClientNext (Inr (Some f))" "client_frame env f r = (Inl e, r')"
  | (client_eof) "on_net (on_upstream stream_shutdown) r = (Inl e, r')"
  | (server) f where "a = ServerNext (Inr (Some f))" "server_frame env f r = (Inl e, r')"
  | (server_eof) "on_net (on_frontend stream_shutdown) r = (Inl e, r')"
  using assms that
  by (auto simp: relay_step_def on_client_def on_server_def and_then_Inl
      split: arrival.splits sum.splits option.splits)

lemma server_frame_error:
  assumes "server_frame env f r = (Inl e, r')"
  shows "\<exists>p. to_client r' = to_client r @ p \<and> prefix p (concat (r_held r) @ raw f)"
proof -
  have same: ?thesis if "to_client r' = to_client r" using that by simp
  obtain q r1 where o: "observing env (FromServer f) r = (q, r1)" by fastforce
  with observing_passed [of env "FromServer f" r] have r1: "to_client r1 = to_client r"
    by (simp add: passed_eq)
  show ?thesis
  proof (cases q)
    case (Inl x)
    with o assms r1 same show ?thesis by (simp add: server_frame_def Let_def)
  next
    case (Inr d)
    note held = observing_Inr(2) [OF o [unfolded Inr]]
    obtain c n where t: "take_row f (r_net r1) = (c, n)" by fastforce
    then have n: "n_frontend n = n_frontend (r_net r1)"
      by (auto simp: take_row_def split: if_splits option.splits)
    obtain q2 r2 where dl: "deliver f (gate f r) (d_suppress d) (r1\<lparr>r_net := n\<rparr>) = (q2, r2)" by fastforce
    from deliver_prefix [of f "gate f r" "d_suppress d" "r1\<lparr>r_net := n\<rparr>"] dl n r1 held
    have p: "\<exists>p. to_client r2 = to_client r @ p \<and> prefix p (concat (r_held r) @ raw f)" by simp
    have d: "\<not> d_disconnect d" using assms o Inr by (auto simp: server_frame_def Let_def split: if_splits)
    show ?thesis
    proof (cases c)
      case True
      with assms o Inr t d have "cut_result env (r1\<lparr>r_net := n\<rparr>) = (Inl e, r')"
        by (simp add: server_frame_def Let_def)
      with cut_result_passed [of env "r1\<lparr>r_net := n\<rparr>"] n r1 same show ?thesis by (simp add: passed_eq)
    next
      case False
      with assms o Inr t d dl have "r' = r2 \<or> cut_result env r2 = (Inl e, r')"
        by (cases q2) (auto simp: server_frame_def Let_def split: if_splits)
      with p cut_result_passed [of env r2] show ?thesis by (auto simp: passed_eq)
    qed
  qed
qed

lemma error_order:
  assumes "relay_step env a r = (Inl e, r')"
  shows "\<exists>p. to_client r' = to_client r @ p \<and> prefix p (concat (r_held r @ map raw (server_frames [a])))"
proof -
  have same: ?thesis if "to_client r' = to_client r" using that by simp
  show ?thesis using assms
  proof (cases rule: relay_step_errorE)
    case read
    with same show ?thesis by simp
  next
    case (client f)
    with client_frame_to_client [of env f r] same show ?thesis by simp
  next
    case client_eof
    with same show ?thesis by (auto simp: on_part_def split: prod.split_asm)
  next
    case server_eof
    with delivered_shutdown [of "n_frontend (r_net r)"] on_net_frontend_to_client [of stream_shutdown r]
    show ?thesis by (intro same) simp
  next
    case (server f)
    with server_frame_error [OF server(2)] show ?thesis by simp
  qed
qed

text \<open>
  C2: the proxy never invents, changes or reorders what the server says, whatever the scenarios do and
  whether the run ends, fails or still goes on. What was written to the client is a sequence of whole
  frames, each byte for byte a frame of the server (or one held before), in the server's order with
  some of them left out; only a run that ends with an error may have written part of the frames that
  come next.
\<close>

theorem server_order_preserved:
  assumes "relay env as r = (res, r')"
  shows "\<exists>gs hs p. to_client r' = to_client r @ concat gs @ p \<and>
    subseq (gs @ hs) (r_held r @ map raw (server_frames as)) \<and> prefix p (concat hs) \<and>
    ((\<forall>e. res \<noteq> Some (Inl e)) \<longrightarrow> p = [])"
proof (cases res)
  case None
  with run_order [of env as r r'] assms show ?thesis by fastforce
next
  case (Some q)
  from relay.run_ended [OF assms [unfolded Some]] obtain as1 a as2 r1 where
    as: "as = as1 @ a # as2" and r1: "relay env as1 r = (None, r1)"
    and last: "case q of Inl e \<Rightarrow> relay_step env a r1 = (Inl e, r') | Inr _ \<Rightarrow> relay_step env a r1 = (Inr False, r')"
    by blast
  from run_order [OF r1] obtain gs where gs: "to_client r1 = to_client r @ concat gs"
    "subseq (gs @ r_held r1) (r_held r @ map raw (server_frames as1))" by blast
  have app: "server_frames (as1 @ a # as2) = server_frames as1 @ server_frames [a] @ server_frames as2"
  proof (induction as1)
    case Nil
    show ?case using server_frames_Cons [of a as2] by simp
  next
    case (Cons b bs)
    with server_frames_Cons [of b "bs @ a # as2"] server_frames_Cons [of b bs] show ?case by simp
  qed
  let ?next = "r_held r1 @ map raw (server_frames [a])"
  have sub: "subseq (gs @ hs) (r_held r @ map raw (server_frames as))" if "subseq hs ?next" for hs
  proof -
    have "subseq (gs @ hs) ((gs @ r_held r1) @ map raw (server_frames [a]))"
      using list_emb_append_mono [OF subseq_order.order_refl that, of gs] by simp
    also have "subseq \<dots> ((r_held r @ map raw (server_frames as1)) @ map raw (server_frames [a]))"
      by (rule list_emb_append_mono [OF gs(2) subseq_order.order_refl])
    also have "subseq \<dots> (r_held r @ map raw (server_frames as))"
      unfolding as app by (intro prefix_imp_subseq) (simp add: prefix_def)
    finally show ?thesis .
  qed
  show ?thesis
  proof (cases q)
    case (Inl e)
    with error_order [of env a r1 e r'] last obtain p where
      "to_client r' = to_client r1 @ p" "prefix p (concat ?next)" by auto
    with gs(1) sub [OF subseq_order.order_refl] Some Inl show ?thesis
      by (intro exI [of _ gs] exI [of _ ?next] exI [of _ p]) simp
  next
    case (Inr u)
    with done_order [of env a r1 r'] last obtain gs' where
      "to_client r' = to_client r1 @ concat gs'" "subseq gs' ?next" by auto
    with gs(1) sub [of gs'] show ?thesis
      by (intro exI [of _ "gs @ gs'"] exI [of _ "[]"]) simp
  qed
qed

text \<open>The session that commits, with some scenarios, on connections that do not fail.\<close>

definition open_stream :: Stream where
  "open_stream = Plain \<lparr>tcp_chan = \<lparr>ch_out = \<lparr>written = [], room = None\<rparr>, ch_shut = False, ch_shut_err = None\<rparr>,
     tcp_linger_zero = False, tcp_linger_err = None, tcp_nodelay_err = None\<rparr>"

definition example_env :: Env where
  "example_env = \<lparr>env_sha = \<lambda>sql. sql, env_to_json = example_to_json,
     env_parse_duration = \<lambda>_. Inl (External ''no duration'')\<rparr>"

definition example_relay :: "Matcher list \<Rightarrow> Relay" where
  "example_relay ms = \<lparr>r_id = 1, r_state = commit_session,
     r_net = \<lparr>n_trace = \<lparr>written = [], room = None\<rparr>, n_frontend = open_stream, n_upstream = open_stream,
       n_truncate = None, n_matchers = ms, n_clock = 0\<rparr>,
     r_held = [], r_held_size = 0\<rparr>"

declare example_env_def [example_defs] example_relay_def [example_defs] open_stream_def [example_defs]

lemma example_env_simps [simp]: "env_sha example_env = (\<lambda>sql. sql)" "total_json example_env"
  by (simp_all add: example_env_def total_json_def example_to_json_def)

lemma example_relay_simps [simp]:
  "r_state (example_relay ms) = commit_session" "r_held (example_relay ms) = []"
  "r_held_size (example_relay ms) = 0" "n_matchers (r_net (example_relay ms)) = ms"
  "to_client (example_relay ms) = []" "to_server (example_relay ms) = []"
  "n_truncate (r_net (example_relay ms)) = None" "room (n_trace (r_net (example_relay ms))) = None"
  by (simp_all add: example_defs delivered_def)

lemma example_calm [simp]: "calm (example_relay [])"
  by (simp add: calm_def healthy_def example_defs)

theorem server_order_preserved_witness:
  "\<exists>res r' gs. relay example_env [ServerNext (Inr (Some notice))] (example_relay []) = (res, r') \<and>
     res = None \<and> to_client r' = concat gs \<and> subseq gs [raw notice]"
proof -
  from relay_calm [of example_env "example_relay []" "[ServerNext (Inr (Some notice))]"] obtain r' where
    r: "relay example_env [ServerNext (Inr (Some notice))] (example_relay []) = (None, r')"
    by auto
  from server_order_preserved [OF r] r show ?thesis by (auto dest: subseq_appendD simp del: relay.simps)
qed

text \<open>
  C5: until a scenario fires the proxy is transparent. If the loop still runs and no matcher has fired,
  the server has been sent exactly the bytes of the client's frames, in order, and the client exactly
  the bytes of the server's frames, in order, except for the frames that are held back, which are the
  latest ones.
\<close>

theorem transparent_until_fault:
  assumes "relay env as r = (None, r')" and "\<forall>m \<in> set (n_matchers (r_net r')). \<not> m_fired m"
    and "n_truncate (r_net r) = None"
  shows "to_server r' = to_server r @ bytes_of (client_frames as) \<and>
    to_client r' @ concat (r_held r') = to_client r @ concat (r_held r) @ bytes_of (server_frames as)"
  using relay_transparent [of env as r r'] assms by (simp add: unfired_def)

theorem transparent_until_fault_witness:
  "\<exists>r'. relay example_env [ServerNext (Inr (Some notice))] (example_relay []) = (None, r') \<and>
     to_client r' @ concat (r_held r') = raw notice"
proof -
  from relay_calm [of example_env "example_relay []" "[ServerNext (Inr (Some notice))]"] obtain r' where
    r: "relay example_env [ServerNext (Inr (Some notice))] (example_relay []) = (None, r')" "calm r'"
    by auto
  from transparent_until_fault [OF r(1)] r show ?thesis by (auto simp: calm_def simp del: relay.simps)
qed

end
