(* ===== verification/Relay_Faults.thy ===== *)
theory Relay_Faults
  imports Relay_Props
begin

text \<open>
  What happens when scenarios fire: how many faults a run can have, what the trace holds, that a fault
  on a completion is decided before a byte of the completion reaches the client, and that a truncated
  result has exactly the rows asked for.
\<close>

section \<open>Counting faults\<close>

definition fired_count :: "Matcher list \<Rightarrow> nat" where
  "fired_count ms = length (filter m_fired ms)"

lemma fired_count_offered: "fired_count (offered e ms) = fired_count ms + length (firing e ms)"
proof (induction ms)
  case (Cons m ms)
  have "m_fired (snd (observe m e)) \<longleftrightarrow> m_fired m \<or> fst (observe m e)"
    and "m_fired m \<Longrightarrow> \<not> fst (observe m e)"
    by (auto simp: observe_def Let_def)
  with Cons show ?case by (auto simp: fired_count_def offered_def firing_def)
qed (simp add: fired_count_def offered_def firing_def)

lemma fired_count_offered_all: "fired_count (offered_all es ms) = fired_count ms + length (firings es ms)"
  by (induction es arbitrary: ms) (simp_all add: fired_count_offered)

lemma fired_count_le: "fired_count ms \<le> length ms"
  by (simp add: fired_count_def)

fun is_fault :: "Record \<Rightarrow> bool" where
  "is_fault (Fault e s) = True"
| "is_fault _ = False"

lemma trace_records_faults: "length (filter is_fault (trace_records ms es)) = length (firings es ms)"
proof (induction es arbitrary: ms)
  case (Cons e es)
  have "filter is_fault (map (Fault e) ss) = map (Fault e) ss" for ss by (induction ss) simp_all
  with Cons show ?case by simp
qed simp

lemma follows_fired_count:
  "follows env ins r r' \<Longrightarrow>
   fired_count (n_matchers (r_net r')) = fired_count (n_matchers (r_net r)) + length (fired_in env ins r)"
  by (simp add: follows_def fired_count_offered_all)

section \<open>Held frames\<close>

text \<open>Once something is held, nothing is written to the client before the next ReadyForQuery.\<close>

lemma step_holds:
  assumes "relay_step env a r = (Inr True, r')" and "r_held r \<noteq> []"
    and "\<forall>f \<in> set (server_frames [a]). tag f \<noteq> CHR ''Z''"
  shows "to_client r' = to_client r \<and> prefix (r_held r) (r_held r')"
  using assms(1)
proof (cases rule: relay_step_onE)
  case (client f)
  with client_frame_Inr [OF client(2)] show ?thesis by auto
next
  case (server f)
  with server_frame_on [OF server(2)] assms(2,3) show ?thesis by (auto simp: placed_def split: if_splits)
qed

lemma relay_holds:
  assumes "relay env as r = (None, r')" and "r_held r \<noteq> []"
    and "\<forall>f \<in> set (server_frames as). tag f \<noteq> CHR ''Z''"
  shows "to_client r' = to_client r \<and> prefix (r_held r) (r_held r')"
  using assms
proof (induction as arbitrary: r)
  case (Cons a as)
  then obtain r1 where a: "relay_step env a r = (Inr True, r1)" and as: "relay env as r1 = (None, r')"
    by (auto simp: relay.run_Cons_None simp del: relay.simps)
  have z: "\<forall>f \<in> set (server_frames [a]). tag f \<noteq> CHR ''Z''" "\<forall>f \<in> set (server_frames as). tag f \<noteq> CHR ''Z''"
    using Cons.prems(3) server_frames_Cons [of a as] by auto
  note one = step_holds [OF a Cons.prems(2) z(1)]
  then have "r_held r1 \<noteq> []" using Cons.prems(2) by auto
  from one Cons.IH [OF as this z(2)] show ?case by (auto intro: prefix_order.order_trans)
qed simp

section \<open>The decisive frame\<close>

text \<open>A matcher is not disturbed by events of other names.\<close>

lemma observe_other: "ev_event e \<noteq> when_event (sc_when (m_scenario m)) \<Longrightarrow> observe m e = (False, m)"
  by (simp add: observe_def)

lemma firings_member:
  assumes "m \<in> set ms" and "e \<in> set es" and "fst (observe m e)" and "distinct (map ev_event es)"
  shows "m_scenario m \<in> set (firings es ms)"
  using assms
proof (induction es arbitrary: ms)
  case (Cons x es)
  show ?case
  proof (cases "x = e")
    case True
    with Cons.prems show ?thesis by (auto simp: firing_def)
  next
    case False
    with Cons.prems have "e \<in> set es" "ev_event x \<noteq> ev_event e" by auto
    with Cons.prems(3) have "observe m x = (False, m)"
      using observe_TrueD(2) [of m e] by (simp add: observe_other)
    with Cons.prems(1) have "m \<in> set (offered x ms)" by (force simp: offered_def)
    with Cons.IH [OF _ \<open>e \<in> set es\<close>] Cons.prems show ?thesis by simp
  qed
qed simp

lemma ready_names_distinct: "distinct (ready_names new s @ [''connection.ready''])"
  by (cases "completed_event new s")
    (auto simp: ready_names_def dest!: completed_event_range)

lemma completion_events_distinct:
  assumes "e \<in> set (fst (backend z s))" and "ev_event e \<in> completions"
  shows "tag z = CHR ''Z'' \<and> distinct (map ev_event (fst (backend z s)))"
proof -
  from assms(1) have "ev_event e \<in> set (backend_names z s)" by (auto simp flip: names_backend)
  with backend_names_completion [OF assms(2)] obtain new where
    "tag z = CHR ''Z''" "ready_status z = Some new" by blast
  then show ?thesis
    using ready_names_distinct [of new s] by (simp add: names_backend backend_names_def)
qed

text \<open>A frame on which a scenario that suppresses or disconnects fires is not written to the client.\<close>

lemma server_frame_silenced:
  assumes "s \<in> set (fired_in env [FromServer f] r)"
    and "suppresses (sc_action s) \<or> act_disconnect (sc_action s) \<noteq> None"
  shows "to_client (snd (server_frame env f r)) = to_client r"
proof -
  obtain q r1 where o: "observing env (FromServer f) r = (q, r1)" by fastforce
  with observing_passed [of env "FromServer f" r] have r1: "to_client r1 = to_client r"
    by (simp add: passed_eq)
  show ?thesis
  proof (cases q)
    case (Inl x)
    with o r1 show ?thesis by (simp add: server_frame_def Let_def)
  next
    case (Inr d)
    with observing_Inr(5) [of env "FromServer f" r d r1] o assms have d: "d_disconnect d \<or> d_suppress d"
      by auto
    obtain c n where t: "take_row f (r_net r1) = (c, n)" by fastforce
    then have n: "to_client (r1\<lparr>r_net := n\<rparr>) = to_client r"
      using r1 by (auto simp: take_row_def split: if_splits option.splits)
    have dl: "\<exists>r2. deliver f g True r' = (Inr (), r2) \<and> to_client r2 = to_client r'" for g r'
      by (simp add: deliver_def deliver_ready_def deliver_other_def)
    have cut: "to_client (snd (cut_result env r')) = to_client r'" for r'
      using cut_result_passed [of env r'] by (simp add: passed_eq)
    show ?thesis
    proof (cases "d_disconnect d")
      case True
      with o Inr r1 show ?thesis by (simp add: server_frame_def Let_def)
    next
      case False
      with d have "d_suppress d" by simp
      moreover obtain r2 where "deliver f (gate f r) True (r1\<lparr>r_net := n\<rparr>) = (Inr (), r2)"
        "to_client r2 = to_client r" using dl [of "gate f r" "r1\<lparr>r_net := n\<rparr>"] n by auto
      ultimately show ?thesis
        using False o Inr t n cut by (simp add: server_frame_def Let_def)
    qed
  qed
qed

text \<open>A scenario that resets the client and fires without an error ends the loop with the reset set.\<close>

lemma server_frame_resets:
  assumes "s \<in> set (fired_in env [FromServer f] r)" and "resets_client s"
    and "server_frame env f r = (Inr go, r')"
  shows "\<not> go \<and> aborts_client r'"
proof -
  from assms(2) have "act_disconnect (sc_action s) \<noteq> None" by (simp add: resets_client_def)
  with assms(1) have dis: "d_disconnect d" if "observing env (FromServer f) r = (Inr d, r1)" for d r1
    using observing_Inr(5) [OF that] by auto
  from assms(3) show ?thesis
  proof (cases rule: server_frame_cases)
    case (dropped d r1)
    with observing_Inr(7) [OF dropped(1)] assms(1,2) show ?thesis by auto
  qed (use dis in auto)
qed

section \<open>The gate\<close>

lemma gate_tag: "gate f r \<Longrightarrow> tag f = CHR ''C''"
  by (auto simp: gate_def completion_boundary_def split: if_splits)

text \<open>Between CommandComplete and ReadyForQuery: the server sends neither another completion nor an end.\<close>

definition quiet_arrivals :: "arrival list \<Rightarrow> bool" where
  "quiet_arrivals as \<longleftrightarrow> (\<forall>f \<in> set (server_frames as). tag f \<notin> {CHR ''C'', CHR ''s'', CHR ''Z''})"

lemma quiet_run_inputs:
  assumes "run_inputs as ins" and "quiet_arrivals as"
  shows "list_all quiet ins"
proof -
  have one: "list_all quiet i" if "step_inputs a i" "quiet_arrivals [a]" for a i
    using that
    by (cases "(a, i)" rule: step_inputs.cases) (auto simp: client_inputs_def quiet_def quiet_arrivals_def)
  from assms(1) obtain inss where "list_all2 step_inputs as inss" "ins = concat inss"
    by (auto simp: run_inputs_def)
  then show ?thesis using assms(2)
  proof (induction as inss arbitrary: ins rule: list_all2_induct)
    case (Cons a as i inss)
    from Cons.prems(2) have "quiet_arrivals [a]" "quiet_arrivals as"
      by (auto simp: quiet_arrivals_def server_frames_Cons [of a as])
    with Cons one [of a i] show ?case by simp
  qed simp
qed

text \<open>No scenario fired between two states.\<close>

definition same_fired :: "Relay \<Rightarrow> Relay \<Rightarrow> bool" where
  "same_fired r r' \<longleftrightarrow> map m_fired (n_matchers (r_net r')) = map m_fired (n_matchers (r_net r))"

lemma same_fired_count: "same_fired r r' \<Longrightarrow> fired_count (n_matchers (r_net r')) = fired_count (n_matchers (r_net r))"
proof -
  assume "same_fired r r'"
  moreover have "fired_count ms = length (filter id (map m_fired ms))" for ms
    by (induction ms) (simp_all add: fired_count_def)
  ultimately show ?thesis by (metis same_fired_def)
qed

lemma follows_no_fault:
  assumes "follows env ins r r'" and "follows env ins' r' r''"
    and "fired_count (n_matchers (r_net r'')) = fired_count (n_matchers (r_net r))"
  shows "fired_in env ins r = []" "fired_count (n_matchers (r_net r'')) = fired_count (n_matchers (r_net r'))"
  using assms(3) follows_fired_count [OF assms(1)] follows_fired_count [OF assms(2)] by simp_all

text \<open>A matcher that has not fired yet asked for the gate all along.\<close>

lemma follows_needs_gate:
  assumes "follows env ins r r'" and "m \<in> set (n_matchers (r_net r'))" and "needs_gate m b"
  shows "\<exists>m0 \<in> set (n_matchers (r_net r)). needs_gate m0 b"
proof -
  from assms(1,2) obtain m0 where m0: "m0 \<in> set (n_matchers (r_net r))"
    and m: "m = snd (feed observe m0 (events_of env ins r))"
    by (auto simp: follows_def offered_all_feed)
  have "\<not> m_fired m0" using assms(3) m by (auto simp: needs_gate_def matcher.feed_spent)
  with assms(3) m have "needs_gate m0 b" by (simp add: needs_gate_def matcher.feed_key)
  with m0 show ?thesis by blast
qed

text \<open>The completion of a statement was announced to the gate at its CommandComplete frame.\<close>

lemma completion_announced:
  assumes "server_frame env f r = (Inr True, r1)" and "tag f = CHR ''C''"
    and "front_of (cycles (r_state r)) = Some c" "st_class (event_statement False c) \<noteq> Begin"
    and "relay env as r1 = (None, r2)" and "quiet_arrivals as"
    and "e \<in> set (events_of env [FromServer z] r2)" "ev_event e \<in> completions"
  shows "completion_boundary f (r_state r) = Some (ev_event e)"
proof -
  from relay_follows [OF assms(5)] obtain ins where ins: "run_inputs as ins" "follows env ins r1 r2" by blast
  from server_frame_on [OF assms(1)] have "follows env [FromServer f] r r1" by blast
  with ins(2) have st: "r_state r1 = snd (backend f (r_state r))" "r_state r2 = snd (cs_run (env_sha env) ins (r_state r1))"
    by (simp_all add: follows_def conn.run_single cs_step_simps)
  have "e \<in> set (fst (backend z (r_state r2)))"
    using assms(7) by (simp add: events_of_def conn.run_single cs_step_simps)
  then have "ev_event e \<in> set (backend_names z (r_state r2))" by (auto simp flip: names_backend)
  with backend_names_completion [OF assms(8)] obtain new where
    "completed_event new (r_state r2) = Some (ev_event e)" by blast
  from gate_agrees [OF assms(2,3) quiet_run_inputs [OF ins(1) assms(6)] this [unfolded st]] assms(4)
  show ?thesis by blast
qed

text \<open>
  A frame whose completion was announced and that a matcher still waits for is held until ReadyForQuery,
  unless a scenario suppressed it at once.
\<close>

lemma gate_holds:
  assumes c: "server_frame env f r = (Inr True, r1)" and b: "completion_boundary f (r_state r) = Some n"
    and run: "relay env as r1 = (None, r2)" and ready: "\<forall>g \<in> set (server_frames as). tag g \<noteq> CHR ''Z''"
    and m: "m \<in> set (n_matchers (r_net r2))" "needs_gate m n"
  shows "to_client r1 = to_client r \<and>
    (to_client r2 = to_client r \<or> (\<exists>s \<in> set (fired_in env [FromServer f] r). suppresses (sc_action s)))"
proof -
  note one = server_frame_on [OF c]
  from relay_follows [OF run] obtain ins where "follows env ins r1 r2" by blast
  with one follows_trans have "follows env ([FromServer f] @ ins) r r2" by blast
  from follows_needs_gate [OF this m] b have g: "gate f r" by (auto simp: gate_def list_ex_iff)
  show ?thesis
  proof (cases "\<exists>s \<in> set (fired_in env [FromServer f] r). suppresses (sc_action s)")
    case True
    with one show ?thesis by (auto simp: placed_def)
  next
    case False
    with one g gate_tag [OF g] have held: "to_client r1 = to_client r" "r_held r1 \<noteq> []"
      by (auto simp: placed_def)
    from relay_holds [OF run held(2) ready] held(1) show ?thesis by simp
  qed
qed

section \<open>Truncation\<close>

abbreviation is_row :: "Frame \<Rightarrow> bool" where
  "is_row f \<equiv> tag f = CHR ''D''"

definition row_count :: "Frame list \<Rightarrow> nat" where
  "row_count fs = length (filter is_row fs)"

lemma row_count_simps [simp]:
  "row_count [] = 0" "row_count (f # fs) = (if is_row f then Suc (row_count fs) else row_count fs)"
  "row_count (fs @ gs) = row_count fs + row_count gs"
  by (simp_all add: row_count_def)

text \<open>A frame of a result while a truncation is pending and nothing is held.\<close>

lemma server_frame_row:
  assumes "server_frame env f r = (Inr go, r')" and "fired_in env [FromServer f] r = []"
    and "n_truncate (r_net r) = Some k" and "r_held r = []" and "tag f \<noteq> CHR ''C''" "tag f \<noteq> CHR ''Z''"
  shows "go \<longleftrightarrow> \<not> is_row f \<or> 1 < unat k"
    and "to_client r' = to_client r @ (if is_row f \<and> k = 0 then [] else raw f)"
    and "go \<Longrightarrow> r_held r' = []"
    and "go \<Longrightarrow> n_truncate (r_net r') = Some (if is_row f then k - 1 else k)"
    and "\<not> go \<Longrightarrow> aborts_client r'"
proof -
  have obs: "to_client r1 = to_client r \<and> r_held r1 = [] \<and> n_truncate (r_net r1) = Some k \<and>
      \<not> d_disconnect d \<and> \<not> d_suppress d" if "observing env (FromServer f) r = (Inr d, r1)" for d r1
    using observing_Inr(2,4,5,6) [OF that] assms(2-4) by (simp add: passed_eq Disposition_default_def)
  have g: "\<not> gate f r" using gate_tag [of f r] assms(5) by auto
  have one: "1 < unat k \<longleftrightarrow> k \<noteq> 0 \<and> k - 1 \<noteq> 0" by unat_arith
  have row: "to_client r2 = to_client r @ raw f \<and> r_held r2 = [] \<and>
      n_truncate (r_net r2) = Some (if is_row f then k - 1 else k) \<and> (is_row f \<longrightarrow> k \<noteq> 0)"
    if "observing env (FromServer f) r = (Inr d, r1)" "take_row f (r_net r1) = (False, n)"
      "deliver f (gate f r) (d_suppress d) (r1\<lparr>r_net := n\<rparr>) = (Inr (), r2)" for d r1 n r2
  proof -
    note o = obs [OF that(1)] and dl = deliver_Inr [OF that(3)]
    have n: "n_frontend n = n_frontend (r_net r1)" "n_truncate n = Some (if is_row f then k - 1 else k)"
      "is_row f \<longrightarrow> k \<noteq> 0"
      using that(2) o by (auto simp: take_row_def split: if_splits)
    with dl(3,4) o g assms(6) show ?thesis by (simp add: placed_def)
  qed
  have "(go \<longleftrightarrow> \<not> is_row f \<or> 1 < unat k) \<and> to_client r' = to_client r @ (if is_row f \<and> k = 0 then [] else raw f) \<and>
    (go \<longrightarrow> r_held r' = [] \<and> n_truncate (r_net r') = Some (if is_row f then k - 1 else k)) \<and>
    (\<not> go \<longrightarrow> aborts_client r')"
    using assms(1)
  proof (cases rule: server_frame_cases)
    case (dropped d r1)
    with obs show ?thesis by blast
  next
    case (ended d r1)
    with obs [OF ended(1)] cut_result_Inr [OF ended(5)] show ?thesis by simp
  next
    case (last d r1 n r2)
    with row [OF last(1,3,4)] cut_result_Inr [OF last(7)] one show ?thesis by simp
  next
    case (on d r1 n)
    with row [OF on(1,3,4)] one show ?thesis by auto
  qed
  then show "go \<longleftrightarrow> \<not> is_row f \<or> 1 < unat k"
    "to_client r' = to_client r @ (if is_row f \<and> k = 0 then [] else raw f)"
    "go \<Longrightarrow> r_held r' = []" "go \<Longrightarrow> n_truncate (r_net r') = Some (if is_row f then k - 1 else k)"
    "\<not> go \<Longrightarrow> aborts_client r'" by blast+
qed

lemma relay_rows:
  assumes "relay env as r = (None, r')" and "n_truncate (r_net r) = Some k" and "r_held r = []"
    and "\<forall>f \<in> set (server_frames as). tag f \<noteq> CHR ''C'' \<and> tag f \<noteq> CHR ''Z''"
    and "fired_count (n_matchers (r_net r')) = fired_count (n_matchers (r_net r))"
  shows "to_client r' = to_client r @ bytes_of (server_frames as) \<and> r_held r' = [] \<and>
    (\<exists>j. n_truncate (r_net r') = Some j \<and> unat j + row_count (server_frames as) = unat k \<and>
       (row_count (server_frames as) = 0 \<or> 0 < unat j))"
  using assms
proof (induction as arbitrary: r k)
  case (Cons a as)
  then obtain r1 where a: "relay_step env a r = (Inr True, r1)" and as: "relay env as r1 = (None, r')"
    by (auto simp: relay.run_Cons_None simp del: relay.simps)
  from relay_follows [OF as] obtain ins' where later: "follows env ins' r1 r'" by blast
  have tags: "\<forall>f \<in> set (server_frames as). tag f \<noteq> CHR ''C'' \<and> tag f \<noteq> CHR ''Z''"
    using Cons.prems(4) server_frames_Cons [of a as] by auto
  from a show ?case
  proof (cases rule: relay_step_onE)
    case (client f)
    from client_frame_Inr [OF client(2)] obtain ins where
      c: "follows env ins r r1" "to_client r1 = to_client r" "r_held r1 = r_held r"
        "n_truncate (r_net r1) = truncated (fired_in env ins r) (n_truncate (r_net r))" by blast
    note nf = follows_no_fault [OF c(1) later Cons.prems(5)]
    from Cons.IH [OF as _ _ tags nf(2), of k] c nf(1) Cons.prems(2,3) client(1) show ?thesis by simp
  next
    case (server f)
    note on = server_frame_on [OF server(2)]
    note nf = follows_no_fault [OF conjunct1 [OF on] later Cons.prems(5)]
    have f: "tag f \<noteq> CHR ''C''" "tag f \<noteq> CHR ''Z''" using Cons.prems(4) server(1) by auto
    note row = server_frame_row [OF server(2) nf(1) Cons.prems(2,3) f, simplified]
    from Cons.IH [OF as row(4,3) tags nf(2)] row(1,2) server(1) show ?thesis
      by (auto simp: unat_minus_one split: if_splits)
  qed
qed simp

section \<open>The trace\<close>

text \<open>Like \<open>follows\<close>, for a run that may have ended: some more records may have been written at the end.\<close>

definition ended_follows :: "Env \<Rightarrow> input list \<Rightarrow> Record list \<Rightarrow> Relay \<Rightarrow> Relay \<Rightarrow> bool" where
  "ended_follows env ins extra r r' \<longleftrightarrow>
     n_matchers (r_net r') = offered_all (events_of env ins r) (n_matchers (r_net r)) \<and>
     n_clock (r_net r') = n_clock (r_net r) + total_delay env (fired_in env ins r) \<and>
     logs env (trace_records (n_matchers (r_net r)) (events_of env ins r) @ extra) (r_net r) (r_net r')"

lemma follows_ended: "follows env ins r r' \<Longrightarrow> ended_follows env ins [] r r'"
  by (simp add: follows_def ended_follows_def)

lemma follows_ended_trans:
  assumes "follows env ins r r'" and "ended_follows env ins' extra r' r''"
  shows "ended_follows env (ins @ ins') extra r r''"
  using assms logs_trans [of env _ "r_net r" "r_net r'" _ "r_net r''"]
  by (simp add: follows_def ended_follows_def events_of_def conn.run_append trace_records_append firings_append)

lemma ended_follows_cut:
  assumes "follows env ins r r1" and "same_but_streams r1 r2" and "cut_result env r2 = (Inr go, r')"
  shows "ended_follows env ins [Lifecycle (r_id r) ''result.truncated'' []] r r'"
proof -
  note c = cut_result_Inr [OF assms(3)] and f = same_but_streams_follows [OF assms(1,2)]
  from f have "r_id r2 = r_id r" by (simp add: follows_def)
  with c(5,8,10) f show ?thesis by (auto simp: follows_def ended_follows_def intro: logs_trans)
qed

lemma done_follows:
  assumes "relay_step env a r = (Inr False, r')"
  shows "\<exists>ins extra. step_inputs a ins \<and> ended_follows env ins extra r r' \<and>
    extra \<in> {[], [Lifecycle (r_id r) ''result.truncated'' []]}"
  using assms
proof (cases rule: relay_step_doneE)
  case (client f)
  with client_frame_Inr [OF client(2)] follows_ended show ?thesis by fastforce
next
  case client_eof
  with write_server_Inr(1) [OF client_eof(2)] same_but_streams_follows [OF follows_refl] follows_ended
  show ?thesis by fastforce
next
  case server_eof
  with write_client_Inr(1) [OF server_eof(2)] same_but_streams_follows [OF follows_refl] follows_ended
  show ?thesis by fastforce
next
  case (server f)
  have "\<exists>extra \<in> {[], [Lifecycle (r_id r) ''result.truncated'' []]}. ended_follows env [FromServer f] extra r r'"
    using server(2)
  proof (cases rule: server_frame_cases)
    case (dropped d r1)
    with observing_Inr(1) [OF dropped(1)] follows_ended show ?thesis by blast
  next
    case (ended d r1)
    have "same_but_streams r1 r1" by (simp add: same_but_streams_def)
    from ended_follows_cut [OF observing_Inr(1) [OF ended(1)] this ended(5)] show ?thesis by blast
  next
    case (last d r1 n r2)
    have "n_matchers n = n_matchers (r_net r1)" "n_trace n = n_trace (r_net r1)" "n_clock n = n_clock (r_net r1)"
      using last(3) by (auto simp: take_row_def split: if_splits option.splits)
    with deliver_Inr(1) [OF last(4)] have "same_but_streams r1 r2" by (simp add: same_but_streams_def)
    from ended_follows_cut [OF observing_Inr(1) [OF last(1)] this last(7)] show ?thesis by blast
  qed simp_all
  with server(1) show ?thesis by auto
qed

lemma run_inputs_snoc: "run_inputs as ins \<Longrightarrow> step_inputs a i \<Longrightarrow> run_inputs (as @ [a]) (ins @ i)"
proof -
  assume "run_inputs as ins" "step_inputs a i"
  then obtain inss where "list_all2 step_inputs as inss" "ins = concat inss" by (auto simp: run_inputs_def)
  with \<open>step_inputs a i\<close> have "list_all2 step_inputs (as @ [a]) (inss @ [i])" "ins @ i = concat (inss @ [i])"
    by (simp_all add: list_all2_appendI)
  then show ?thesis unfolding run_inputs_def by blast
qed

lemma relay_id: "relay env as r = (None, r') \<Longrightarrow> r_id r' = r_id r"
  using relay_follows [of env as r r'] by (auto simp: follows_def)

section \<open>Faults on connections that do not fail\<close>

definition net_healthy :: "Net \<Rightarrow> bool" where
  "net_healthy n \<longleftrightarrow> healthy (n_frontend n) \<and> healthy (n_upstream n) \<and> room (n_trace n) = None"

definition delay_parses :: "Env \<Rightarrow> Scenario \<Rightarrow> bool" where
  "delay_parses env s \<longleftrightarrow>
     (\<forall>d. act_delay (sc_action s) = Some d \<longrightarrow> (\<exists>t. env_parse_duration env (del_duration d) = Inr t))"

lemma record_healthy:
  assumes "net_healthy n" and "env_to_json env r = Inr l"
  shows "\<exists>n'. on_trace (record_line (env_to_json env) r) n = (Inr (), n') \<and> net_healthy n' \<and> n_matchers n' = n_matchers n"
  using assms by (simp add: net_healthy_def on_part_def record_line_def)

lemma disconnect_healthy:
  assumes "net_healthy n"
  shows "\<exists>n'. disconnect dc n = (Inr (), n') \<and> net_healthy n'"
proof -
  obtain s1 s2 where "reset (n_frontend n) = (Inr (), s1)" "healthy s1"
    "stream_shutdown (n_frontend n) = (Inr (), s2)" "healthy s2"
    using healthy_ops(2,3) [of "n_frontend n"] assms by (auto simp: net_healthy_def)
  moreover obtain s3 s4 where "reset (n_upstream n) = (Inr (), s3)" "healthy s3"
    "stream_shutdown (n_upstream n) = (Inr (), s4)" "healthy s4"
    using healthy_ops(2,3) [of "n_upstream n"] assms by (auto simp: net_healthy_def)
  ultimately show ?thesis
    using assms by (simp add: disconnect_def on_part_def net_healthy_def split: Side.split Mode.split)
qed

lemma fire_healthy:
  assumes "net_healthy n" and "env_to_json env (Fault e s) = Inr l" and "delay_parses env s"
  shows "\<exists>d' n'. fire env e s d n = (Inr d', n') \<and> net_healthy n'"
proof -
  from record_healthy [OF assms(1,2)] obtain n1 where
    n1: "on_trace (record_line (env_to_json env) (Fault e s)) n = (Inr (), n1)" "net_healthy n1" by blast
  from n1(2) assms(3) obtain n2 where n2: "delay_for env (act_delay (sc_action s)) n1 = (Inr (), n2)" "net_healthy n2"
    by (cases "act_delay (sc_action s)") (auto simp: delay_for_def delay_parses_def net_healthy_def humantime_duration_def)
  have "net_healthy (set_truncate (act_truncate_result (sc_action s)) n2)"
    using n2(2) by (simp add: set_truncate_def net_healthy_def split: option.split)
  with disconnect_healthy n1 n2 show ?thesis
    by (cases "act_disconnect (sc_action s)") (force simp: fire_def Let_def and_then_Inr)+
qed

lemma offer_healthy:
  assumes "net_healthy n" and "\<forall>s \<in> set (firing e ms). delay_parses env s \<and> (\<exists>l. env_to_json env (Fault e s) = Inr l)"
  shows "\<exists>d' n'. offer env e ms d n = (Inr d', offered e ms, n') \<and> net_healthy n'"
  using assms
proof (induction ms arbitrary: d n)
  case (Cons m ms)
  obtain fired m' where ob: "observe m e = (fired, m')" by fastforce
  then have m': "m_scenario m' = m_scenario m" using observe_scenario [of m e] by simp
  have "\<exists>d1 n1. (if fired then fire env e (m_scenario m') d n else (Inr d, n)) = (Inr d1, n1) \<and> net_healthy n1"
    using Cons.prems fire_healthy [of n env e "m_scenario m"] ob m' by (auto simp: firing_def)
  then obtain d1 n1 where 1: "(if fired then fire env e (m_scenario m') d n else (Inr d, n)) = (Inr d1, n1)" "net_healthy n1"
    by blast
  from Cons.IH [OF 1(2), of d1] Cons.prems(2) ob obtain d2 n2 where
    "offer env e ms d1 n1 = (Inr d2, offered e ms, n2)" "net_healthy n2"
    by (auto simp: firing_def split: if_splits)
  with 1 ob show ?case by (simp add: offered_def)
qed (simp add: offered_def)

lemma apply_loop_healthy:
  assumes "net_healthy n" and "\<forall>r \<in> set (trace_records (n_matchers n) es). \<exists>l. env_to_json env r = Inr l"
    and "\<forall>m \<in> set (n_matchers n). delay_parses env (m_scenario m)"
  shows "\<exists>d' n'. apply_loop env es d n = (Inr d', n') \<and> net_healthy n'"
  using assms
proof (induction es arbitrary: d n)
  case (Cons e es)
  from Cons.prems(2) obtain l where "env_to_json env (Semantic e) = Inr l" by auto
  from record_healthy [OF Cons.prems(1) this] obtain n1 where
    n1: "on_trace (record_event (env_to_json env) e) n = (Inr (), n1)" "net_healthy n1" "n_matchers n1 = n_matchers n"
    by (auto simp: record_event_def)
  have "\<forall>s \<in> set (firing e (n_matchers n)). delay_parses env s \<and> (\<exists>l. env_to_json env (Fault e s) = Inr l)"
    using Cons.prems(2,3) by (auto simp: firing_def)
  from offer_healthy [OF n1(2) this, of d] obtain d1 n2 where
    n2: "offer env e (n_matchers n) d n1 = (Inr d1, offered e (n_matchers n), n2)" "net_healthy n2" by blast
  let ?n = "n2\<lparr>n_matchers := offered e (n_matchers n)\<rparr>"
  have 1: "apply_event env e d n = (Inr d1, ?n)" using n1 n2 by (simp add: apply_event_def)
  have "net_healthy ?n" using n2(2) by (simp add: net_healthy_def)
  moreover have "\<forall>m \<in> set (n_matchers ?n). delay_parses env (m_scenario m)"
    using Cons.prems(3) by (auto simp: offered_def)
  ultimately show ?case using Cons.IH [of ?n d1] Cons.prems(2) 1 by simp
qed auto

section \<open>Properties\<close>

text \<open>
  C1: a fault on a completion is never too late, where the gate was asked. Take a run in which a
  CommandComplete frame arrives and, with other traffic in both directions in between, the next
  ReadyForQuery reports the completion of the transaction; a scenario fires on that event, suppressing
  the frame or disconnecting. The frame is one at which \<^verbatim>\<open>completion_boundary\<close> named the event; this is so
  for the latest CommandComplete frame, unless it is that of a BEGIN or PortalSuspended follows it.
  Then the CommandComplete frame was not written to the client. Nothing at all has been written to it
  since before that frame, unless another scenario had already suppressed it. The frame that triggers
  the fault is not written either, even if recording the fault fails; and if the scenario resets the
  client and nothing fails, the loop ends with the socket set to abort.
\<close>

theorem completion_fault_in_time:
  assumes "server_frame env f r = (Inr True, r1)" and "tag f = CHR ''C''"
    and "relay env as r1 = (None, r2)" and "\<forall>g \<in> set (server_frames as). tag g \<noteq> CHR ''Z''"
    and "e \<in> set (events_of env [FromServer z] r2)" and "ev_event e \<in> completions"
    and "completion_boundary f (r_state r) = Some (ev_event e) \<or>
      (\<exists>c. front_of (cycles (r_state r)) = Some c \<and> st_class (event_statement False c) \<noteq> Begin) \<and>
      (\<forall>g \<in> set (server_frames as). tag g \<noteq> CHR ''C'' \<and> tag g \<noteq> CHR ''s'')"
    and "m \<in> set (n_matchers (r_net r2))" and "fst (observe m e)"
    and "suppresses (sc_action (m_scenario m)) \<or> act_disconnect (sc_action (m_scenario m)) \<noteq> None"
  shows "completion_boundary f (r_state r) = Some (ev_event e) \<and> to_client r1 = to_client r \<and>
    (to_client r2 = to_client r \<or> (\<exists>s \<in> set (fired_in env [FromServer f] r). suppresses (sc_action s))) \<and>
    to_client (snd (server_frame env z r2)) = to_client r2 \<and>
    (\<forall>go r3. resets_client (m_scenario m) \<longrightarrow> server_frame env z r2 = (Inr go, r3) \<longrightarrow>
       \<not> go \<and> aborts_client r3)"
proof -
  have "e \<in> set (fst (backend z (r_state r2)))"
    using assms(5) by (simp add: events_of_def conn.run_single cs_step_simps)
  from completion_events_distinct [OF this assms(6)] have "distinct (map ev_event (events_of env [FromServer z] r2))"
    by (simp add: events_of_def conn.run_single cs_step_simps)
  from firings_member [OF assms(8,5,9) this]
  have fired: "m_scenario m \<in> set (fired_in env [FromServer z] r2)" .
  have b: "completion_boundary f (r_state r) = Some (ev_event e)"
    using assms(4,7) completion_announced [OF assms(1,2) _ _ assms(3) _ assms(5,6)]
    by (auto simp: quiet_arrivals_def)
  from gate_holds [OF assms(1) b assms(3,4,8) observe_needs_gate [OF assms(9)]] b
    server_frame_silenced [OF fired assms(10)] server_frame_resets [OF fired]
  show ?thesis by auto
qed

lemma firings_other:
  assumes "\<forall>m \<in> set ms. when_event (sc_when (m_scenario m)) \<notin> set (map ev_event es)"
  shows "firings es ms = [] \<and> offered_all es ms = ms"
  using assms
proof (induction es)
  case (Cons e es)
  then have "\<forall>m \<in> set ms. observe m e = (False, m)" by (auto simp: observe_other)
  then have "firing e ms = []" "offered e ms = ms"
    by (auto simp: firing_def offered_def filter_empty_conv intro: map_idI)
  with Cons show ?case by simp
qed simp

lemma server_frame_held:
  assumes "total_json env" and "room (n_trace (r_net r)) = None" and "n_truncate (r_net r) = None"
    and "\<forall>m \<in> set (n_matchers (r_net r)). when_event (sc_when (m_scenario m)) \<notin> set (backend_names f (r_state r))"
    and "gate f r \<or> r_held r \<noteq> []" and "tag f \<noteq> CHR ''Z''" and "r_held_size r + length (raw f) \<le> 1024 * 1024"
  shows "\<exists>t. server_frame env f r = (Inr True,
      r\<lparr>r_state := snd (backend f (r_state r)), r_net := (r_net r)\<lparr>n_trace := t\<rparr>,
        r_held_size := r_held_size r + length (raw f), r_held := r_held r @ [raw f]\<rparr>) \<and> room t = None"
proof -
  have "map ev_event (events_of env [FromServer f] r) = backend_names f (r_state r)"
    by (simp add: events_of_def conn.run_single cs_step_simps names_backend)
  with firings_other [of "n_matchers (r_net r)" "events_of env [FromServer f] r"] assms(4)
  have no: "fired_in env [FromServer f] r = []"
    "offered_all (events_of env [FromServer f] r) (n_matchers (r_net r)) = n_matchers (r_net r)" by simp_all
  from observing_no_fault [OF assms(1) no(1) assms(2)] obtain t where
    "observing env (FromServer f) r = (Inr Disposition_default,
      r\<lparr>r_state := snd (backend f (r_state r)), r_net := (r_net r)\<lparr>n_trace := t\<rparr>\<rparr>)" "room t = None"
    by (auto simp: no(2) cs_step_simps)
  then show ?thesis
    using assms(3,5-7)
    by (auto simp: server_frame_def take_row_def Disposition_default_def deliver_def deliver_other_def Let_def)
qed

lemma event_row: "n \<noteq> ''result.row'' \<Longrightarrow> ev_row_index (fst (event n fr s)) = None"
  by (simp add: event_def Let_def)

lemma ready_event_fields:
  assumes "e \<in> set (fst (backend z s))" and "tag z = CHR ''Z''"
  shows "ev_startup e = cs_startup s" "ev_semantic_reliable e = reliable s"
    "ev_event e \<noteq> ''result.row'' \<Longrightarrow> ev_row_index e = None"
proof -
  from assms obtain new where "ready_status z = Some new" and "e \<in> set (fst (on_ready new s))"
    by (auto simp: backend_def split: option.splits)
  then have "e \<in> set (fst (emit (ready_names new s) False s)) \<or>
    e \<in> set (fst (emit [''connection.ready''] False ((snd (emit (ready_names new s) False s))\<lparr>tx_state := new\<rparr>)))"
    by (simp add: on_ready_def Let_def del: emit.simps)
  then show "ev_startup e = cs_startup s" "ev_semantic_reliable e = reliable s"
    "ev_event e \<noteq> ''result.row'' \<Longrightarrow> ev_row_index e = None"
    by (auto dest!: emit_event simp: event_row simp del: emit.simps)
qed

text \<open>The state of the example session between the two frames.\<close>

lemma example_commit_event:
  assumes "s = snd (backend commit_done commit_session)"
  shows "\<exists>e \<in> set (fst (backend ready_idle s)). ev_event e = ''transaction.commit.completed'' \<and>
    fst (observe (Matcher_new ambiguous_commit) e)"
proof -
  have "''transaction.commit.completed'' \<in> set (backend_names ready_idle s)"
    by (subst backend_names_completion) (simp_all add: completed_event_commit commit_session_done assms)
  then obtain e where e: "e \<in> set (fst (backend ready_idle s))" "ev_event e = ''transaction.commit.completed''"
    unfolding backend_emits [symmetric] by blast
  have "cs_startup s = example_meta" "reliable s"
    using commit_session_done(2) by (simp_all add: assms backend_def on_command_complete_def Let_def)
  with ready_event_fields [OF e(1)] e(2) have "fst (observe (Matcher_new ambiguous_commit) e)"
    by (simp add: observe_def Matcher_new_def occurrence_of_def selects_def is_none_or_def ambiguous_commit_def
        Selector_default_def example_meta_def Let_def)
  with e show ?thesis by blast
qed

lemma example_gate: "gate commit_done (example_relay [Matcher_new ambiguous_commit])"
  by (simp add: gate_def completion_boundary_def Let_def needs_gate_def Matcher_new_def ambiguous_commit_def)

theorem completion_fault_in_time_witness:
  "\<exists>r1 r2. server_frame example_env commit_done (example_relay [Matcher_new ambiguous_commit]) = (Inr True, r1) \<and>
    relay example_env [ServerNext (Inr (Some notice))] r1 = (None, r2) \<and>
    to_client r2 = [] \<and> to_client (snd (server_frame example_env ready_idle r2)) = []"
proof -
  let ?m = "Matcher_new ambiguous_commit"
  let ?r = "example_relay [?m]" and ?s = "snd (backend commit_done commit_session)"
  have small: "length (raw commit_done) = 12" "length (raw notice) = 11" by (simp_all add: example_frames)
  have "\<forall>m \<in> set (n_matchers (r_net ?r)). when_event (sc_when (m_scenario m)) \<notin> set (backend_names commit_done (r_state ?r))"
    by (simp add: backend_names_def Matcher_new_def ambiguous_commit_def)
  from server_frame_held [OF _ _ _ this, of example_env] example_gate obtain t where
    r1: "server_frame example_env commit_done ?r = (Inr True,
      ?r\<lparr>r_state := ?s, r_net := (r_net ?r)\<lparr>n_trace := t\<rparr>, r_held_size := 12, r_held := [raw commit_done]\<rparr>)"
    and t: "room t = None"
    by (auto simp: small)
  let ?r1 = "?r\<lparr>r_state := ?s, r_net := (r_net ?r)\<lparr>n_trace := t\<rparr>, r_held_size := 12, r_held := [raw commit_done]\<rparr>"
  have "\<forall>m \<in> set (n_matchers (r_net ?r1)). when_event (sc_when (m_scenario m)) \<notin> set (backend_names notice (r_state ?r1))"
    by (simp add: backend_names_def Let_def)
  from server_frame_held [OF _ _ _ this, of example_env] t obtain t' where
    "server_frame example_env notice ?r1 = (Inr True,
      ?r1\<lparr>r_net := (r_net ?r1)\<lparr>n_trace := t'\<rparr>, r_held_size := 23, r_held := [raw commit_done, raw notice]\<rparr>)"
    by (auto simp: small)
  then obtain r2 where run: "relay example_env [ServerNext (Inr (Some notice))] ?r1 = (None, r2)"
    and r2: "r_state r2 = ?s" "n_matchers (r_net r2) = [?m]"
    by (simp add: relay_step_def on_server_def)
  from example_commit_event [OF refl] obtain e where
    e: "e \<in> set (events_of example_env [FromServer ready_idle] r2)" "ev_event e = ''transaction.commit.completed''"
      "fst (observe ?m e)"
    by (auto simp: events_of_def conn.run_single cs_step_simps r2)
  have "fired_in example_env [FromServer commit_done] ?r = []"
    using firings_other [of "[?m]" "events_of example_env [FromServer commit_done] ?r"]
    by (simp add: events_of_def conn.run_single cs_step_simps names_backend backend_names_def Matcher_new_def ambiguous_commit_def
        flip: set_map)
  with completion_fault_in_time [OF r1 _ run _ e(1), of ?m] e(2,3) r2 r1 run show ?thesis
    by (auto simp: suppresses_def Matcher_new_def ambiguous_commit_def)
qed

text \<open>
  C9: \<^verbatim>\<open>truncate_result\<close> with \<^verbatim>\<open>after_rows: k\<close> delivers exactly \<open>k\<close> rows. From the moment the truncation is
  pending, with nothing held, every frame of the result is written as it arrives; the loop goes on
  after a row exactly while fewer than \<open>k\<close> rows have been delivered with it; and when it ends, what was
  written is a beginning of the server's frames with exactly \<open>k\<close> rows, and the client's socket is set
  to abort. Other scenarios do not fire meanwhile.
\<close>

theorem truncation_exact:
  assumes "relay env as r = (None, r1)" and "n_truncate (r_net r) = Some k" and "r_held r = []"
    and "\<forall>f \<in> set (server_frames as). tag f \<noteq> CHR ''C'' \<and> tag f \<noteq> CHR ''Z''" and "same_fired r r1"
    and "server_frame env f r1 = (Inr go, r2)" and "tag f = CHR ''D''"
    and "fired_in env [FromServer f] r1 = []"
  shows "(go \<longleftrightarrow> row_count (server_frames as) + 1 < unat k) \<and>
    (\<not> go \<longrightarrow> aborts_client r2 \<and>
      (\<exists>fs. prefix fs (server_frames as @ [f]) \<and> row_count fs = unat k \<and>
         to_client r2 = to_client r @ bytes_of fs))"
proof -
  from relay_rows [OF assms(1-4) same_fired_count [OF assms(5)]] obtain j where
    c: "to_client r1 = to_client r @ bytes_of (server_frames as)" "r_held r1 = []"
    and j: "n_truncate (r_net r1) = Some j" "unat j + row_count (server_frames as) = unat k"
      "row_count (server_frames as) = 0 \<or> 0 < unat j" by blast
  note row = server_frame_row [OF assms(6,8) j(1) c(2), unfolded assms(7), simplified]
  from row(1) j(2) have go: "go \<longleftrightarrow> row_count (server_frames as) + 1 < unat k" by linarith
  let ?fs = "if j = 0 then server_frames as else server_frames as @ [f]"
  have "row_count ?fs = unat k" if "\<not> go"
    using that row(1) j(2,3) assms(7) by (auto simp: word_unat_eq_iff not_less le_Suc_eq)
  moreover have "to_client r2 = to_client r @ bytes_of ?fs" using row(2) c(1) by simp
  moreover have "prefix ?fs (server_frames as @ [f])" by simp
  ultimately show ?thesis using go row(5) by blast
qed

text \<open>A result of which one row is to be delivered.\<close>

definition example_row :: Frame where
  "example_row = frame (CHR ''D'') ''row''"

definition truncating_relay :: Relay where
  "truncating_relay = (example_relay [])\<lparr>r_net := (r_net (example_relay []))\<lparr>n_truncate := Some 1\<rparr>\<rparr>"

lemma truncating_relay_step: "\<exists>r2. server_frame example_env example_row truncating_relay = (Inr False, r2)"
proof -
  have "fired_in example_env [FromServer example_row] truncating_relay = []"
    "room (n_trace (r_net truncating_relay)) = None"
    by (simp_all add: truncating_relay_def)
  from observing_no_fault [OF _ this] obtain t where
    o: "observing example_env (FromServer example_row) truncating_relay = (Inr Disposition_default,
      truncating_relay\<lparr>r_state := snd (cs_step (\<lambda>sql. sql) (FromServer example_row) commit_session),
        r_net := (r_net truncating_relay)\<lparr>n_trace := t, n_matchers := []\<rparr>\<rparr>)" "room t = None"
    by (auto simp: truncating_relay_def)
  have tag: "tag example_row = CHR ''D''" by (simp add: example_row_def)
  have "\<not> gate example_row truncating_relay" using gate_tag [of example_row] tag by auto
  then show ?thesis
    unfolding server_frame_def
    by (simp add: o(1) Let_def Disposition_default_def)
      (simp add: o(2) tag take_row_def deliver_def deliver_other_def cut_result_def lifecycle_def record_line_def
        example_to_json_def Disposition_default_def Let_def truncating_relay_def example_defs stream_defs and_then_def)
qed

theorem truncation_exact_witness:
  "\<exists>r2. server_frame example_env example_row truncating_relay = (Inr False, r2) \<and> aborts_client r2 \<and>
    to_client r2 = raw example_row"
proof -
  from truncating_relay_step obtain r2 where
    s: "server_frame example_env example_row truncating_relay = (Inr False, r2)" by blast
  have tag: "tag example_row = CHR ''D''" by (simp add: example_row_def)
  have r: "n_truncate (r_net truncating_relay) = Some 1" "r_held truncating_relay = []"
    "to_client truncating_relay = []" "n_matchers (r_net truncating_relay) = []"
    by (simp_all add: truncating_relay_def)
  note truncation_exact [OF _ r(1,2) _ _ s tag, of "[]", simplified]
  then have "aborts_client r2" and "\<exists>fs. prefix fs [example_row] \<and> row_count fs = 1 \<and> to_client r2 = bytes_of fs"
    by (simp_all add: same_fired_def r)
  then have "to_client r2 = raw example_row" by (auto simp: prefix_Cons)
  with s \<open>aborts_client r2\<close> show ?thesis by auto
qed

text \<open>A run that has not failed, as a sequence of inputs of the observer.\<close>

lemma relay_ended_follows:
  assumes "relay env as r = (res, r')" and "\<forall>e. res \<noteq> Some (Inl e)"
  shows "\<exists>k ins extra. run_inputs (take k as) ins \<and> (res = None \<longrightarrow> take k as = as \<and> extra = []) \<and>
    extra \<in> {[], [Lifecycle (r_id r) ''result.truncated'' []]} \<and> ended_follows env ins extra r r'"
proof (cases res)
  case None
  with relay_follows [of env as r r'] assms(1) follows_ended show ?thesis by (metis insertCI take_all_iff order_refl)
next
  case (Some q)
  then obtain u where q: "q = Inr u" using assms(2) by (cases q) auto
  from relay.run_ended [OF assms(1) [unfolded Some]] q obtain as1 a as2 r1 where
    as: "as = as1 @ a # as2" and r1: "relay env as1 r = (None, r1)" and a: "relay_step env a r1 = (Inr False, r')"
    by auto
  from relay_follows [OF r1] done_follows [OF a] relay_id [OF r1] obtain ins i extra where
    ins: "run_inputs as1 ins" "follows env ins r r1" and
    i: "step_inputs a i" "ended_follows env i extra r1 r'" "extra \<in> {[], [Lifecycle (r_id r) ''result.truncated'' []]}"
    by auto
  have "take (Suc (length as1)) as = as1 @ [a]" using as by simp
  with run_inputs_snoc [OF ins(1) i(1)] follows_ended_trans [OF ins(2) i(2)] i(3) Some show ?thesis
    by (metis option.distinct(1))
qed

text \<open>
  C3: the trace says exactly what happened. In a run that has not failed, the lines added to the trace
  are the serialised records, in order, of every event the observer emitted for the frames relayed so
  far, each followed at once by the faults fired on it, one per scenario whose matcher answers true;
  the only other record is that of a truncated result at the very end. The matchers have been shown
  exactly these events, there are at most as many faults as scenarios, and the connection has waited
  exactly as long as the delays of the fired scenarios add up to.
\<close>

theorem trace_is_exact:
  assumes "relay env as r = (res, r')" and "\<forall>e. res \<noteq> Some (Inl e)"
    and "ms = n_matchers (r_net r)"
  shows "\<exists>k ins extra es. run_inputs (take k as) ins \<and> es = fst (cs_run (env_sha env) ins (r_state r)) \<and>
    (res = None \<longrightarrow> take k as = as \<and> extra = []) \<and>
    extra \<in> {[], [Lifecycle (r_id r) ''result.truncated'' []]} \<and>
    logs env (trace_records ms es @ extra) (r_net r) (r_net r') \<and>
    n_matchers (r_net r') = map (\<lambda>m. snd (feed observe m es)) ms \<and>
    length (filter is_fault (trace_records ms es)) \<le> length ms \<and>
    n_clock (r_net r') = n_clock (r_net r) + sum_list (map (delay_of env) (firings es ms))"
proof -
  from relay_ended_follows [OF assms(1,2)]
  obtain k ins extra where k: "run_inputs (take k as) ins" "res = None \<longrightarrow> take k as = as \<and> extra = []"
    "extra \<in> {[], [Lifecycle (r_id r) ''result.truncated'' []]}" and e: "ended_follows env ins extra r r'" by blast
  have "length (filter is_fault (trace_records ms (events_of env ins r))) \<le> length ms"
    using fired_count_offered_all [of "events_of env ins r" ms] fired_count_le [of "offered_all (events_of env ins r) ms"]
    by (simp add: trace_records_faults offered_all_feed)
  with k e assms(3) show ?thesis
    by (intro exI [of _ k] exI [of _ ins] exI [of _ extra]) (auto simp: ended_follows_def offered_all_feed events_of_def total_delay_def)
qed

theorem trace_is_exact_witness:
  "\<exists>r' ins es. relay example_env [ClientNext (Inr (Some commit_query)), ServerNext (Inr (Some commit_done))] (example_relay []) =
      (None, r') \<and> run_inputs [ClientNext (Inr (Some commit_query)), ServerNext (Inr (Some commit_done))] ins \<and>
     es = fst (cs_run (\<lambda>sql. sql) ins commit_session) \<and>
     logs example_env (trace_records [] es) (r_net (example_relay [])) (r_net r')"
proof -
  let ?as = "[ClientNext (Inr (Some commit_query)), ServerNext (Inr (Some commit_done))]"
  from relay_calm [of example_env "example_relay []" ?as] obtain r' where
    r: "relay example_env ?as (example_relay []) = (None, r')" by auto
  from trace_is_exact [OF r _ refl] r show ?thesis by (auto simp del: relay.simps)
qed

end
