(* ===== verification/Select_Loop.thy ===== *)
theory Select_Loop
  imports Relay_Faults
begin

text \<open>
  The \<^verbatim>\<open>select!\<close> loop of \<^verbatim>\<open>connection\<close> (\<^verbatim>\<open>crates/pgfault-proxy/src/lib.rs\<close>) together with the two frame
  readers it polls. The loop of \<open>Relay\<close> takes the results of the readers as they come; here each
  reader has its buffer and its socket, and the scheduler decides which of them is polled. A reader
  that is polled and does not finish is dropped by \<^verbatim>\<open>select!\<close> when the other one does, and only its
  buffer survives (the comment at \<^verbatim>\<open>FrameReader\<close>).

  The loop refines the one over results, for every fragmentation of the two byte streams and every
  schedule. Every byte is accounted for: it has been sent on, is held by the gate, is in a buffer or
  is still to be read, in this order.
\<close>

section \<open>Polling a reader\<close>

text \<open>
  One turn of the loop in \<^verbatim>\<open>FrameReader::next\<close>: a frame that is complete in the buffer is returned;
  otherwise the socket is read. The reads that have not been made yet are the future of the socket;
  when there are none the reader has to wait. A read of no bytes is the end of the stream.
\<close>

datatype poll = Pending | Ready "err + Frame option"

definition poll_next :: "string \<Rightarrow> read list \<Rightarrow> poll \<times> string \<times> read list" where
  "poll_next buf rs =
     (case decode buf of
        Inl e \<Rightarrow> (Ready (Inl e), buf, rs)
      | Inr (Some f, buf') \<Rightarrow> (Ready (Inr (Some f)), buf', rs)
      | Inr (None, _) \<Rightarrow>
          (case rs of
             [] \<Rightarrow> (Pending, buf, [])
           | ReadError e # rs' \<Rightarrow> (Ready (Inl e), buf, rs')
           | Data d # rs' \<Rightarrow>
               if d = [] then (Ready (eof_result buf), buf, rs') else (Pending, buf @ d, rs')))"

section \<open>The loop\<close>

record Loop =
  l_relay :: Relay
  l_client_buf :: string
  l_client_reads :: "read list"
  l_server_buf :: string
  l_server_reads :: "read list"

text \<open>The loop at its start: both readers are \<^verbatim>\<open>FrameReader::default()\<close>.\<close>

definition Loop_new :: "Relay \<Rightarrow> read list \<Rightarrow> read list \<Rightarrow> Loop" where
  "Loop_new r client_reads server_reads =
     \<lparr>l_relay = r, l_client_buf = [], l_client_reads = client_reads,
      l_server_buf = [], l_server_reads = server_reads\<rparr>"

abbreviation on_relay :: "(Relay, 'a) io \<Rightarrow> (Loop, 'a) io" where
  "on_relay \<equiv> on_part l_relay (\<lambda>r l. l\<lparr>l_relay := r\<rparr>)"

definition poll_client :: "Env \<Rightarrow> (Loop, bool) io" where
  "poll_client env l =
     (case poll_next (l_client_buf l) (l_client_reads l) of (p, buf, rs) \<Rightarrow>
        let l1 = l\<lparr>l_client_buf := buf, l_client_reads := rs\<rparr> in
        (case p of Pending \<Rightarrow> (Inr True, l1) | Ready res \<Rightarrow> on_relay (on_client env res) l1))"

definition poll_server :: "Env \<Rightarrow> (Loop, bool) io" where
  "poll_server env l =
     (case poll_next (l_server_buf l) (l_server_reads l) of (p, buf, rs) \<Rightarrow>
        let l1 = l\<lparr>l_server_buf := buf, l_server_reads := rs\<rparr> in
        (case p of Pending \<Rightarrow> (Inr True, l1) | Ready res \<Rightarrow> on_relay (on_server env res) l1))"

datatype branch = ClientBranch | ServerBranch

definition select_step :: "Env \<Rightarrow> branch \<Rightarrow> (Loop, bool) io" where
  "select_step env b = (case b of ClientBranch \<Rightarrow> poll_client env | ServerBranch \<Rightarrow> poll_server env)"

fun select_loop :: "Env \<Rightarrow> branch list \<Rightarrow> Loop \<Rightarrow> (err + unit) option \<times> Loop" where
  "select_loop env [] l = (None, l)"
| "select_loop env (b # bs) l =
     (case select_step env b l of
        (Inl e, l') \<Rightarrow> (Some (Inl e), l')
      | (Inr go, l') \<Rightarrow> if go then select_loop env bs l' else (Some (Inr ()), l'))"

interpretation select: io_loop "select_step env" "select_loop env" for env
  by unfold_locales simp_all

section \<open>What a poll does\<close>

text \<open>A poll that is ready is a call of \<^verbatim>\<open>next\<close>; one that is not brings such a call forward.\<close>

lemma poll_next_ready:
  "poll_next buf rs = (Ready res, buf', rs') \<Longrightarrow> next_frame buf rs = (res, buf', rs')"
  by (cases rs) (auto simp: poll_next_def split: sum.splits option.splits read.splits if_splits)

lemma poll_next_pending:
  "poll_next buf rs = (Pending, buf', rs') \<Longrightarrow> rs \<noteq> [] \<Longrightarrow> next_frame buf rs = next_frame buf' rs'"
  by (cases rs) (auto simp: poll_next_def split: sum.splits option.splits read.splits if_splits)

lemma poll_next_idle: "poll_next buf [] = (Pending, buf', rs') \<Longrightarrow> buf' = buf \<and> rs' = []"
  by (auto simp: poll_next_def split: sum.splits option.splits)

lemma poll_next_frame: "poll_next buf rs = (Ready (Inr (Some f)), buf', rs') \<Longrightarrow>
    frame_ok f \<and> buf = raw f @ buf' \<and> rs' = rs"
  by (auto simp: poll_next_def eof_result_def dest: decode_SomeD
      split: sum.splits option.splits list.splits read.splits if_splits)

text \<open>The bytes a socket will still deliver.\<close>

fun bytes_left :: "read list \<Rightarrow> string" where
  "bytes_left [] = []"
| "bytes_left (Data d # rs) = d @ bytes_left rs"
| "bytes_left (ReadError e # rs) = bytes_left rs"

lemma bytes_left_Data [simp]: "bytes_left (map Data ds) = concat ds"
  by (induction ds) simp_all

lemma poll_next_waits:
  "poll_next buf rs = (Pending, buf', rs') \<Longrightarrow> buf' @ bytes_left rs' = buf @ bytes_left rs"
  by (auto simp: poll_next_def split: sum.splits option.splits list.splits read.splits if_splits)

text \<open>The ways a turn of the loop can go.\<close>

lemma select_step_cases:
  assumes "select_step env b l = (q, l')"
  obtains (client_waits) buf rs where "b = ClientBranch"
    and "poll_next (l_client_buf l) (l_client_reads l) = (Pending, buf, rs)"
    and "q = Inr True" "l' = l\<lparr>l_client_buf := buf, l_client_reads := rs\<rparr>"
  | (server_waits) buf rs where "b = ServerBranch"
    and "poll_next (l_server_buf l) (l_server_reads l) = (Pending, buf, rs)"
    and "q = Inr True" "l' = l\<lparr>l_server_buf := buf, l_server_reads := rs\<rparr>"
  | (client_ready) res buf rs r' where "b = ClientBranch"
    and "poll_next (l_client_buf l) (l_client_reads l) = (Ready res, buf, rs)"
    and "relay_step env (ClientNext res) (l_relay l) = (q, r')"
    and "l' = l\<lparr>l_client_buf := buf, l_client_reads := rs, l_relay := r'\<rparr>"
  | (server_ready) res buf rs r' where "b = ServerBranch"
    and "poll_next (l_server_buf l) (l_server_reads l) = (Ready res, buf, rs)"
    and "relay_step env (ServerNext res) (l_relay l) = (q, r')"
    and "l' = l\<lparr>l_server_buf := buf, l_server_reads := rs, l_relay := r'\<rparr>"
proof (cases b)
  case ClientBranch
  obtain p buf rs where p: "poll_next (l_client_buf l) (l_client_reads l) = (p, buf, rs)" by (metis prod_cases3)
  show thesis
  proof (cases p)
    case Pending
    with assms p ClientBranch that(1) show ?thesis by (simp add: select_step_def poll_client_def)
  next
    case (Ready res)
    obtain q' r' where "relay_step env (ClientNext res) (l_relay l) = (q', r')" by fastforce
    with Ready assms p ClientBranch that(3) [of res buf rs r'] show ?thesis
      by (auto simp: select_step_def poll_client_def relay_step_def on_part_def)
  qed
next
  case ServerBranch
  obtain p buf rs where p: "poll_next (l_server_buf l) (l_server_reads l) = (p, buf, rs)" by (metis prod_cases3)
  show thesis
  proof (cases p)
    case Pending
    with assms p ServerBranch that(2) show ?thesis by (simp add: select_step_def poll_server_def)
  next
    case (Ready res)
    obtain q' r' where "relay_step env (ServerNext res) (l_relay l) = (q', r')" by fastforce
    with Ready assms p ServerBranch that(4) [of res buf rs r'] show ?thesis
      by (auto simp: select_step_def poll_server_def relay_step_def on_part_def)
  qed
qed

section \<open>The loop over results\<close>

fun client_results :: "arrival list \<Rightarrow> (err + Frame option) list" where
  "client_results [] = []"
| "client_results (ClientNext res # as) = res # client_results as"
| "client_results (ServerNext res # as) = client_results as"

fun server_results :: "arrival list \<Rightarrow> (err + Frame option) list" where
  "server_results [] = []"
| "server_results (ClientNext res # as) = server_results as"
| "server_results (ServerNext res # as) = res # server_results as"

text \<open>What a loop does to the relay is what the relay does on these results of the readers.\<close>

definition refines :: "Env \<Rightarrow> Loop \<Rightarrow> arrival list \<Rightarrow> (err + unit) option \<Rightarrow> Loop \<Rightarrow> bool" where
  "refines env l as res l' \<longleftrightarrow>
     relay env as (l_relay l) = (res, l_relay l') \<and>
     list_all frame_ok (client_frames as) \<and> list_all frame_ok (server_frames as) \<and>
     client_results as = next_frames (length (client_results as)) (l_client_buf l) (l_client_reads l) \<and>
     server_results as = next_frames (length (server_results as)) (l_server_buf l) (l_server_reads l)"

lemma next_frames_ready:
  "poll_next buf rs = (Ready res, buf', rs') \<Longrightarrow> next_frames (Suc n) buf rs = res # next_frames n buf' rs'"
  by (simp add: poll_next_ready)

lemma next_frames_pending:
  assumes "poll_next buf rs = (Pending, buf', rs')"
  shows "next_frames n buf rs = next_frames n buf' rs'"
proof (cases "rs = []")
  case True
  with assms poll_next_idle [of buf buf' rs'] show ?thesis by simp
next
  case False
  with assms poll_next_pending show ?thesis by (cases n) simp_all
qed

lemma ready_frame_ok:
  assumes "poll_next buf rs = (Ready res, buf', rs')"
  shows "list_all frame_ok (client_frames [ClientNext res])" "list_all frame_ok (server_frames [ServerNext res])"
proof -
  consider e where "res = Inl e" | "res = Inr None" | f where "res = Inr (Some f)"
    by (metis not_None_eq obj_sumE)
  then show "list_all frame_ok (client_frames [ClientNext res])" "list_all frame_ok (server_frames [ServerNext res])"
    using assms by (cases; auto dest: poll_next_frame)+
qed

lemma refines_client:
  assumes "poll_next (l_client_buf l) (l_client_reads l) = (Ready res, buf, rs)"
    and "relay env (ClientNext res # as) (l_relay l) = (q, l_relay l')"
    and "list_all frame_ok (client_frames as)" "list_all frame_ok (server_frames as)"
    and "client_results as = next_frames (length (client_results as)) buf rs"
    and "server_results as = next_frames (length (server_results as)) (l_server_buf l) (l_server_reads l)"
  shows "refines env l (ClientNext res # as) q l'"
  unfolding refines_def
  using assms ready_frame_ok(1) [OF assms(1)] next_frames_ready [OF assms(1), of "length (client_results as)"]
    client_frames_Cons [of "ClientNext res" as] server_frames_Cons [of "ClientNext res" as]
  by (simp del: relay.simps next_frames.simps(2))

lemma refines_server:
  assumes "poll_next (l_server_buf l) (l_server_reads l) = (Ready res, buf, rs)"
    and "relay env (ServerNext res # as) (l_relay l) = (q, l_relay l')"
    and "list_all frame_ok (client_frames as)" "list_all frame_ok (server_frames as)"
    and "client_results as = next_frames (length (client_results as)) (l_client_buf l) (l_client_reads l)"
    and "server_results as = next_frames (length (server_results as)) buf rs"
  shows "refines env l (ServerNext res # as) q l'"
  unfolding refines_def
  using assms ready_frame_ok(2) [OF assms(1)] next_frames_ready [OF assms(1), of "length (server_results as)"]
    client_frames_Cons [of "ServerNext res" as] server_frames_Cons [of "ServerNext res" as]
  by (simp del: relay.simps next_frames.simps(2))

lemma select_loop_refines:
  "select_loop env bs l = (res, l') \<Longrightarrow> \<exists>as. refines env l as res l'"
proof (induction bs arbitrary: l)
  case Nil
  then show ?case by (intro exI [of _ "[]"]) (simp add: refines_def)
next
  case (Cons b bs)
  obtain q l1 where st: "select_step env b l = (q, l1)" by fastforce
  have rest: "\<exists>as. refines env l1 as res l'" if "q = Inr True"
    using Cons.IH [of l1] Cons.prems st that by simp
  have fin: "l' = l1 \<and> (\<forall>r as a. relay_step env a r = (q, l_relay l1) \<longrightarrow> relay env (a # as) r = (res, l_relay l'))"
    if "q \<noteq> Inr True"
    using Cons.prems st that by (cases q) auto
  have on: "relay env (a # as) r = relay env as r'" if "relay_step env a r = (Inr True, r')" for a as r r'
    using that by simp
  from st show ?case
  proof (cases rule: select_step_cases)
    case (client_waits buf rs)
    with rest next_frames_pending [OF client_waits(2)] show ?thesis by (auto simp: refines_def)
  next
    case (server_waits buf rs)
    with rest next_frames_pending [OF server_waits(2)] show ?thesis by (auto simp: refines_def)
  next
    case (client_ready x buf rs r')
    show ?thesis
    proof (cases "q = Inr True")
      case True
      with rest obtain as where as: "refines env l1 as res l'" by blast
      with True client_ready(3) have "relay env (ClientNext x # as) (l_relay l) = (res, l_relay l')"
        using on [of "ClientNext x" "l_relay l" r' as] client_ready(4) by (simp add: refines_def del: relay.simps)
      then have "refines env l (ClientNext x # as) res l'"
        using as by (intro refines_client [OF client_ready(2)]) (simp_all add: refines_def client_ready(4))
      then show ?thesis by blast
    next
      case False
      with fin client_ready(3,4) have "relay env [ClientNext x] (l_relay l) = (res, l_relay l')"
        by (simp del: relay.simps)
      from refines_client [OF client_ready(2) this] show ?thesis by auto
    qed
  next
    case (server_ready x buf rs r')
    show ?thesis
    proof (cases "q = Inr True")
      case True
      with rest obtain as where as: "refines env l1 as res l'" by blast
      with True server_ready(3) have "relay env (ServerNext x # as) (l_relay l) = (res, l_relay l')"
        using on [of "ServerNext x" "l_relay l" r' as] server_ready(4) by (simp add: refines_def del: relay.simps)
      then have "refines env l (ServerNext x # as) res l'"
        using as by (intro refines_server [OF server_ready(2)]) (simp_all add: refines_def server_ready(4))
      then show ?thesis by blast
    next
      case False
      with fin server_ready(3,4) have "relay env [ServerNext x] (l_relay l) = (res, l_relay l')"
        by (simp del: relay.simps)
      from refines_server [OF server_ready(2) this] show ?thesis by auto
    qed
  qed
qed

section \<open>Every byte is accounted for\<close>

text \<open>The bytes of a direction: sent on, held by the gate, buffered and still to come.\<close>

definition client_stream :: "Loop \<Rightarrow> string" where
  "client_stream l = to_server (l_relay l) @ l_client_buf l @ bytes_left (l_client_reads l)"

definition server_stream :: "Loop \<Rightarrow> string" where
  "server_stream l =
     to_client (l_relay l) @ concat (r_held (l_relay l)) @ l_server_buf l @ bytes_left (l_server_reads l)"

lemma select_step_conserves:
  assumes "select_step env b l = (Inr True, l')" and "unfired (l_relay l')" and "n_truncate (r_net (l_relay l)) = None"
  shows "client_stream l' = client_stream l \<and> server_stream l' = server_stream l \<and>
    n_truncate (r_net (l_relay l')) = None \<and> unfired (l_relay l)"
  using assms(1)
proof (cases rule: select_step_cases)
  case (client_waits buf rs)
  with poll_next_waits [OF client_waits(2)] assms(2,3) show ?thesis
    by (simp add: client_stream_def server_stream_def)
next
  case (server_waits buf rs)
  with poll_next_waits [OF server_waits(2)] assms(2,3) show ?thesis
    by (simp add: client_stream_def server_stream_def)
next
  case (client_ready res buf rs r')
  from client_ready(3) obtain f where f: "res = Inr (Some f)"
    by (cases rule: relay_step_onE) auto
  with client_ready(2) have "l_client_buf l = raw f @ buf" "rs = l_client_reads l"
    by (auto dest: poll_next_frame)
  moreover have "unfired r'" using assms(2) client_ready(4) by simp
  ultimately show ?thesis
    using step_transparent [OF client_ready(3) _ assms(3)] relay_step_on [OF client_ready(3)] follows_unfired
      client_ready(4) f
    by (auto simp: client_stream_def server_stream_def)
next
  case (server_ready res buf rs r')
  from server_ready(3) obtain f where f: "res = Inr (Some f)"
    by (cases rule: relay_step_onE) auto
  with server_ready(2) have "l_server_buf l = raw f @ buf" "rs = l_server_reads l"
    by (auto dest: poll_next_frame)
  moreover have "unfired r'" using assms(2) server_ready(4) by simp
  ultimately show ?thesis
    using step_transparent [OF server_ready(3) _ assms(3)] relay_step_on [OF server_ready(3)] follows_unfired
      server_ready(4) f
    by (auto simp: client_stream_def server_stream_def)
qed

lemma select_loop_unfired:
  assumes "select_loop env bs l = (None, l')" and "unfired (l_relay l')"
  shows "unfired (l_relay l)"
proof -
  from select_loop_refines [OF assms(1)] obtain as where "relay env as (l_relay l) = (None, l_relay l')"
    by (auto simp: refines_def)
  from relay_follows [OF this] follows_unfired assms(2) show ?thesis by blast
qed

lemma select_loop_conserves:
  assumes "select_loop env bs l = (None, l')" and "unfired (l_relay l')" and "n_truncate (r_net (l_relay l)) = None"
  shows "client_stream l' = client_stream l \<and> server_stream l' = server_stream l"
  using assms(1,3)
proof (induction bs arbitrary: l)
  case (Cons b bs)
  then obtain l1 where b: "select_step env b l = (Inr True, l1)" and bs: "select_loop env bs l1 = (None, l')"
    by (auto simp: select.run_Cons_None simp del: select_loop.simps)
  from select_step_conserves [OF b select_loop_unfired [OF bs assms(2)] Cons.prems(2)] Cons.IH [OF bs]
  show ?case by simp
qed simp

section \<open>Every byte is delivered\<close>

text \<open>A byte stream on its way: well-formed frames, cut into non-empty reads.\<close>

definition cut_up :: "Frame list \<Rightarrow> string \<Rightarrow> read list \<Rightarrow> bool" where
  "cut_up fs buf rs \<longleftrightarrow> list_all frame_ok fs \<and>
     (\<exists>ds. rs = map Data ds \<and> list_all (\<lambda>d. d \<noteq> []) ds \<and> buf @ concat ds = bytes_of fs)"

lemma cut_up_poll:
  assumes "cut_up fs buf rs"
  obtains (empty) "fs = []" "rs = []" "buf = []" "poll_next buf rs = (Pending, buf, rs)"
  | (frame) f fs' buf' where "fs = f # fs'" "poll_next buf rs = (Ready (Inr (Some f)), buf', rs)" "cut_up fs' buf' rs"
  | (read) d rs' where "rs = Data d # rs'" "poll_next buf rs = (Pending, buf @ d, rs')" "cut_up fs (buf @ d) rs'"
proof -
  from assms obtain ds where ok: "list_all frame_ok fs" and rs: "rs = map Data ds"
    and ne: "list_all (\<lambda>d. d \<noteq> []) ds" and eq: "buf @ concat ds = bytes_of fs"
    by (auto simp: cut_up_def)
  show thesis
  proof (cases fs)
    case Nil
    with eq ne have "buf = []" "ds = []" by (cases ds; auto)+
    with Nil rs that(1) show ?thesis by (simp add: poll_next_def)
  next
    case (Cons f fs')
    with ok eq have f: "frame_ok f" and split: "buf @ concat ds = raw f @ bytes_of fs'" by simp_all
    from f split show ?thesis
    proof (cases rule: codec.dec_step)
      case (complete buf')
      then show ?thesis
        using that(2) [OF Cons, of buf'] ok ne Cons rs by (auto simp: poll_next_def cut_up_def)
    next
      case waiting
      then obtain d ds' where ds: "ds = d # ds'" by (cases ds) auto
      with waiting ne rs ok eq that(3) [of d "map Data ds'"] show ?thesis
        by (auto simp: poll_next_def cut_up_def)
    qed
  qed
qed

text \<open>How many polls of a side are enough.\<close>

definition polls :: "Frame list \<Rightarrow> read list \<Rightarrow> nat" where
  "polls fs rs = length fs + length rs"

lemma select_loop_delivers:
  assumes "total_json env" and "calm (l_relay l)"
    and "cut_up fs (l_client_buf l) (l_client_reads l)" and "list_all (\<lambda>f. tag f \<noteq> CHR ''X'') fs"
    and "cut_up gs (l_server_buf l) (l_server_reads l)"
    and "polls fs (l_client_reads l) \<le> count_list bs ClientBranch"
    and "polls gs (l_server_reads l) \<le> count_list bs ServerBranch"
  shows "\<exists>l'. select_loop env bs l = (None, l') \<and> calm (l_relay l') \<and>
    to_server (l_relay l') = to_server (l_relay l) @ bytes_of fs \<and>
    to_client (l_relay l') = to_client (l_relay l) @ bytes_of gs"
  using assms(2-)
proof (induction bs arbitrary: l fs gs)
  case Nil
  then show ?case by (simp add: polls_def)
next
  case (Cons b bs)
  show ?case
  proof (cases b)
    case ClientBranch
    from Cons.prems(2) show ?thesis
    proof (cases rule: cut_up_poll)
      case empty
      then have "select_step env b l = (Inr True, l)"
        using ClientBranch by (cases l) (simp add: select_step_def poll_client_def)
      with empty ClientBranch Cons.prems Cons.IH [of l fs gs] show ?thesis by (simp add: polls_def)
    next
      case (read d rs')
      let ?l = "l\<lparr>l_client_buf := l_client_buf l @ d, l_client_reads := rs'\<rparr>"
      from read ClientBranch Cons.prems Cons.IH [of ?l fs gs] show ?thesis
        by (simp add: select_step_def poll_client_def polls_def)
    next
      case (frame f fs' buf')
      from client_frame_calm [OF assms(1) Cons.prems(1), of f] frame(1) Cons.prems(3) obtain r' where
        r': "client_frame env f (l_relay l) = (Inr True, r')" "calm r'"
          "to_client r' = to_client (l_relay l)" "to_server r' = to_server (l_relay l) @ raw f" by auto
      let ?l = "l\<lparr>l_client_buf := buf', l_relay := r'\<rparr>"
      have "select_step env b l = (Inr True, ?l)"
        using frame r' ClientBranch by (simp add: select_step_def poll_client_def on_client_def on_part_def)
      with frame ClientBranch Cons.prems Cons.IH [of ?l fs' gs] r' show ?thesis by (simp add: polls_def)
    qed
  next
    case ServerBranch
    from Cons.prems(4) show ?thesis
    proof (cases rule: cut_up_poll)
      case empty
      then have "select_step env b l = (Inr True, l)"
        using ServerBranch by (cases l) (simp add: select_step_def poll_server_def)
      with empty ServerBranch Cons.prems Cons.IH [of l fs gs] show ?thesis by (simp add: polls_def)
    next
      case (read d rs')
      let ?l = "l\<lparr>l_server_buf := l_server_buf l @ d, l_server_reads := rs'\<rparr>"
      from read ServerBranch Cons.prems Cons.IH [of ?l fs gs] show ?thesis
        by (simp add: select_step_def poll_server_def polls_def)
    next
      case (frame g gs' buf')
      from server_frame_calm [OF assms(1) Cons.prems(1), of g] obtain r' where
        r': "server_frame env g (l_relay l) = (Inr True, r')" "calm r'"
          "to_client r' = to_client (l_relay l) @ raw g" "to_server r' = to_server (l_relay l)" by auto
      let ?l = "l\<lparr>l_server_buf := buf', l_relay := r'\<rparr>"
      have "select_step env b l = (Inr True, ?l)"
        using frame r' ServerBranch by (simp add: select_step_def poll_server_def on_server_def on_part_def)
      with frame ServerBranch Cons.prems Cons.IH [of ?l fs gs'] r' show ?thesis by (simp add: polls_def)
    qed
  qed
qed

section \<open>Properties\<close>

text \<open>
  C7: the loop over the sockets implements the loop over the results of the readers. Whatever the reads
  are, whatever is buffered and in whatever order the readers are polled and dropped again, what the
  loop does to the relay, and how it ends, is what the relay does on some sequence of results; in it
  each side's results are exactly those that successive calls of \<^verbatim>\<open>FrameReader::next\<close> would give without
  any interruption, and every frame is well-formed, so that its tag and body exist. No frame is lost,
  repeated or damaged by the cancellation of a reader.
\<close>

theorem sockets_refine_results:
  assumes "select_loop env bs l = (res, l')"
  shows "\<exists>as. relay env as (l_relay l) = (res, l_relay l') \<and>
    list_all frame_ok (client_frames as) \<and> list_all frame_ok (server_frames as) \<and>
    client_results as = next_frames (length (client_results as)) (l_client_buf l) (l_client_reads l) \<and>
    server_results as = next_frames (length (server_results as)) (l_server_buf l) (l_server_reads l)"
  using select_loop_refines [OF assms] by (simp only: refines_def)

text \<open>A loop whose server sends a notice in two reads, without scenarios.\<close>

definition example_loop :: Loop where
  "example_loop = Loop_new (example_relay []) [] [Data (take 3 (raw notice)), Data (drop 3 (raw notice))]"

lemma example_loop_simps [simp]:
  "l_relay example_loop = example_relay []" "l_client_buf example_loop = []" "l_client_reads example_loop = []"
  "l_server_buf example_loop = []" "bytes_left (l_server_reads example_loop) = raw notice"
  "length (l_server_reads example_loop) = 2"
  by (simp_all add: example_loop_def Loop_new_def)

abbreviation example_schedule :: "branch list" where
  "example_schedule \<equiv> [ServerBranch, ClientBranch, ServerBranch, ServerBranch]"

lemma example_loop_runs:
  "\<exists>l'. select_loop example_env example_schedule example_loop = (None, l') \<and> calm (l_relay l') \<and>
     to_client (l_relay l') = raw notice"
proof -
  have "cut_up [notice] [] (l_server_reads example_loop)"
    unfolding cut_up_def
    by (intro conjI exI [of _ "[take 3 (raw notice), drop 3 (raw notice)]"])
      (simp_all add: example_loop_def Loop_new_def, simp_all add: example_frames frame_ok_frame MAX_FRAME_def del: raw_frame,
       simp)
  moreover have "cut_up [] [] []" by (simp add: cut_up_def)
  ultimately show ?thesis
    using select_loop_delivers [of example_env example_loop "[]" "[notice]" example_schedule]
    by (auto simp: polls_def simp del: select_loop.simps)
qed

theorem sockets_refine_results_witness:
  "\<exists>as l'. select_loop example_env example_schedule example_loop = (None, l') \<and>
     relay example_env as (example_relay []) = (None, l_relay l') \<and> list_all frame_ok (server_frames as)"
proof -
  from example_loop_runs obtain l' where
    l': "select_loop example_env example_schedule example_loop = (None, l')" by blast
  from sockets_refine_results [OF l'] l' show ?thesis by (auto simp del: select_loop.simps)
qed

text \<open>
  C8: no byte is lost between the sockets. As long as no scenario has fired, at any moment and for any
  fragmentation and schedule, what the server has been sent, what the reader of the client has buffered
  and what the client's socket will still deliver are together exactly the bytes that were there in the
  beginning, in order; the same holds towards the client, with the frames held by the gate between
  those delivered and those buffered.
\<close>

theorem bytes_conserved:
  assumes "select_loop env bs l = (None, l')"
    and "\<forall>m \<in> set (n_matchers (r_net (l_relay l'))). \<not> m_fired m" and "n_truncate (r_net (l_relay l)) = None"
  shows "to_server (l_relay l') @ l_client_buf l' @ bytes_left (l_client_reads l') =
      to_server (l_relay l) @ l_client_buf l @ bytes_left (l_client_reads l) \<and>
    to_client (l_relay l') @ concat (r_held (l_relay l')) @ l_server_buf l' @ bytes_left (l_server_reads l') =
      to_client (l_relay l) @ concat (r_held (l_relay l)) @ l_server_buf l @ bytes_left (l_server_reads l)"
  using select_loop_conserves [OF assms(1) _ assms(3)] assms(2)
  by (simp add: unfired_def client_stream_def server_stream_def)

theorem bytes_conserved_witness:
  "\<exists>l'. select_loop example_env example_schedule example_loop = (None, l') \<and>
     to_client (l_relay l') @ concat (r_held (l_relay l')) @ l_server_buf l' @ bytes_left (l_server_reads l') = raw notice"
proof -
  from example_loop_runs obtain l' where
    l': "select_loop example_env example_schedule example_loop = (None, l')" "calm (l_relay l')" by blast
  from bytes_conserved [OF l'(1)] l' show ?thesis by (auto simp: calm_def simp del: select_loop.simps)
qed

end
