(* ===== verification/Connection.thy ===== *)
theory Connection
  imports Select_Loop
begin

text \<open>
  The life of a connection (\<^verbatim>\<open>crates/pgfault-proxy/src/lib.rs\<close>): the startup packets of the client, the
  negotiation of encryption, cancellation, the connection to the server, and the hand-over to the relay
  loop; and the listener that serves many connections. What the network does is given by the
  arguments: the bytes the client sends and how they end, the outcome of the connection attempt, the
  reads the sockets will see and the order in which the readers are polled.
\<close>

section \<open>Startup parameters\<close>

definition set_parameter :: "string \<Rightarrow> string \<Rightarrow> StartupMetadata \<Rightarrow> StartupMetadata" where
  "set_parameter key value m =
     (if key = ''user'' then m\<lparr>sm_user := Some value\<rparr>
      else if key = ''database'' then m\<lparr>sm_database := Some value\<rparr>
      else if key = ''application_name'' then m\<lparr>sm_application_name := Some value\<rparr>
      else m)"

function metadata_loop :: "string \<Rightarrow> StartupMetadata \<Rightarrow> err + StartupMetadata" where
  "metadata_loop rest m =
     (case cstr rest of
        None \<Rightarrow> Inl (Bail ''invalid startup parameter'')
      | Some (key, tail) \<Rightarrow>
          if key = [] then
            (if tail \<noteq> [] then Inl (Bail ''trailing startup data'') else Inr m)
          else
            (case cstr tail of
               None \<Rightarrow> Inl (Bail ''invalid startup value'')
             | Some (value, tail') \<Rightarrow>
                 metadata_loop tail' (set_parameter key (from_utf8_lossy value) m)))"
  by pat_completeness auto
termination
  by (relation "measure (\<lambda>(rest, m). length rest)") (auto dest!: cstr_length)

declare metadata_loop.simps [simp del]

definition metadata :: "string \<Rightarrow> err + StartupMetadata" where
  "metadata packet = metadata_loop (drop 8 packet) StartupMetadata_default"

section \<open>Negotiation\<close>

text \<open>
  How the bytes of the client end while the proxy still waits for a startup packet: the client closed
  its side, the connection broke, or nothing more came within the 30 seconds of the timer.
\<close>

datatype peer_end = Closed | Broken err | Stalled

definition timed_startup :: "peer_end \<Rightarrow> string \<Rightarrow> err + string \<times> string" where
  "timed_startup pe input =
     (case startup input of
        Inl UnexpectedEof \<Rightarrow>
          Inl (case pe of Closed \<Rightarrow> UnexpectedEof | Broken e \<Rightarrow> e | Stalled \<Rightarrow> Timeout)
      | r \<Rightarrow> r)"

lemma timed_startup_rest:
  "timed_startup pe input = Inr (packet, rest) \<Longrightarrow> startup input = Inr (packet, rest)"
  by (auto simp: timed_startup_def split: sum.splits err.splits)

definition packet_code :: "string \<Rightarrow> u32" where
  "packet_code packet = from_be_bytes (take 4 (drop 4 packet))"

text \<open>
  What the negotiation ends with: the startup packet of a session, or a cancellation request, and the
  bytes of the client that follow it.
\<close>

datatype request = StartupPacket string | CancelPacket string

type_synonym acceptor_handshake =
  "TlsAcceptor \<Rightarrow> TcpStream \<Rightarrow> string \<Rightarrow> err + Chan \<times> TcpStream \<times> string"

lemma startup_consumes: "startup input = Inr (packet, rest) \<Longrightarrow> length rest < length input"
  by (auto simp: startup_def Let_def split: if_splits)

function negotiate ::
  "acceptor_handshake \<Rightarrow> TlsAcceptor option \<Rightarrow> peer_end \<Rightarrow> string \<Rightarrow> (Stream, request \<times> string) io" where
  "negotiate handshake acceptor pe input s =
     (case timed_startup pe input of
        Inl e \<Rightarrow> (Inl e, s)
      | Inr (packet, rest) \<Rightarrow>
          let code = packet_code packet in
          if code = SSL_REQUEST then
            if length packet \<noteq> 8 then (Inl (Bail ''invalid negotiation request''), s)
            else (case acceptor of
              Some acc \<Rightarrow>
                (case stream_write_all ''S'' s of
                   (Inl e, s1) \<Rightarrow> (Inl e, s1)
                 | (Inr _, s1) \<Rightarrow>
                     (case into_plain s1 of
                        Inl e \<Rightarrow> (Inl e, s1)
                      | Inr tcp \<Rightarrow>
                          (case accept handshake tcp rest acc of
                             Inl e \<Rightarrow> (Inl e, s1)
                           | Inr (s2, input') \<Rightarrow> negotiate handshake acceptor pe input' s2)))
            | None \<Rightarrow>
                (case stream_write_all ''N'' s of
                   (Inl e, s1) \<Rightarrow> (Inl e, s1)
                 | (Inr _, s1) \<Rightarrow> negotiate handshake acceptor pe rest s1))
          else if code = GSS_REQUEST then
            if length packet \<noteq> 8 then (Inl (Bail ''invalid negotiation request''), s)
            else (case stream_write_all ''N'' s of
                   (Inl e, s1) \<Rightarrow> (Inl e, s1)
                 | (Inr _, s1) \<Rightarrow> negotiate handshake acceptor pe rest s1)
          else if code = CANCEL_REQUEST then
            if length packet \<noteq> 16 then (Inl (Bail ''invalid cancellation request''), s)
            else (Inr (CancelPacket packet, rest), s)
          else if code = PROTOCOL_V3 then (Inr (StartupPacket packet, rest), s)
          else (Inl (Bail ''unsupported startup protocol''), s))"
  by pat_completeness auto

text \<open>The stream becomes encrypted at most once; every other round consumes a packet.\<close>

definition is_plain :: "Stream \<Rightarrow> bool" where
  "is_plain s = (case s of Plain _ \<Rightarrow> True | Tls _ _ \<Rightarrow> False)"

lemma is_plain_write: "stream_write_all bs s = (q, s1) \<Longrightarrow> is_plain s1 = is_plain s"
  by (cases s) (auto simp: stream_write_all_def on_part_def is_plain_def split: prod.splits)

lemma into_plain_Inr: "into_plain s = Inr t \<longleftrightarrow> s = Plain t"
  by (simp add: into_plain_def split: Stream.split)

lemma accept_Inr: "accept handshake tcp input acc = Inr (s, input') \<Longrightarrow> \<not> is_plain s"
  by (auto simp: accept_def is_plain_def)

lemma is_plain_Plain [simp]: "is_plain (Plain t)"
  by (simp add: is_plain_def)

termination negotiate
  by (relation "measures [\<lambda>(h, a, pe, input, s). if is_plain s then 1 else 0,
      \<lambda>(h, a, pe, input, s). length input]")
    (auto simp: into_plain_Inr dest!: timed_startup_rest startup_consumes is_plain_write [OF sym] accept_Inr)

declare negotiate.simps [simp del]

section \<open>A connection\<close>

text \<open>The recorder of the source's \<^verbatim>\<open>Config\<close> is shared by all connections; it is state and passed on its own.\<close>

record Config =
  cf_upstream :: string
  cf_scenarios :: "Scenario list"
  cf_tls :: TlsConfig

text \<open>
  The libraries and the network a connection uses: the TLS handshakes, the parser of server names, and
  the attempt to connect to an address, which gives a socket and what reading the one byte that answers
  an SSLRequest on it comes to.
\<close>

record Host =
  h_env :: Env
  h_accept :: acceptor_handshake
  h_tls_connect :: "TlsConnector \<Rightarrow> string \<Rightarrow> TcpStream \<Rightarrow> err + Chan \<times> TcpStream"
  h_parse_name :: "string \<Rightarrow> string option"
  h_connect :: "string \<Rightarrow> err + TcpStream \<times> (err + byte)"

record Conn =
  co_frontend :: Stream
  co_upstream :: "Stream option"
  co_trace :: Recorder

text \<open>\<^verbatim>\<open>rsplit_once(':')\<close>: the host is what precedes the last colon, or everything.\<close>

definition upstream_host :: "string \<Rightarrow> string" where
  "upstream_host address =
     (if CHR '':'' \<in> set address then rev (tl (dropWhile (\<lambda>c. c \<noteq> CHR '':'') (rev address))) else address)"

definition ssl_request :: string where
  "ssl_request = to_be_bytes 8 @ to_be_bytes SSL_REQUEST"

definition upstream_tls ::
  "Host \<Rightarrow> Config \<Rightarrow> TlsConnector \<Rightarrow> TcpStream \<Rightarrow> err + byte \<Rightarrow> (Conn, unit) io" where
  "upstream_tls h cf connector tcp reply c =
     (case stream_write_all ssl_request (Stream_plain tcp) of
        (Inl e, s) \<Rightarrow> (Inl e, c\<lparr>co_upstream := Some s\<rparr>)
      | (Inr _, s) \<Rightarrow>
          let c1 = c\<lparr>co_upstream := Some s\<rparr> in
          (case reply of
             Inl e \<Rightarrow> (Inl e, c1)
           | Inr b \<Rightarrow>
               if b \<noteq> CHR ''S''
               then (Inl (Bail ''upstream does not support TLS (--upstream-tls was set)''), c1)
               else (case server_name (h_parse_name h) (upstream_host (cf_upstream cf)) of
                 Inl e \<Rightarrow> (Inl e, c1)
               | Inr name \<Rightarrow>
                   (case connect (h_tls_connect h) (fd s) connector name of
                      Inl e \<Rightarrow> (Inl e, c1)
                    | Inr s2 \<Rightarrow> (Inr (), c\<lparr>co_upstream := Some s2\<rparr>)))))"

definition open_upstream :: "Host \<Rightarrow> Config \<Rightarrow> (Conn, unit) io" where
  "open_upstream h cf c =
     (case h_connect h (cf_upstream cf) of
        Inl e \<Rightarrow> (Inl e, c)
      | Inr (tcp, reply) \<Rightarrow>
          (case set_nodelay tcp of
             Inl e \<Rightarrow> (Inl e, c\<lparr>co_upstream := Some (Stream_plain tcp)\<rparr>)
           | Inr _ \<Rightarrow>
               (case tls_upstream (cf_tls cf) of
                  Some connector \<Rightarrow> upstream_tls h cf connector tcp reply c
                | None \<Rightarrow> (Inr (), c\<lparr>co_upstream := Some (Stream_plain tcp)\<rparr>))))"

text \<open>An operation on the stream to the server, which is open when it is used.\<close>

definition on_open :: "(Stream, 'a) io \<Rightarrow> (Conn, 'a) io" where
  "on_open m c =
     (case co_upstream c of
        None \<Rightarrow> (Inl (Panic ''no upstream''), c)
      | Some s \<Rightarrow> (case m s of (r, s') \<Rightarrow> (r, c\<lparr>co_upstream := Some s'\<rparr>)))"

abbreviation log_lifecycle :: "Host \<Rightarrow> u64 \<Rightarrow> string \<Rightarrow> (Conn, unit) io" where
  "log_lifecycle h cid ev \<equiv>
     on_part co_trace (\<lambda>t c. c\<lparr>co_trace := t\<rparr>) (lifecycle (env_to_json (h_env h)) cid ev [])"

definition forward_cancel :: "Host \<Rightarrow> Config \<Rightarrow> u64 \<Rightarrow> string \<Rightarrow> (Conn, unit) io" where
  "forward_cancel h cf cid packet c =
     (case h_connect h (cf_upstream cf) of
        Inl e \<Rightarrow> (Inl e, c)
      | Inr (tcp, _) \<Rightarrow>
          and_then (on_open (stream_write_all packet)) (\<lambda>_.
          and_then (on_open stream_shutdown) (\<lambda>_.
            log_lifecycle h cid ''cancel.forwarded'')) (c\<lparr>co_upstream := Some (Stream_plain tcp)\<rparr>))"

definition begin_session ::
  "Host \<Rightarrow> Config \<Rightarrow> u64 \<Rightarrow> string \<Rightarrow> (Conn, StartupMetadata) io" where
  "begin_session h cf cid packet c =
     (case metadata packet of
        Inl e \<Rightarrow> (Inl e, c)
      | Inr meta \<Rightarrow>
          and_then (open_upstream h cf) (\<lambda>_.
          and_then (on_open (stream_write_all packet)) (\<lambda>_.
          and_then (log_lifecycle h cid ''startup'') (\<lambda>_.
            io_return meta))) c)"

definition initial_relay :: "Config \<Rightarrow> u64 \<Rightarrow> StartupMetadata \<Rightarrow> Stream \<Rightarrow> Conn \<Rightarrow> Relay" where
  "initial_relay cf cid meta upstream c =
     \<lparr>r_id = cid, r_state = ConnectionState_new cid meta,
      r_net = \<lparr>n_trace = co_trace c, n_frontend = co_frontend c, n_upstream = upstream,
        n_truncate = None, n_matchers = map Matcher_new (cf_scenarios cf), n_clock = 0\<rparr>,
      r_held = [], r_held_size = 0\<rparr>"

definition conn_of_relay :: "Relay \<Rightarrow> Conn" where
  "conn_of_relay r =
     \<lparr>co_frontend = n_frontend (r_net r), co_upstream = Some (n_upstream (r_net r)), co_trace = n_trace (r_net r)\<rparr>"

text \<open>
  What the network does to a connection: the client's socket, the bytes the client sends and how they
  end while a startup packet is awaited, the reads in which the bytes after the startup packet come
  in, and the reads of the server's stream.
\<close>

record Wires =
  w_client :: TcpStream
  w_end :: peer_end
  w_input :: string
  w_cut :: "string \<Rightarrow> read list"
  w_server_reads :: "read list"

text \<open>
  \<^verbatim>\<open>connection\<close> up to the relay loop: an error, the end of a forwarded cancellation (\<open>None\<close>), or the
  loop in its first state.
\<close>

definition open_session ::
  "Host \<Rightarrow> Config \<Rightarrow> u64 \<Rightarrow> Wires \<Rightarrow> Recorder \<Rightarrow> (err + Loop option) \<times> Conn" where
  "open_session h cf cid w trace =
     (let c = \<lparr>co_frontend = Stream_plain (w_client w), co_upstream = None, co_trace = trace\<rparr> in
      case set_nodelay (w_client w) of
        Inl e \<Rightarrow> (Inl e, c)
      | Inr _ \<Rightarrow>
          (case negotiate (h_accept h) (tls_frontend (cf_tls cf)) (w_end w) (w_input w) (co_frontend c) of (q, s) \<Rightarrow>
             let c1 = c\<lparr>co_frontend := s\<rparr> in
             (case q of
                Inl e \<Rightarrow> (Inl e, c1)
              | Inr (CancelPacket packet, _) \<Rightarrow>
                  and_then (forward_cancel h cf cid packet) (\<lambda>_. io_return None) c1
              | Inr (StartupPacket packet, rest) \<Rightarrow>
                  (case begin_session h cf cid packet c1 of
                     (Inl e, c2) \<Rightarrow> (Inl e, c2)
                   | (Inr meta, c2) \<Rightarrow>
                       (case co_upstream c2 of
                          None \<Rightarrow> (Inl (Panic ''no upstream''), c2)
                        | Some upstream \<Rightarrow>
                            (Inr (Some (Loop_new (initial_relay cf cid meta upstream c2)
                               (w_cut w rest) (w_server_reads w))), c2))))))"

text \<open>
  \<^verbatim>\<open>connection\<close>: \<open>schedule\<close> is the order in which the readers are polled; \<open>None\<close> says that the
  connection is still open after it.
\<close>

definition connection ::
  "Host \<Rightarrow> Config \<Rightarrow> u64 \<Rightarrow> Wires \<Rightarrow> branch list \<Rightarrow> Recorder \<Rightarrow> (err + unit) option \<times> Conn" where
  "connection h cf cid w schedule trace =
     (case open_session h cf cid w trace of
        (Inl e, c) \<Rightarrow> (Some (Inl e), c)
      | (Inr None, c) \<Rightarrow> (Some (Inr ()), c)
      | (Inr (Some l), c) \<Rightarrow>
          (case select_loop (h_env h) schedule l of
             (r, l') \<Rightarrow> (r, conn_of_relay (l_relay l'))))"

section \<open>The listener\<close>

text \<open>
  \<^verbatim>\<open>serve\<close>: a connection gets the next number and a task of its own. A task that returns writes a
  record that it closed, whose failure is ignored; one that panics does not get there. The loop reacts
  to the shutdown signal, to accepted connections and to finished tasks, whose panic it returns as an
  error. Numbers wrap as 64-bit words. The end of a task that does not run is no event of the loop and
  changes nothing.
\<close>

datatype task_end = Returned "err + unit" | Panicked string

datatype server_event = ShutdownSignal | Accepted "err + unit" | TaskEnds u64 task_end | JoinNext

record Server =
  sv_next_id :: u64
  sv_tasks :: "u64 list"
  sv_finished :: "task_end list"
  sv_trace :: Recorder

definition serve_start :: "Recorder \<Rightarrow> Server" where
  "serve_start trace = \<lparr>sv_next_id = 0, sv_tasks = [], sv_finished = [], sv_trace = trace\<rparr>"

text \<open>How a task ends, given what \<^verbatim>\<open>connection\<close> does.\<close>

definition task_result :: "err + unit \<Rightarrow> task_end" where
  "task_result r = (case r of Inl (Panic msg) \<Rightarrow> Panicked msg | _ \<Rightarrow> Returned r)"

definition error_text :: "(err \<Rightarrow> string) \<Rightarrow> err + unit \<Rightarrow> string" where
  "error_text show_err r = (case r of Inl e \<Rightarrow> show_err e | Inr _ \<Rightarrow> [])"

definition serve_step ::
  "(Record \<Rightarrow> err + string) \<Rightarrow> (err \<Rightarrow> string) \<Rightarrow> server_event \<Rightarrow> (Server, bool) io" where
  "serve_step to_json show_err ev sv =
     (case ev of
        ShutdownSignal \<Rightarrow> (Inr False, sv\<lparr>sv_tasks := [], sv_finished := []\<rparr>)
      | Accepted (Inl e) \<Rightarrow> (Inl e, sv\<lparr>sv_tasks := [], sv_finished := []\<rparr>)
      | Accepted (Inr _) \<Rightarrow>
          let i = sv_next_id sv + 1 in
          (Inr True, sv\<lparr>sv_next_id := i, sv_tasks := sv_tasks sv @ [i]\<rparr>)
      | TaskEnds i t \<Rightarrow>
          if i \<notin> set (sv_tasks sv) then (Inr True, sv)
          else let sv1 = sv\<lparr>sv_tasks := removeAll i (sv_tasks sv), sv_finished := sv_finished sv @ [t]\<rparr> in
            (case t of
               Panicked _ \<Rightarrow> (Inr True, sv1)
             | Returned r \<Rightarrow>
                 (Inr True, sv1\<lparr>sv_trace :=
                    snd (lifecycle to_json i ''connection.closed'' (error_text show_err r) (sv_trace sv1))\<rparr>))
      | JoinNext \<Rightarrow>
          (case sv_finished sv of
             [] \<Rightarrow> (Inr True, sv)
           | Returned _ # ts \<Rightarrow> (Inr True, sv\<lparr>sv_finished := ts\<rparr>)
           | Panicked msg # ts \<Rightarrow> (Inl (Panic msg), sv\<lparr>sv_tasks := [], sv_finished := []\<rparr>)))"

fun serve ::
  "(Record \<Rightarrow> err + string) \<Rightarrow> (err \<Rightarrow> string) \<Rightarrow> server_event list \<Rightarrow> Server \<Rightarrow> (err + unit) option \<times> Server" where
  "serve to_json show_err [] sv = (None, sv)"
| "serve to_json show_err (ev # evs) sv =
     (case serve_step to_json show_err ev sv of
        (Inl e, sv') \<Rightarrow> (Some (Inl e), sv')
      | (Inr go, sv') \<Rightarrow> if go then serve to_json show_err evs sv' else (Some (Inr ()), sv'))"

interpretation serve: io_loop "serve_step to_json show_err" "serve to_json show_err" for to_json show_err
  by unfold_locales simp_all

end
