(* ===== verification/Connection_Props.thy ===== *)
theory Connection_Props
  imports Connection
begin

text \<open>
  What the proxy guarantees around a session: the startup parameters it understands, the negotiation,
  that it never falls back to an unencrypted server connection, cancellation, and the whole way of a
  session without scenarios from the first byte on.
\<close>

section \<open>Startup parameters\<close>

definition encode_parameters :: "(string \<times> string) list \<Rightarrow> string" where
  "encode_parameters ps = concat (map (\<lambda>(k, v). k @ NUL # v @ [NUL]) ps) @ [NUL]"

definition parameter_ok :: "string \<times> string \<Rightarrow> bool" where
  "parameter_ok p \<longleftrightarrow> fst p \<noteq> [] \<and> NUL \<notin> set (fst p) \<and> NUL \<notin> set (snd p)"

definition set_parameters :: "(string \<times> string) list \<Rightarrow> StartupMetadata \<Rightarrow> StartupMetadata" where
  "set_parameters ps m = fold (\<lambda>(k, v). set_parameter k (from_utf8_lossy v)) ps m"

lemma metadata_loop_encode:
  "list_all parameter_ok ps \<Longrightarrow> metadata_loop (encode_parameters ps) m = Inr (set_parameters ps m)"
proof (induction ps arbitrary: m)
  case Nil
  have "cstr (encode_parameters []) = Some ([], [])" using cstr_append [of "[]" "[]"] by (simp add: encode_parameters_def)
  then show ?case by (simp add: metadata_loop.simps set_parameters_def)
next
  case (Cons p ps)
  obtain k v where p: "p = (k, v)" by fastforce
  have "encode_parameters (p # ps) = k @ NUL # (v @ NUL # encode_parameters ps)"
    by (simp add: encode_parameters_def p)
  with Cons p show ?case
    by (simp add: metadata_loop.simps [of "k @ _"] parameter_ok_def set_parameters_def)
qed

text \<open>The value of a parameter: that of its last occurrence, decoded.\<close>

definition parameter :: "string \<Rightarrow> (string \<times> string) list \<Rightarrow> string option" where
  "parameter k ps = map_option from_utf8_lossy (map_of (rev ps) k)"

lemma set_parameters_fields:
  "sm_user (set_parameters ps m) = (case parameter ''user'' ps of None \<Rightarrow> sm_user m | Some v \<Rightarrow> Some v)"
  "sm_database (set_parameters ps m) = (case parameter ''database'' ps of None \<Rightarrow> sm_database m | Some v \<Rightarrow> Some v)"
  "sm_application_name (set_parameters ps m) =
     (case parameter ''application_name'' ps of None \<Rightarrow> sm_application_name m | Some v \<Rightarrow> Some v)"
proof (induction ps arbitrary: m)
  case (Cons p ps)
  obtain k v where p: "p = (k, v)" by fastforce
  have step: "set_parameters (p # ps) m = set_parameters ps (set_parameter k (from_utf8_lossy v) m)" for m
    by (simp add: set_parameters_def p)
  have par: "parameter x (p # ps) = (case parameter x ps of None \<Rightarrow> if x = k then Some (from_utf8_lossy v) else None | Some y \<Rightarrow> Some y)" for x
    by (auto simp: parameter_def p map_add_def split: option.split)
  {
    case 1
    show ?case unfolding step par Cons.IH(1) by (simp add: set_parameter_def split: option.split)
  next
    case 2
    show ?case unfolding step par Cons.IH(2) by (simp add: set_parameter_def split: option.split)
  next
    case 3
    show ?case unfolding step par Cons.IH(3) by (simp add: set_parameter_def split: option.split)
  }
qed (simp_all add: set_parameters_def parameter_def)

lemma set_parameters_default:
  "set_parameters ps StartupMetadata_default =
     \<lparr>sm_user = parameter ''user'' ps, sm_database = parameter ''database'' ps,
      sm_application_name = parameter ''application_name'' ps\<rparr>"
  using set_parameters_fields [of ps StartupMetadata_default]
  by (intro StartupMetadata.equality) (simp_all add: StartupMetadata_default_def split: option.split)

section \<open>Negotiation\<close>

text \<open>A request for encryption.\<close>

definition encryption_request :: "string \<Rightarrow> bool" where
  "encryption_request q \<longleftrightarrow> packet_ok q \<and> length q = 8 \<and> packet_code q \<in> {SSL_REQUEST, GSS_REQUEST}"

lemma timed_startup_append [simp]: "packet_ok q \<Longrightarrow> timed_startup pe (q @ rest) = Inr (q, rest)"
  by (simp add: timed_startup_def startup_iff [THEN iffD2])

lemma codes_distinct [simp]:
  "SSL_REQUEST \<noteq> GSS_REQUEST" "SSL_REQUEST \<noteq> CANCEL_REQUEST" "SSL_REQUEST \<noteq> PROTOCOL_V3"
  "GSS_REQUEST \<noteq> CANCEL_REQUEST" "GSS_REQUEST \<noteq> PROTOCOL_V3" "CANCEL_REQUEST \<noteq> PROTOCOL_V3"
  by (simp_all add: SSL_REQUEST_def GSS_REQUEST_def CANCEL_REQUEST_def PROTOCOL_V3_def)

lemma negotiate_request:
  assumes "encryption_request q" and "healthy s"
  shows "\<exists>s'. negotiate h None pe (q @ rest) s = negotiate h None pe rest s' \<and> healthy s' \<and>
    delivered s' = delivered s @ ''N'' \<and> is_plain s' = is_plain s"
proof -
  from healthy_ops(1) [OF assms(2), of "''N''"] obtain s' where
    s': "stream_write_all ''N'' s = (Inr (), s')" "healthy s'" "delivered s' = delivered s @ ''N''" by blast
  with assms(1) is_plain_write [OF s'(1)] show ?thesis
    by (intro exI [of _ s']) (auto simp: negotiate.simps [of _ _ _ "q @ rest"] encryption_request_def Let_def)
qed

lemma negotiate_final:
  assumes "packet_ok p"
  shows "packet_code p = PROTOCOL_V3 \<Longrightarrow> negotiate h a pe (p @ rest) s = (Inr (StartupPacket p, rest), s)"
    and "packet_code p = CANCEL_REQUEST \<Longrightarrow> length p = 16 \<Longrightarrow>
      negotiate h a pe (p @ rest) s = (Inr (CancelPacket p, rest), s)"
  using assms codes_distinct [symmetric] by (simp_all add: negotiate.simps [of _ _ _ "p @ rest"] Let_def)

lemma negotiate_plain:
  assumes "list_all encryption_request qs" and "packet_ok p" and "packet_code p = PROTOCOL_V3" and "healthy s"
  shows "\<exists>s'. negotiate h None pe (concat qs @ p @ rest) s = (Inr (StartupPacket p, rest), s') \<and> healthy s' \<and>
    delivered s' = delivered s @ replicate (length qs) (CHR ''N'')"
  using assms(1,4)
proof (induction qs arbitrary: s)
  case Nil
  with negotiate_final(1) [OF assms(2,3)] show ?case by auto
next
  case (Cons q qs)
  from negotiate_request [of q s h pe "concat qs @ p @ rest"] Cons.prems obtain s1 where
    s1: "negotiate h None pe (q @ concat qs @ p @ rest) s = negotiate h None pe (concat qs @ p @ rest) s1"
      "healthy s1" "delivered s1 = delivered s @ ''N''" by auto
  from Cons.IH [OF _ s1(2)] Cons.prems s1 show ?case by auto
qed

section \<open>The connection to the server\<close>

lemma on_open_upstream:
  "co_upstream c = Some s \<Longrightarrow> on_open m c = (fst (m s), c\<lparr>co_upstream := Some (snd (m s))\<rparr>)"
  by (simp add: on_open_def case_prod_beta)

text \<open>What an unencrypted connection to the server can have been sent when encryption is required.\<close>

definition only_asked :: "TcpStream \<Rightarrow> Conn \<Rightarrow> bool" where
  "only_asked tcp c \<longleftrightarrow>
     (\<forall>t. co_upstream c = Some (Plain t) \<longrightarrow>
        (\<exists>n. delivered (Plain t) = delivered (Plain tcp) @ take n ssl_request))"

lemma upstream_tls_asks:
  assumes "upstream_tls h cf connector tcp reply c = (q, c')"
  shows "only_asked tcp c' \<and> (\<forall>u. q = Inr u \<longrightarrow> (\<exists>ch t. co_upstream c' = Some (Tls ch t)) \<and> reply = Inr (CHR ''S''))"
proof -
  obtain w s where w: "stream_write_all ssl_request (Plain tcp) = (w, s)" by fastforce
  from stream_write_all_prefix [of ssl_request "Plain tcp"] w
  have asked: "only_asked tcp (c\<lparr>co_upstream := Some s\<rparr>)" by (auto simp: only_asked_def)
  show ?thesis
    using assms w asked
    by (auto simp: upstream_tls_def Stream_plain_def connect_def only_asked_def Let_def
        split: sum.splits list.splits if_splits prod.splits)
qed

lemma begin_session_asks:
  assumes "tls_upstream (cf_tls cf) = Some connector" and "h_connect h (cf_upstream cf) = Inr (tcp, reply)"
    and "co_upstream c = None" and "begin_session h cf cid packet c = (q, c')"
  shows "only_asked tcp c' \<and>
    (\<forall>meta. q = Inr meta \<longrightarrow> (\<exists>ch t. co_upstream c' = Some (Tls ch t)) \<and> reply = Inr (CHR ''S''))"
proof (cases "metadata packet")
  case (Inl e)
  with assms(3,4) show ?thesis by (auto simp: begin_session_def only_asked_def)
next
  case (Inr meta)
  obtain q1 c1 where o: "open_upstream h cf c = (q1, c1)" by fastforce
  have "\<exists>n. delivered (Plain tcp) = delivered (Plain tcp) @ take n ssl_request" by (intro exI [of _ 0]) simp
  then have open1: "only_asked tcp c1 \<and>
      (\<forall>u. q1 = Inr u \<longrightarrow> (\<exists>ch t. co_upstream c1 = Some (Tls ch t)) \<and> reply = Inr (CHR ''S''))"
    using o assms(1,2) upstream_tls_asks [of h cf connector tcp reply c q1 c1]
    by (cases "set_nodelay tcp") (auto simp: open_upstream_def only_asked_def Stream_plain_def)
  show ?thesis
  proof (cases q1)
    case (Inl e)
    with Inr o open1 assms(4) show ?thesis by (auto simp: begin_session_def)
  next
    case q1: (Inr u)
    with open1 obtain ch t where up: "co_upstream c1 = Some (Tls ch t)" by blast
    obtain w s1 where w: "stream_write_all packet (Tls ch t) = (w, s1)" by fastforce
    with is_plain_write [OF w] obtain ch' t' where s1: "s1 = Tls ch' t'"
      by (cases s1) (simp_all add: is_plain_def)
    have "on_open (stream_write_all packet) c1 = (w, c1\<lparr>co_upstream := Some s1\<rparr>)"
      by (simp add: on_open_upstream [OF up] w)
    with assms(4) Inr o q1 have "co_upstream c' = Some s1"
      by (cases w) (auto simp: begin_session_def and_then_def on_part_def split: prod.splits sum.splits)
    with s1 open1 q1 show ?thesis by (simp add: only_asked_def)
  qed
qed

section \<open>A session from its first byte\<close>

text \<open>A log and two sockets that do not fail, before anything else happens.\<close>

lemma lifecycle_healthy:
  assumes "total_json env" and "room t = None"
  shows "\<exists>t'. lifecycle (env_to_json env) cid ev detail t = (Inr (), t') \<and> room t' = None"
  using assms by (auto simp: total_json_def lifecycle_def record_line_def split: sum.split) (metis Inl_Inr_False)

lemma begin_session_healthy:
  assumes "metadata packet = Inr meta" and "cf_tls cf = TlsConfig_default"
    and "h_connect h (cf_upstream cf) = Inr (tcp, reply)" and "set_nodelay tcp = Inr ()" and "healthy (Plain tcp)"
    and "total_json (h_env h)" and "room (co_trace c) = None"
  shows "\<exists>c' u. begin_session h cf cid packet c = (Inr meta, c') \<and> co_frontend c' = co_frontend c \<and>
    co_upstream c' = Some u \<and> healthy u \<and> delivered u = delivered (Plain tcp) @ packet \<and> room (co_trace c') = None"
proof -
  let ?c1 = "c\<lparr>co_upstream := Some (Plain tcp)\<rparr>"
  have o: "open_upstream h cf c = (Inr (), ?c1)"
    using assms(2-4) by (simp add: open_upstream_def TlsConfig_default_def Stream_plain_def)
  from healthy_ops(1) [OF assms(5), of packet] obtain u where
    u: "stream_write_all packet (Plain tcp) = (Inr (), u)" "healthy u" "delivered u = delivered (Plain tcp) @ packet"
    by blast
  have w: "on_open (stream_write_all packet) ?c1 = (Inr (), ?c1\<lparr>co_upstream := Some u\<rparr>)"
    by (simp add: on_open_def u)
  from lifecycle_healthy [OF assms(6,7)] obtain t' where
    t': "lifecycle (env_to_json (h_env h)) cid ''startup'' [] (co_trace c) = (Inr (), t')" "room t' = None" by blast
  show ?thesis
    unfolding begin_session_def by (simp add: assms(1) o w on_part_def t' u)
qed

section \<open>Startup packets\<close>

text \<open>The startup packet a client sends for some parameters.\<close>

definition startup_packet :: "(string \<times> string) list \<Rightarrow> string" where
  "startup_packet ps =
     to_be_bytes (word_of_nat (length (encode_parameters ps) + 8)) @ to_be_bytes PROTOCOL_V3 @ encode_parameters ps"

definition parameters_ok :: "(string \<times> string) list \<Rightarrow> bool" where
  "parameters_ok ps \<longleftrightarrow> list_all parameter_ok ps \<and> length (encode_parameters ps) + 8 \<le> 1024 * 1024"

lemma startup_packet_ok:
  assumes "parameters_ok ps"
  shows "packet_ok (startup_packet ps)" "packet_code (startup_packet ps) = PROTOCOL_V3"
    "metadata (startup_packet ps) = Inr (set_parameters ps StartupMetadata_default)"
  using assms metadata_loop_encode [of ps]
  by (simp_all add: startup_packet_def packet_ok_def packet_code_def metadata_def parameters_ok_def add_ac)

lemma ssl_request_ok: "packet_ok ssl_request" "length ssl_request = 8" "packet_code ssl_request = SSL_REQUEST"
  "encryption_request ssl_request"
  by (simp_all add: ssl_request_def packet_ok_def packet_code_def encryption_request_def)

definition example_parameters :: "(string \<times> string) list" where
  "example_parameters = [(''user'', ''alice''), (''application_name'', ''checkout-test'')]"

lemma example_parameters_ok: "parameters_ok example_parameters"
  by (simp add: parameters_ok_def parameter_ok_def example_parameters_def encode_parameters_def)

definition example_tcp :: TcpStream where
  "example_tcp = fd open_stream"

lemma example_tcp_simps [simp]:
  "healthy (Plain example_tcp)" "delivered (Plain example_tcp) = []" "set_nodelay example_tcp = Inr ()"
  by (simp_all add: example_tcp_def open_stream_def healthy_def delivered_def set_nodelay_def)

text \<open>A host whose server answers a request for encryption with \<open>reply\<close>.\<close>

definition example_host :: "err + byte \<Rightarrow> Host" where
  "example_host reply =
     \<lparr>h_env = example_env,
      h_accept = (\<lambda>acc tcp input. Inr (tcp_chan example_tcp, example_tcp, ssl_request)),
      h_tls_connect = (\<lambda>connector name tcp. Inr (tcp_chan example_tcp, tcp)),
      h_parse_name = Some,
      h_connect = (\<lambda>address. Inr (example_tcp, reply))\<rparr>"

abbreviation silent_server :: "err + byte" where
  "silent_server \<equiv> Inl UnexpectedEof"

section \<open>Properties\<close>

text \<open>
  C31: the proxy understands every startup packet. For any parameters that fit a packet, with non-empty
  names and no zero bytes, the packet is accepted by the startup reader, and \<^verbatim>\<open>metadata\<close> returns the
  values of the parameters \<^verbatim>\<open>user\<close>, \<^verbatim>\<open>database\<close> and \<^verbatim>\<open>application_name\<close>, decoded: of each the last one in
  the packet, and none if there is none.
\<close>

theorem startup_parameters_roundtrip:
  assumes "parameters_ok ps"
  shows "startup (startup_packet ps @ rest) = Inr (startup_packet ps, rest) \<and>
    packet_code (startup_packet ps) = PROTOCOL_V3 \<and>
    metadata (startup_packet ps) =
      Inr \<lparr>sm_user = map_option from_utf8_lossy (map_of (rev ps) ''user''),
           sm_database = map_option from_utf8_lossy (map_of (rev ps) ''database''),
           sm_application_name = map_option from_utf8_lossy (map_of (rev ps) ''application_name'')\<rparr>"
  using startup_packet_ok [OF assms] by (simp add: startup_iff set_parameters_default parameter_def)

theorem startup_parameters_roundtrip_witness:
  "metadata (startup_packet [(''user'', ''alice''), (''database'', ''shop''), (''user'', ''bob''), (''datestyle'', ''ISO'')]) =
     Inr \<lparr>sm_user = Some ''bob'', sm_database = Some ''shop'', sm_application_name = None\<rparr>"
proof -
  let ?ps = "[(''user'', ''alice''), (''database'', ''shop''), (''user'', ''bob''), (''datestyle'', ''ISO'')]"
  have "parameters_ok ?ps" by (simp add: parameters_ok_def parameter_ok_def encode_parameters_def)
  from startup_parameters_roundtrip [OF this] show ?thesis by (simp add: is_ascii_def)
qed

text \<open>
  C30: without a certificate every request for encryption is declined with one \<^verbatim>\<open>N\<close> and the negotiation
  goes on: whatever number of SSLRequest and GSSENCRequest packets precedes the startup packet, the
  negotiation ends with exactly that packet and has sent the client exactly one \<^verbatim>\<open>N\<close> per request. In
  particular it ends.
\<close>

theorem negotiation_without_tls:
  assumes "list_all encryption_request qs" and "packet_ok p" and "packet_code p = PROTOCOL_V3" and "healthy s"
  shows "\<exists>s'. negotiate h None pe (concat qs @ p @ rest) s = (Inr (StartupPacket p, rest), s') \<and>
    delivered s' = delivered s @ replicate (length qs) (CHR ''N'')"
  using negotiate_plain [OF assms, of h pe rest] by blast

theorem negotiation_without_tls_witness:
  "\<exists>s'. negotiate (h_accept (example_host silent_server)) None Closed
       (ssl_request @ startup_packet example_parameters) (Plain example_tcp) =
     (Inr (StartupPacket (startup_packet example_parameters), []), s') \<and> delivered s' = ''N''"
  using negotiation_without_tls [of "[ssl_request]" "startup_packet example_parameters" "Plain example_tcp"
      "h_accept (example_host silent_server)" Closed "[]"]
    startup_packet_ok [OF example_parameters_ok] ssl_request_ok
  by simp

text \<open>What a forwarded cancellation sends.\<close>

lemma forward_cancel_sends:
  assumes "h_connect h (cf_upstream cf) = Inr (tcp, reply)"
  shows "\<exists>t n. co_upstream (snd (forward_cancel h cf cid packet c)) = Some (Plain t) \<and>
    delivered (Plain t) = delivered (Plain tcp) @ take n packet"
proof -
  obtain q s where w: "stream_write_all packet (Plain tcp) = (q, s)" by fastforce
  from is_plain_write [OF w] obtain t where t: "s = Plain t" by (cases s) (simp_all add: is_plain_def)
  obtain q' s' where sh: "stream_shutdown (Plain t) = (q', s')" by fastforce
  then obtain t' where t': "s' = Plain t'" "delivered (Plain t') = delivered (Plain t)"
    by (auto simp: stream_shutdown_def on_part_def chan_shutdown_def delivered_def split: option.splits)
  have "co_upstream (snd (forward_cancel h cf cid packet c)) \<in> {Some (Plain t), Some (Plain t')}"
    using assms w sh t t'
    by (auto simp: forward_cancel_def and_then_def on_open_def Stream_plain_def on_part_def split: sum.splits prod.splits)
  moreover obtain n where "delivered (Plain t) = delivered (Plain tcp) @ take n packet"
    using stream_write_all_prefix [of packet "Plain tcp"] w t by auto
  ultimately show ?thesis using t' by auto
qed

text \<open>
  C14: with \<^verbatim>\<open>--upstream-tls\<close> no session runs on an unencrypted server connection. Whatever the client sends,
  whatever the server answers and wherever the setup fails, an unencrypted socket to the server has been
  sent nothing but a beginning of the SSLRequest, or, if the client asked for a cancellation instead of
  a session, a beginning of its CancelRequest packet, which is forwarded in plain text. A session starts
  only on an encrypted stream, after the server has answered \<^verbatim>\<open>S\<close>.
\<close>

theorem upstream_tls_no_downgrade:
  assumes "tls_upstream (cf_tls cf) = Some connector" and "h_connect h (cf_upstream cf) = Inr (tcp, reply)"
    and "open_session h cf cid w trace = (q, c')"
  shows "(\<forall>t. co_upstream c' = Some (Plain t) \<longrightarrow>
      (\<exists>n. delivered (Plain t) = delivered (Plain tcp) @ take n ssl_request) \<or>
      (\<exists>n packet rest s. delivered (Plain t) = delivered (Plain tcp) @ take n packet \<and>
         negotiate (h_accept h) (tls_frontend (cf_tls cf)) (w_end w) (w_input w) (Plain (w_client w)) =
           (Inr (CancelPacket packet, rest), s))) \<and>
    (\<forall>l. q = Inr (Some l) \<longrightarrow> (\<exists>ch t. n_upstream (r_net (l_relay l)) = Tls ch t) \<and> reply = Inr (CHR ''S''))"
proof (cases "set_nodelay (w_client w)")
  case (Inl e)
  with assms(3) show ?thesis by (auto simp: open_session_def Let_def)
next
  case (Inr u)
  obtain x s where n: "negotiate (h_accept h) (tls_frontend (cf_tls cf)) (w_end w) (w_input w) (Plain (w_client w)) = (x, s)"
    by fastforce
  let ?c = "\<lparr>co_frontend = s, co_upstream = None, co_trace = trace\<rparr>"
  consider (err) e where "x = Inl e" | (cancel) p rest where "x = Inr (CancelPacket p, rest)"
    | (session) p rest where "x = Inr (StartupPacket p, rest)"
    by (metis obj_sumE prod.exhaust request.exhaust)
  then show ?thesis
  proof cases
    case err
    with assms(3) Inr n show ?thesis by (auto simp: open_session_def Stream_plain_def Let_def)
  next
    case (cancel p rest)
    with assms(3) Inr n have "c' = snd (forward_cancel h cf cid p ?c)" "\<And>l. q \<noteq> Inr (Some l)"
      by (auto simp: open_session_def Stream_plain_def and_then_def Let_def split: sum.splits prod.splits)
    with forward_cancel_sends [OF assms(2), of cid p ?c] n cancel show ?thesis by auto
  next
    case (session p rest)
    obtain y c2 where b: "begin_session h cf cid p ?c = (y, c2)" by fastforce
    note asks = begin_session_asks [OF assms(1,2) _ b, simplified]
    from assms(3) Inr n session b have "c' = c2"
      by (auto simp: open_session_def Stream_plain_def Let_def split: sum.splits option.splits)
    moreover have "(\<exists>ch t. n_upstream (r_net (l_relay l)) = Tls ch t) \<and> reply = Inr (CHR ''S'')" if "q = Inr (Some l)" for l
      using assms(3) Inr n session b that asks
      by (auto simp: open_session_def Stream_plain_def Let_def Loop_new_def initial_relay_def split: sum.splits option.splits)
    ultimately show ?thesis using asks by (auto simp: only_asked_def)
  qed
qed

definition example_config :: "TlsConnector option \<Rightarrow> TlsAcceptor option \<Rightarrow> Config" where
  "example_config up down =
     \<lparr>cf_upstream = ''db:5432'', cf_scenarios = [], cf_tls = \<lparr>tls_frontend = down, tls_upstream = up\<rparr>\<rparr>"

definition example_conn :: Conn where
  "example_conn = \<lparr>co_frontend = Plain example_tcp, co_upstream = None, co_trace = \<lparr>written = [], room = None\<rparr>\<rparr>"

theorem upstream_tls_no_downgrade_witness:
  "\<exists>q c'. open_session (example_host (Inr (CHR ''N''))) (example_config (Some (TlsConnector NoVerify)) None) 1
     (\<lparr>w_client = example_tcp, w_end = Closed, w_input = startup_packet example_parameters,
       w_cut = (\<lambda>_. []), w_server_reads = []\<rparr>) \<lparr>written = [], room = None\<rparr> = (q, c') \<and> (\<forall>l. q \<noteq> Inr (Some l))"
proof -
  let ?h = "example_host (Inr (CHR ''N''))" and ?cf = "example_config (Some (TlsConnector NoVerify)) None"
  let ?w = "\<lparr>w_client = example_tcp, w_end = Closed, w_input = startup_packet example_parameters,
       w_cut = (\<lambda>_. []), w_server_reads = []\<rparr>"
  obtain q c' where b: "open_session ?h ?cf 1 ?w \<lparr>written = [], room = None\<rparr> = (q, c')" by fastforce
  have "tls_upstream (cf_tls ?cf) = Some (TlsConnector NoVerify)"
    "h_connect ?h (cf_upstream ?cf) = Inr (example_tcp, Inr (CHR ''N''))"
    by (simp_all add: example_config_def example_host_def)
  from upstream_tls_no_downgrade [OF this b] b show ?thesis by auto
qed

text \<open>
  C32: a cancellation request is forwarded as it came. When \<^verbatim>\<open>connection\<close> handles it without an error, the
  server has been sent exactly the 16 bytes of the packet on a connection of its own, which was then
  shut down, and the trace has one record of it. This connection is never encrypted, even where
  \<^verbatim>\<open>--upstream-tls\<close> is set.
\<close>

theorem cancel_forwarded_exactly:
  assumes "h_connect h (cf_upstream cf) = Inr (tcp, reply)" and "forward_cancel h cf cid packet c = (Inr u, c')"
  shows "\<exists>t line. co_upstream c' = Some (Plain t) \<and> delivered (Plain t) = delivered (Plain tcp) @ packet \<and>
    ch_shut (tcp_chan t) \<and> env_to_json (h_env h) (Lifecycle cid ''cancel.forwarded'' []) = Inr line \<and>
    written (co_trace c') = written (co_trace c) @ line @ [LF]"
proof -
  let ?c = "c\<lparr>co_upstream := Some (Plain tcp)\<rparr>"
  from assms obtain c1 c2 where w: "on_open (stream_write_all packet) ?c = (Inr (), c1)"
    and sh: "on_open stream_shutdown c1 = (Inr (), c2)"
    and l: "log_lifecycle h cid ''cancel.forwarded'' c2 = (Inr u, c')"
    by (auto simp: forward_cancel_def Stream_plain_def and_then_Inr)
  from w obtain s1 where s1: "stream_write_all packet (Plain tcp) = (Inr (), s1)" "c1 = ?c\<lparr>co_upstream := Some s1\<rparr>"
    by (auto simp: on_open_def split: prod.splits)
  with sh obtain s2 where s2: "stream_shutdown s1 = (Inr (), s2)" "c2 = ?c\<lparr>co_upstream := Some s2\<rparr>"
    by (auto simp: on_open_def split: prod.splits)
  from is_plain_write [OF s1(1)] obtain t1 where t1: "s1 = Plain t1" by (cases s1) (simp_all add: is_plain_def)
  with s2(1) obtain t where t: "s2 = Plain t" "ch_shut (tcp_chan t)" "delivered s2 = delivered s1"
    by (auto simp: stream_shutdown_def on_part_def chan_shutdown_def delivered_def split: option.splits)
  from l s2(2) obtain t' where "lifecycle (env_to_json (h_env h)) cid ''cancel.forwarded'' [] (co_trace c) = (Inr u, t')"
    and c': "c' = c2\<lparr>co_trace := t'\<rparr>" by (auto simp: on_part_def split: prod.splits)
  from record_line_Inr [OF this(1) [unfolded lifecycle_def]] c' s2(2) t stream_write_all_Inr [OF s1(1)]
  show ?thesis by auto
qed

theorem cancel_forwarded_exactly_witness:
  "\<exists>c' t. forward_cancel (example_host silent_server) (example_config (Some (TlsConnector NoVerify)) None) 1 ''0123456789abcdef''
     example_conn = (Inr (), c') \<and> co_upstream c' = Some (Plain t) \<and> delivered (Plain t) = ''0123456789abcdef''"
proof -
  let ?cf = "example_config (Some (TlsConnector NoVerify)) None"
  have hc: "h_connect (example_host silent_server) (cf_upstream ?cf) = Inr (example_tcp, silent_server)" by (simp add: example_host_def)
  have "\<exists>c'. forward_cancel (example_host silent_server) ?cf 1 ''0123456789abcdef'' example_conn = (Inr (), c')"
    by (simp add: forward_cancel_def example_host_def example_config_def Stream_plain_def on_open_def stream_defs
        and_then_def example_conn_def example_tcp_def example_defs lifecycle_def record_line_def example_to_json_def)
  then obtain c' where c': "forward_cancel (example_host silent_server) ?cf 1 ''0123456789abcdef'' example_conn = (Inr (), c')" by blast
  from cancel_forwarded_exactly [OF hc c'] c' show ?thesis by auto
qed

text \<open>A session that opens on sockets that do not fail, without encryption.\<close>

lemma open_session_healthy:
  assumes "cf_tls cf = TlsConfig_default"
    and "set_nodelay (w_client w) = Inr ()" and "healthy (Plain (w_client w))"
    and "h_connect h (cf_upstream cf) = Inr (tcp, reply)" and "set_nodelay tcp = Inr ()" and "healthy (Plain tcp)"
    and "total_json (h_env h)" and "room trace = None"
    and "list_all encryption_request qs" and "parameters_ok ps" and "w_input w = concat qs @ startup_packet ps @ rest"
  shows "\<exists>c r. open_session h cf cid w trace =
      (Inr (Some (Loop_new r (w_cut w rest) (w_server_reads w))), c) \<and> (cf_scenarios cf = [] \<longrightarrow> calm r) \<and>
    to_client r = delivered (Plain (w_client w)) @ replicate (length qs) (CHR ''N'') \<and>
    to_server r = delivered (Plain tcp) @ startup_packet ps"
proof -
  note p = startup_packet_ok [OF assms(10)]
  from negotiate_plain [OF assms(9) p(1,2) assms(3), of "h_accept h" "w_end w" rest] obtain s where
    s: "negotiate (h_accept h) None (w_end w) (concat qs @ startup_packet ps @ rest) (Plain (w_client w)) =
        (Inr (StartupPacket (startup_packet ps), rest), s)"
      "healthy s" "delivered s = delivered (Plain (w_client w)) @ replicate (length qs) (CHR ''N'')" by blast
  let ?c = "\<lparr>co_frontend = s, co_upstream = None, co_trace = trace\<rparr>"
  from begin_session_healthy [OF p(3) assms(1,4-7), of ?c cid] assms(8) obtain c1 u where
    c1: "begin_session h cf cid (startup_packet ps) ?c = (Inr (set_parameters ps StartupMetadata_default), c1)"
      "co_frontend c1 = s" "co_upstream c1 = Some u" "healthy u"
      "delivered u = delivered (Plain tcp) @ startup_packet ps" "room (co_trace c1) = None" by auto
  let ?r = "initial_relay cf cid (set_parameters ps StartupMetadata_default) u c1"
  have "cf_scenarios cf = [] \<longrightarrow> calm ?r" using c1 s by (simp add: calm_def initial_relay_def)
  moreover have "open_session h cf cid w trace =
      (Inr (Some (Loop_new ?r (w_cut w rest) (w_server_reads w))), c1)"
    using s(1) c1(1,3) assms(1,2,11) by (simp add: open_session_def Stream_plain_def TlsConfig_default_def)
  ultimately show ?thesis using s c1 by (auto simp: initial_relay_def)
qed

text \<open>
  C6: a session without scenarios is transparent from its first byte to its last. On sockets and a trace
  file that do not fail, a client may ask for encryption any number of times, start a session and send
  any frames but Terminate, and the server may send any frames. However the network cuts these bytes
  into reads and in whatever order the two readers are polled, as soon as each has been polled once per
  read and per frame, the connection is still open, the client has received one \<^verbatim>\<open>N\<close> per request and
  then exactly the server's bytes, and the server exactly the startup packet and the client's bytes.
\<close>

theorem session_transparent:
  assumes "cf_scenarios cf = []" and "cf_tls cf = TlsConfig_default"
    and "set_nodelay (w_client w) = Inr ()" and "healthy (Plain (w_client w))"
    and "h_connect h (cf_upstream cf) = Inr (tcp, reply)" and "set_nodelay tcp = Inr ()" and "healthy (Plain tcp)"
    and "total_json (h_env h)" and "room trace = None"
    and "list_all encryption_request qs" and "parameters_ok ps"
    and "w_input w = concat qs @ startup_packet ps @ bytes_of fs" and "list_all (\<lambda>f. tag f \<noteq> CHR ''X'') fs"
    and "cut_up fs [] (w_cut w (bytes_of fs))" and "cut_up gs [] (w_server_reads w)"
    and "length fs + length (w_cut w (bytes_of fs)) \<le> count_list schedule ClientBranch"
    and "length gs + length (w_server_reads w) \<le> count_list schedule ServerBranch"
  shows "\<exists>c' u. connection h cf cid w schedule trace = (None, c') \<and> co_upstream c' = Some u \<and>
    delivered (co_frontend c') =
      delivered (Plain (w_client w)) @ replicate (length qs) (CHR ''N'') @ bytes_of gs \<and>
    delivered u = delivered (Plain tcp) @ startup_packet ps @ bytes_of fs"
proof -
  from open_session_healthy [OF assms(2-12), of cid] assms(1) obtain c r where
    o: "open_session h cf cid w trace =
        (Inr (Some (Loop_new r (w_cut w (bytes_of fs)) (w_server_reads w))), c)"
    and r: "calm r" "to_client r = delivered (Plain (w_client w)) @ replicate (length qs) (CHR ''N'')"
      "to_server r = delivered (Plain tcp) @ startup_packet ps" by blast
  let ?l = "Loop_new r (w_cut w (bytes_of fs)) (w_server_reads w)"
  from select_loop_delivers [OF assms(8), of ?l fs gs schedule] assms(13-17) r(1) obtain l' where
    "select_loop (h_env h) schedule ?l = (None, l')"
    "to_server (l_relay l') = to_server r @ bytes_of fs" "to_client (l_relay l') = to_client r @ bytes_of gs"
    by (auto simp: Loop_new_def polls_def)
  with o r show ?thesis by (simp add: connection_def conn_of_relay_def)
qed

text \<open>A client that sends a query in two reads, and a server that answers with a notice.\<close>

definition example_wires :: Wires where
  "example_wires =
     \<lparr>w_client = example_tcp, w_end = Closed, w_input = ssl_request @ startup_packet example_parameters @ raw commit_query,
      w_cut = (\<lambda>bs. [Data (take 3 bs), Data (drop 3 bs)]), w_server_reads = [Data (raw notice)]\<rparr>"

lemma example_frames_ok: "frame_ok commit_query" "frame_ok notice"
  by (simp_all add: frame_ok_frame MAX_FRAME_def example_frames del: raw_frame)

theorem session_transparent_witness:
  "\<exists>c' u. connection (example_host silent_server) (example_config None None) 1 example_wires
      [ClientBranch, ServerBranch, ClientBranch, ServerBranch, ClientBranch] \<lparr>written = [], room = None\<rparr> =
     (None, c') \<and> co_upstream c' = Some u \<and> delivered (co_frontend c') = ''N'' @ raw notice \<and>
     delivered u = startup_packet example_parameters @ raw commit_query"
proof -
  have q: "cut_up [commit_query] [] (w_cut example_wires (raw commit_query))"
    unfolding cut_up_def
    by (intro conjI exI [of _ "[take 3 (raw commit_query), drop 3 (raw commit_query)]"])
      (simp_all add: example_wires_def example_frames_ok, simp_all add: example_frames)
  have n: "cut_up [notice] [] (w_server_reads example_wires)"
    unfolding cut_up_def
    by (intro conjI exI [of _ "[raw notice]"]) (simp_all add: example_wires_def example_frames_ok, simp add: example_frames)
  show ?thesis
    using session_transparent [of "example_config None None" example_wires "example_host silent_server" example_tcp silent_server
        "\<lparr>written = [], room = None\<rparr>" "[ssl_request]" example_parameters "[commit_query]" "[notice]"
        "[ClientBranch, ServerBranch, ClientBranch, ServerBranch, ClientBranch]" 1]
      example_parameters_ok ssl_request_ok(4) q n
    by (simp add: example_config_def example_host_def TlsConfig_default_def example_wires_def del: raw_frame)
qed

text \<open>
  A client that has finished its TLS handshake and sends another SSLRequest through the encrypted stream
  reaches \<^verbatim>\<open>into_plain\<close>, which panics.
\<close>

lemma second_ssl_request_panics:
  assumes "packet_ok q" and "length q = 8" and "packet_code q = SSL_REQUEST"
    and "tls_frontend (cf_tls cf) = Some acc" and "w_input w = q @ rest"
    and "set_nodelay (w_client w) = Inr ()" and "healthy (Plain (w_client w))"
    and "\<And>t. h_accept h acc t rest = Inr (ch, tcp, q @ rest')" and "healthy (Tls ch tcp)"
  shows "\<exists>c. open_session h cf cid w trace = (Inl (Panic ''SSLRequest after TLS already established''), c) \<and>
    co_trace c = trace"
proof -
  let ?msg = "''SSLRequest after TLS already established''"
  from healthy_ops(1) [OF assms(7), of "''S''"] obtain s1 where
    s1: "stream_write_all ''S'' (Plain (w_client w)) = (Inr (), s1)" by blast
  from is_plain_write [OF s1] obtain t1 where t1: "s1 = Plain t1" by (cases s1) (simp_all add: is_plain_def)
  from healthy_ops(1) [OF assms(9), of "''S''"] obtain s2 where
    s2: "stream_write_all ''S'' (Tls ch tcp) = (Inr (), s2)" by blast
  from is_plain_write [OF s2] obtain ch2 t2 where t2: "s2 = Tls ch2 t2" by (cases s2) (simp_all add: is_plain_def)
  have "negotiate (h_accept h) (Some acc) (w_end w) (q @ rest') (Tls ch tcp) = (Inl (Panic ?msg), s2)"
    using assms(1-3) s2 t2 by (simp add: negotiate.simps [of _ _ _ "q @ rest'"] into_plain_def)
  moreover have "negotiate (h_accept h) (Some acc) (w_end w) (q @ rest) (Plain (w_client w)) =
      negotiate (h_accept h) (Some acc) (w_end w) (q @ rest') (Tls ch tcp)"
    using assms(1-3,8) s1 t1 by (simp add: negotiate.simps [of _ _ _ "q @ rest"] into_plain_def accept_def)
  ultimately show ?thesis using assms(4-6) by (simp add: open_session_def Stream_plain_def)
qed

end
