(* ===== verification/Cli.thy ===== *)
theory Cli
  imports Connection_Props
begin

text \<open>
  The command line program (\<^verbatim>\<open>crates/pgfault-cli/src/main.rs\<close>): the TLS options, the four commands, and
  the probe with its verification query. The file system, the clock, the external command, the client
  library of the verification query and the parsers are parameters; the argument parser \<^verbatim>\<open>clap\<close> is
  represented by the values it produces and the option dependencies it enforces.
\<close>

section \<open>The system\<close>

datatype message = Row "string option list" | OtherMessage

record Output =
  out_code :: "int option"
  out_stdout :: string
  out_stderr :: string

record Os =
  os_install_default :: "Crypto \<Rightarrow> bool \<times> Crypto"
  os_read :: "string \<Rightarrow> err + string"
  os_pem_certs :: "string \<Rightarrow> (err + string) list"
  os_pem_key :: "string \<Rightarrow> err + string option"
  os_single_cert :: "string list \<Rightarrow> string \<Rightarrow> err + unit"
  os_add_root :: "string \<Rightarrow> err + string"
  os_default_roots :: "string list"
  os_from_yaml :: "string \<Rightarrow> err + Scenario"
  os_parse_duration :: "string \<Rightarrow> err + nat"
  os_open_lines :: "string \<Rightarrow> err + (err + string) list"
  os_from_json :: "string \<Rightarrow> err + Record"
  os_to_key :: "Scenario \<Rightarrow> err + string"
  os_parent :: "string \<Rightarrow> string option"
  os_create_dir_all :: "string \<Rightarrow> err + unit"
  os_open_new :: "string \<Rightarrow> err + Recorder"
  os_bind :: "string \<Rightarrow> err + nat"
  os_local_addr :: "nat \<Rightarrow> err + nat"
  os_nanos_since_epoch :: "nat option"
  os_pid :: nat
  os_run :: "string \<Rightarrow> string list \<Rightarrow> err + Output"
  os_query :: "string \<Rightarrow> string \<Rightarrow> err + message list"
  os_show_err :: "err \<Rightarrow> string"

section \<open>Options\<close>

record TlsArgs =
  ta_cert :: "string option"
  ta_key :: "string option"
  ta_upstream_tls :: bool
  ta_upstream_tls_insecure :: bool
  ta_upstream_ca :: "string option"

text \<open>The dependencies between the options that \<^verbatim>\<open>clap\<close> enforces (\<^verbatim>\<open>requires\<close>).\<close>

definition tls_args_ok :: "TlsArgs \<Rightarrow> bool" where
  "tls_args_ok a \<longleftrightarrow>
     (ta_cert a \<noteq> None \<longleftrightarrow> ta_key a \<noteq> None) \<and>
     (ta_upstream_tls_insecure a \<longrightarrow> ta_upstream_tls a) \<and> (ta_upstream_ca a \<noteq> None \<longrightarrow> ta_upstream_tls a)"

definition into_config :: "Os \<Rightarrow> TlsArgs \<Rightarrow> (Crypto, TlsConfig) io" where
  "into_config os a =
     and_then
       (case (ta_cert a, ta_key a) of
          (Some cert, Some key) \<Rightarrow>
            and_then (frontend_acceptor (os_install_default os) (os_read os) (os_pem_certs os) (os_pem_key os)
                (os_single_cert os) cert key)
              (\<lambda>acc. io_return (Some acc))
        | _ \<Rightarrow> io_return None)
       (\<lambda>front.
     and_then
       (if ta_upstream_tls a
        then and_then (upstream_connector (os_install_default os) (os_read os) (os_pem_certs os) (os_add_root os)
                 (os_default_roots os) (ta_upstream_tls_insecure a) (ta_upstream_ca a))
               (\<lambda>con. io_return (Some con))
        else io_return None)
       (\<lambda>up. io_return \<lparr>tls_frontend = front, tls_upstream = up\<rparr>))"

section \<open>Strings\<close>

text \<open>Decimal numbers, as \<^verbatim>\<open>to_string\<close> and \<^verbatim>\<open>format!\<close> write them.\<close>

fun show_nat :: "nat \<Rightarrow> string" where
  "show_nat n = (if n < 10 then [] else show_nat (n div 10)) @ [char_of (48 + n mod 10)]"

declare show_nat.simps [simp del]

definition show_int :: "int \<Rightarrow> string" where
  "show_int i = (if i < 0 then CHR ''-'' # show_nat (nat (- i)) else show_nat (nat i))"

text \<open>\<^verbatim>\<open>str::replace\<close> with a non-empty pattern, from left to right.\<close>

function replace_all :: "string \<Rightarrow> string \<Rightarrow> string \<Rightarrow> string" where
  "replace_all pat rep s =
     (if s = [] \<or> pat = [] then s
      else if take (length pat) s = pat then rep @ replace_all pat rep (drop (length pat) s)
      else hd s # replace_all pat rep (tl s))"
  by pat_completeness auto
termination
  by (relation "measure (\<lambda>(pat, rep, s). length s)") auto

declare replace_all.simps [simp del]

fun join :: "string \<Rightarrow> string list \<Rightarrow> string" where
  "join sep [] = []"
| "join sep [x] = x"
| "join sep (x # y # zs) = x @ sep @ join sep (y # zs)"

section \<open>Commands\<close>

definition default_trace_path :: "Os \<Rightarrow> err + string" where
  "default_trace_path os =
     (case os_nanos_since_epoch os of
        None \<Rightarrow> Inl (Panic ''called unwrap on an Err value'')
      | Some n \<Rightarrow> Inr (''.pgfault/traces/'' @ show_nat n @ ''-'' @ show_nat (os_pid os) @ ''.jsonl''))"

definition load_scenarios :: "Os \<Rightarrow> string list \<Rightarrow> err + Scenario list" where
  "load_scenarios os paths =
     collect_results (map (load (os_read os) (os_from_yaml os) (os_parse_duration os)) paths)"

text \<open>What a listener is started with. No crypto provider is installed when the program starts.\<close>

record Launch =
  la_port :: nat
  la_config :: Config
  la_trace :: Recorder

definition launch ::
  "Os \<Rightarrow> string \<Rightarrow> string \<Rightarrow> Scenario list \<Rightarrow> string option \<Rightarrow> TlsArgs \<Rightarrow> err + Launch" where
  "launch os listen upstream scenarios trace tls =
     try_then (fst (into_config os tls None)) (\<lambda>t.
     try_then (case trace of Some p \<Rightarrow> Inr p | None \<Rightarrow> default_trace_path os) (\<lambda>path.
     try_then (Recorder_create (os_parent os) (os_create_dir_all os) (os_open_new os) path) (\<lambda>recorder.
     try_then (os_bind os listen) (\<lambda>listener.
     try_then (os_local_addr os listener) (\<lambda>port.
       Inr \<lparr>la_port = port,
            la_config = \<lparr>cf_upstream = upstream, cf_scenarios = scenarios, cf_tls = t\<rparr>,
            la_trace = recorder\<rparr>)))))"

definition row_text :: "message \<Rightarrow> string option" where
  "row_text m =
     (case m of
        Row cells \<Rightarrow> Some (join '' | '' (map (\<lambda>c. case c of None \<Rightarrow> ''NULL'' | Some t \<Rightarrow> t) cells))
      | OtherMessage \<Rightarrow> None)"

definition verify_query :: "Os \<Rightarrow> string \<Rightarrow> string \<Rightarrow> err + string list" where
  "verify_query os dsn sql =
     try_then (os_query os dsn sql) (\<lambda>ms. Inr (List.map_filter row_text ms))"

record ProbeArgs =
  pa_listen :: string
  pa_upstream :: string
  pa_scenario :: "string list"
  pa_trace :: "string option"
  pa_tls :: TlsArgs
  pa_verify_sql :: "string option"
  pa_verify_dsn :: "string option"
  pa_command :: "string list"

definition port_placeholder :: string where
  "port_placeholder = ''{{PGFAULT_PORT}}''"

definition substitute :: "nat \<Rightarrow> string list \<Rightarrow> string list" where
  "substitute port command = map (replace_all port_placeholder (show_nat port)) command"

text \<open>The lines the probe prints, once the command and the listener have ended.\<close>

definition verify_lines :: "Os \<Rightarrow> string \<Rightarrow> string \<Rightarrow> string list" where
  "verify_lines os sql dsn =
     (''=== ground truth: '' @ sql @ '' ==='') #
     (case verify_query os dsn sql of
        Inr rows \<Rightarrow> if rows = [] then [''(no rows)''] else rows
      | Inl e \<Rightarrow> [''verify query failed: '' @ os_show_err os e])"

definition report :: "Os \<Rightarrow> ProbeArgs \<Rightarrow> string list \<Rightarrow> Output \<Rightarrow> string list" where
  "report os a substituted output =
     [''$ '' @ join '' '' substituted,
      ''exit code: '' @ (case out_code output of None \<Rightarrow> ''signaled'' | Some c \<Rightarrow> show_int c)] @
     (if out_stdout output \<noteq> [] then [''--- stdout ---'', from_utf8_lossy (out_stdout output)] else []) @
     (if out_stderr output \<noteq> [] then [''--- stderr ---'', from_utf8_lossy (out_stderr output)] else []) @
     (case (pa_verify_sql a, pa_verify_dsn a) of
        (Some sql, Some dsn) \<Rightarrow> verify_lines os sql dsn
      | _ \<Rightarrow> [])"

text \<open>
  \<^verbatim>\<open>probe\<close>: \<open>served\<close> is what the listener, told to shut down after the command has ended, returns. The
  result is the exit code or the error, and the printed lines.
\<close>

definition probe :: "Os \<Rightarrow> (Launch \<Rightarrow> err + unit) \<Rightarrow> ProbeArgs \<Rightarrow> (err + int) \<times> string list" where
  "probe os served a =
     (case try_then (load_scenarios os (pa_scenario a)) (\<lambda>scenarios.
            launch os (pa_listen a) (pa_upstream a) scenarios (pa_trace a) (pa_tls a)) of
        Inl e \<Rightarrow> (Inl e, [])
      | Inr la \<Rightarrow>
          let substituted = substitute (la_port la) (pa_command a) in
          (case substituted of
             [] \<Rightarrow> (Inl (Bail ''empty command''), [])
           | program # args \<Rightarrow>
               (case os_run os program args of
                  Inl e \<Rightarrow> (Inl e, [])
                | Inr output \<Rightarrow>
                    (case served la of
                       Inl e \<Rightarrow> (Inl e, [])
                     | Inr _ \<Rightarrow>
                         (Inr (case out_code output of None \<Rightarrow> 1 | Some c \<Rightarrow> c), report os a substituted output)))))"

datatype Command =
    Run string string "string list" "string option" TlsArgs
  | Replay string string string "string option" TlsArgs
  | Validate string
  | Probe ProbeArgs

text \<open>What \<^verbatim>\<open>main\<close> comes to: a line printed, an exit code with the printed lines, or a listener.\<close>

datatype started = Printed string | Exit "err + int" "string list" | Serving Launch

definition main_command :: "Os \<Rightarrow> (Launch \<Rightarrow> err + unit) \<Rightarrow> Command \<Rightarrow> err + started" where
  "main_command os served cmd =
     (case cmd of
        Validate path \<Rightarrow>
          try_then (load (os_read os) (os_from_yaml os) (os_parse_duration os) path) (\<lambda>s.
            Inr (Printed (''valid: '' @ sc_name s)))
      | Probe a \<Rightarrow> (case probe os served a of (r, out) \<Rightarrow> Inr (Exit r out))
      | Run listen upstream scenario trace tls \<Rightarrow>
          try_then (load_scenarios os scenario) (\<lambda>scenarios.
          try_then (launch os listen upstream scenarios trace tls) (\<lambda>la. Inr (Serving la)))
      | Replay trace listen upstream output_trace tls \<Rightarrow>
          try_then (replay (os_open_lines os) (os_from_json os) (os_to_key os) (os_parse_duration os) trace) (\<lambda>scenarios.
          try_then (launch os listen upstream scenarios output_trace tls) (\<lambda>la. Inr (Serving la))))"

section \<open>Decimal numbers\<close>

definition read_nat :: "string \<Rightarrow> nat" where
  "read_nat s = foldl (\<lambda>n c. 10 * n + (ord c - 48)) 0 s"

lemma show_nat_digits: "list_all is_ascii_digit (show_nat n) \<and> read_nat (show_nat n) = n"
proof (induction n rule: show_nat.induct)
  case (1 n)
  have digit: "ord (char_of (48 + n mod 10) :: byte) = 48 + n mod 10"
    using of_char_of [of "48 + n mod 10"] by (simp add: take_bit_eq_mod)
  then have "is_ascii_digit (char_of (48 + n mod 10))"
    by (simp add: is_ascii_digit_def)
  with 1 digit show ?case
    by (cases "n < 10") (simp_all add: show_nat.simps [of n] read_nat_def)
qed

section \<open>Substitution\<close>

lemma replace_all_simps:
  "replace_all pat rep [] = []"
  "pat \<noteq> [] \<Longrightarrow> replace_all pat rep (pat @ s) = rep @ replace_all pat rep s"
  by (simp_all add: replace_all.simps [of pat rep "[]"] replace_all.simps [of pat rep "pat @ s"])

lemma replace_all_other:
  "pat \<noteq> [] \<Longrightarrow> c \<noteq> hd pat \<Longrightarrow> replace_all pat rep (c # s) = c # replace_all pat rep s"
  by (subst replace_all.simps) (cases pat; simp)

lemma replace_all_skip:
  "pat \<noteq> [] \<Longrightarrow> hd pat \<notin> set x \<Longrightarrow> replace_all pat rep (x @ s) = x @ replace_all pat rep s"
  by (induction x) (auto simp: replace_all_other)

lemma replace_all_join:
  assumes "pat \<noteq> []" and "list_all (\<lambda>x. hd pat \<notin> set x) xs"
  shows "replace_all pat rep (join pat xs) = join rep xs"
  using assms
proof (induction pat xs rule: join.induct)
  case (2 sep x)
  then show ?case using replace_all_skip [of sep x rep "[]"] by (simp add: replace_all_simps)
next
  case (3 sep x y zs)
  then show ?case by (simp add: replace_all_skip replace_all_simps)
qed (simp add: replace_all_simps)

section \<open>Properties\<close>

lemma load_scenarios_valid:
  assumes "load_scenarios os paths = Inr ss"
  shows "list_all (\<lambda>s. validate (os_parse_duration os) s = Inr ()) ss"
proof -
  from assms have m: "map (load (os_read os) (os_from_yaml os) (os_parse_duration os)) paths = map Inr ss"
    by (simp add: load_scenarios_def collect_results_Inr)
  have "validate (os_parse_duration os) (ss ! i) = Inr ()" if "i < length ss" for i
  proof -
    from m have "length paths = length ss" by (metis length_map)
    with m that have "load (os_read os) (os_from_yaml os) (os_parse_duration os) (paths ! i) = Inr (ss ! i)"
      by (metis nth_map)
    then show ?thesis by (rule load_valid)
  qed
  then show ?thesis by (simp add: list_all_length)
qed

text \<open>
  The proxy only ever runs valid scenarios. Whether they come from files or from a recorded trace, the
  scenarios of a listener the program starts have all passed validation; an invalid one stops the
  program before the trace file is created and the port is bound.
\<close>

lemma served_scenarios_valid:
  assumes "main_command os served cmd = Inr (Serving la)"
  shows "list_all (\<lambda>s. validate (os_parse_duration os) s = Inr ()) (cf_scenarios (la_config la))"
proof -
  have la: "cf_scenarios (la_config la) = ss" if "launch os li up ss tr tls = Inr la" for li up ss tr tls
    using that by (auto simp: launch_def)
  show ?thesis
  proof (cases cmd)
    case (Run li up paths tr tls)
    with assms obtain ss where "load_scenarios os paths = Inr ss" "launch os li up ss tr tls = Inr la"
      by (auto simp: main_command_def)
    with load_scenarios_valid la show ?thesis by blast
  next
    case (Replay path li up tr tls)
    with assms obtain ss where
      ss: "replay (os_open_lines os) (os_from_json os) (os_to_key os) (os_parse_duration os) path = Inr ss"
      "launch os li up ss tr tls = Inr la"
      by (auto simp: main_command_def)
    with replay_valid la show ?thesis by blast
  qed (use assms in \<open>auto simp: main_command_def split: prod.splits\<close>)
qed

text \<open>A system in which one scenario file exists.\<close>

definition example_os :: Os where
  "example_os =
     \<lparr>os_install_default = (\<lambda>p. (p = None, case p of None \<Rightarrow> Some ''ring'' | Some x \<Rightarrow> Some x)),
      os_read = (\<lambda>p. if p = ''s.yaml'' then Inr ''yaml'' else Inl (Io ''not found'')),
      os_pem_certs = (\<lambda>_. [Inr ''cert'']), os_pem_key = (\<lambda>_. Inr (Some ''key'')),
      os_single_cert = (\<lambda>_ _. Inr ()), os_add_root = Inr, os_default_roots = [''root''],
      os_from_yaml = (\<lambda>_. Inr ambiguous_commit), os_parse_duration = (\<lambda>_. Inl (External ''no duration'')),
      os_open_lines = (\<lambda>_. Inl (Io ''not found'')), os_from_json = example_from_json,
      os_to_key = (\<lambda>s. Inr (sc_name s)), os_parent = (\<lambda>_. None), os_create_dir_all = (\<lambda>_. Inr ()),
      os_open_new = (\<lambda>_. Inr \<lparr>written = [], room = None\<rparr>), os_bind = (\<lambda>_. Inr 3), os_local_addr = (\<lambda>_. Inr 15432),
      os_nanos_since_epoch = Some 7, os_pid = 42,
      os_run = (\<lambda>_ _. Inr \<lparr>out_code = Some 0, out_stdout = [], out_stderr = []\<rparr>),
      os_query = (\<lambda>_ _. Inr []), os_show_err = (\<lambda>_. [])\<rparr>"

definition no_tls :: TlsArgs where
  "no_tls = \<lparr>ta_cert = None, ta_key = None, ta_upstream_tls = False, ta_upstream_tls_insecure = False,
     ta_upstream_ca = None\<rparr>"

lemma example_launch:
  "\<exists>la. main_command example_os (\<lambda>_. Inr ()) (Run ''127.0.0.1:15432'' ''127.0.0.1:5432'' [''s.yaml''] (Some ''t'') no_tls) =
     Inr (Serving la) \<and> la_config la = \<lparr>cf_upstream = ''127.0.0.1:5432'', cf_scenarios = [ambiguous_commit],
       cf_tls = TlsConfig_default\<rparr> \<and> la_trace la = \<lparr>written = [], room = None\<rparr>"
proof -
  have "load (os_read example_os) (os_from_yaml example_os) (os_parse_duration example_os) ''s.yaml'' = Inr ambiguous_commit"
    by (simp add: load_def example_os_def ambiguous_commit_valid)
  then show ?thesis
    by (simp add: main_command_def load_scenarios_def launch_def into_config_def no_tls_def Recorder_create_def TlsConfig_default_def)
      (simp add: example_os_def)
qed

text \<open>
  C34: the TLS options mean what they say. For options that pass the dependencies of the parser, clients
  are offered TLS exactly when a certificate was given, the server is spoken to over TLS exactly when
  \<^verbatim>\<open>--upstream-tls\<close> was given, and its certificate goes unchecked exactly when
  \<^verbatim>\<open>--upstream-tls-insecure\<close> was given. Where \<^verbatim>\<open>install_default\<close> leaves a
  crypto provider installed, as it is documented to do, one is installed whenever TLS is used on either
  side, however often it is called.
\<close>

theorem tls_options_faithful:
  assumes "tls_args_ok a" and "into_config os a p = (Inr t, p')" and "\<And>x. snd (os_install_default os x) \<noteq> None"
  shows "(tls_frontend t \<noteq> None \<longleftrightarrow> ta_cert a \<noteq> None) \<and>
    (tls_upstream t \<noteq> None \<longleftrightarrow> ta_upstream_tls a) \<and>
    (tls_upstream t = Some (TlsConnector NoVerify) \<longleftrightarrow> ta_upstream_tls_insecure a) \<and>
    (tls_frontend t \<noteq> None \<or> tls_upstream t \<noteq> None \<longrightarrow> p' \<noteq> None)"
  using assms
  by (cases "ta_cert a"; cases "ta_key a")
    (auto simp: tls_args_ok_def into_config_def frontend_acceptor_def upstream_connector_def
      ensure_crypto_provider_def and_then_Inr split: if_splits option.splits)

theorem tls_options_faithful_witness:
  "\<exists>t p. into_config example_os (no_tls\<lparr>ta_upstream_tls := True\<rparr>) None = (Inr t, p) \<and> tls_frontend t = None \<and>
     tls_upstream t \<noteq> None \<and> tls_upstream t \<noteq> Some (TlsConnector NoVerify) \<and> p \<noteq> None"
proof -
  let ?a = "no_tls\<lparr>ta_upstream_tls := True\<rparr>"
  have ok: "tls_args_ok ?a" by (simp add: tls_args_ok_def no_tls_def)
  have inst: "snd (os_install_default example_os x) \<noteq> None" for x by (simp add: example_os_def split: option.split)
  obtain t p where t: "into_config example_os ?a None = (Inr t, p)"
    by (simp add: into_config_def no_tls_def upstream_connector_def and_then_def)
  from tls_options_faithful [OF ok t inst] t show ?thesis by (simp add: no_tls_def)
qed

text \<open>
  \<^verbatim>\<open>probe\<close> passes the port of the listener to the command. An argument made of pieces without an opening
  brace, with the placeholder between them, becomes these pieces with the decimal port between them;
  and the text of the port consists of digits that read back as the port.
\<close>

lemma probe_substitutes_port:
  assumes "list_all (\<lambda>x. CHR ''{'' \<notin> set x) pieces"
  shows "substitute port [join port_placeholder pieces] = [join (show_nat port) pieces] \<and>
    list_all is_ascii_digit (show_nat port) \<and> read_nat (show_nat port) = port"
  using replace_all_join [of port_placeholder pieces "show_nat port"] show_nat_digits [of port] assms
  by (simp add: substitute_def) (simp add: port_placeholder_def)

end
