(* ===== verification/Shared_Trace.thy ===== *)
theory Shared_Trace
  imports Connection
begin

text \<open>
  The connections of the proxy share one thing, the trace recorder (\<^verbatim>\<open>Config::trace\<close> is a handle that
  every task clones). This theory shows that what a connection does cannot depend on what others have
  written there: on a trace file that does not fail, every operation of a connection commutes with
  putting text in front of the trace, so it gives the same result, does the same to the sockets and
  appends the same lines, whatever the file holds already.

  The locale \<open>shared_log\<close> states this for operations on any state that contains a log; \<open>shared_part\<close>
  and \<open>private_part\<close> lift operations on a part of the state, with and without the log.
\<close>

section \<open>The contract\<close>

locale shared_log =
  fixes add :: "string \<Rightarrow> 's \<Rightarrow> 's" and fine :: "'s \<Rightarrow> bool"
  assumes fine_add: "fine (add p s) = fine s"
begin

definition blind :: "('s, 'a) io \<Rightarrow> bool" where
  "blind m \<longleftrightarrow> (\<forall>p s. fine s \<longrightarrow> m (add p s) = map_prod id (add p) (m s) \<and> fine (snd (m s)))"

lemma blindI:
  "(\<And>p s q s'. fine s \<Longrightarrow> m s = (q, s') \<Longrightarrow> m (add p s) = (q, add p s') \<and> fine s') \<Longrightarrow> blind m"
  unfolding blind_def by (metis map_prod_simp id_apply snd_conv surj_pair)

lemma blindD: "blind m \<Longrightarrow> fine s \<Longrightarrow> m s = (q, s') \<Longrightarrow> m (add p s) = (q, add p s') \<and> fine s'"
  unfolding blind_def by (metis id_apply map_prod_simp snd_conv)

lemma blind_return: "blind (io_return x)"
  by (rule blindI) auto

lemma blind_fail: "blind (\<lambda>s. (Inl e, s))"
  by (rule blindI) auto

lemma blind_if: "blind m \<Longrightarrow> blind m' \<Longrightarrow> blind (if b then m else m')"
  by simp

lemma blind_and_then:
  assumes "blind m" and "\<And>x. blind (k x)"
  shows "blind (and_then m k)"
proof (rule blindI)
  fix p s q s'
  assume f: "fine s" and r: "and_then m k s = (q, s')"
  obtain q1 s1 where 1: "m s = (q1, s1)" by fastforce
  note add1 = blindD [OF assms(1) f 1]
  show "and_then m k (add p s) = (q, add p s') \<and> fine s'"
  proof (cases q1)
    case (Inl e)
    with r 1 add1 show ?thesis by auto
  next
    case (Inr x)
    with r 1 have "k x s1 = (q, s')" by simp
    with blindD [OF assms(2)] add1 Inr show ?thesis by fastforce
  qed
qed

lemma blind_update:
  "(\<And>p s. g (add p s) = add p (g s)) \<Longrightarrow> (\<And>s. fine s \<Longrightarrow> fine (g s)) \<Longrightarrow> blind (\<lambda>s. (q, g s))"
  by (rule blindI) auto

lemma blind_after:
  assumes "\<And>p s. g (add p s) = add p (g s)" and "\<And>s. fine s \<Longrightarrow> fine (g s)" and "blind m"
  shows "blind (\<lambda>s. m (g s))"
  by (rule blindI) (metis assms blindD)

text \<open>An operation chosen by what it sees of the state, as long as it does not see the log.\<close>

lemma blind_choose:
  "(\<And>p s. sees (add p s) = sees s) \<Longrightarrow> (\<And>v. blind (m v)) \<Longrightarrow> blind (\<lambda>s. m (sees s) s)"
  by (rule blindI) (metis blindD)

end

locale shared_part = whole: shared_log add fine + part: shared_log padd pfine
  for add :: "string \<Rightarrow> 's \<Rightarrow> 's" and fine and padd :: "string \<Rightarrow> 'p \<Rightarrow> 'p" and pfine +
  fixes get :: "'s \<Rightarrow> 'p" and put :: "'p \<Rightarrow> 's \<Rightarrow> 's"
  assumes get_add: "get (add p s) = padd p (get s)"
    and put_add: "put (padd p x) (add p s) = add p (put x s)"
    and fine_get: "fine s \<Longrightarrow> pfine (get s)"
    and fine_put: "fine s \<Longrightarrow> pfine x \<Longrightarrow> fine (put x s)"
begin

lemma blind_on_part:
  assumes "part.blind m"
  shows "whole.blind (on_part get put m)"
proof (rule whole.blindI)
  fix p s q s'
  assume f: "fine s" and r: "on_part get put m s = (q, s')"
  then obtain x where x: "m (get s) = (q, x)" and s': "s' = put x s"
    by (auto simp: on_part_def split: prod.split_asm)
  from part.blindD [OF assms fine_get [OF f] x, of p] f
  show "on_part get put m (add p s) = (q, add p s') \<and> fine s'"
    by (simp add: on_part_def get_add put_add fine_put s')
qed

end

locale private_part = shared_log add fine for add :: "string \<Rightarrow> 's \<Rightarrow> 's" and fine +
  fixes get :: "'s \<Rightarrow> 'p" and put :: "'p \<Rightarrow> 's \<Rightarrow> 's"
  assumes get_add: "get (add p s) = get s"
    and put_add: "put x (add p s) = add p (put x s)"
    and fine_put: "fine s \<Longrightarrow> fine (put x s)"
begin

lemma blind_on_private: "blind (on_part get put m)"
  by (rule blindI) (auto simp: on_part_def get_add put_add fine_put split: prod.split_asm)

end

section \<open>The states that contain the trace\<close>

definition add_rec :: "string \<Rightarrow> Recorder \<Rightarrow> Recorder" where
  "add_rec p k = k\<lparr>written := p @ written k\<rparr>"

definition fine_rec :: "Recorder \<Rightarrow> bool" where
  "fine_rec k \<longleftrightarrow> room k = None"

definition add_net :: "string \<Rightarrow> Net \<Rightarrow> Net" where
  "add_net p n = n\<lparr>n_trace := add_rec p (n_trace n)\<rparr>"

definition fine_net :: "Net \<Rightarrow> bool" where
  "fine_net n \<longleftrightarrow> fine_rec (n_trace n)"

definition add_relay :: "string \<Rightarrow> Relay \<Rightarrow> Relay" where
  "add_relay p r = r\<lparr>r_net := add_net p (r_net r)\<rparr>"

definition fine_relay :: "Relay \<Rightarrow> bool" where
  "fine_relay r \<longleftrightarrow> fine_net (r_net r)"

definition add_loop :: "string \<Rightarrow> Loop \<Rightarrow> Loop" where
  "add_loop p l = l\<lparr>l_relay := add_relay p (l_relay l)\<rparr>"

definition fine_loop :: "Loop \<Rightarrow> bool" where
  "fine_loop l \<longleftrightarrow> fine_relay (l_relay l)"

definition add_conn :: "string \<Rightarrow> Conn \<Rightarrow> Conn" where
  "add_conn p c = c\<lparr>co_trace := add_rec p (co_trace c)\<rparr>"

definition fine_conn :: "Conn \<Rightarrow> bool" where
  "fine_conn c \<longleftrightarrow> fine_rec (co_trace c)"

interpretation rec_log: shared_log add_rec fine_rec
  by unfold_locales (simp add: add_rec_def fine_rec_def)

interpretation net_log: shared_log add_net fine_net
  by unfold_locales (simp add: add_net_def fine_net_def rec_log.fine_add)

interpretation relay_log: shared_log add_relay fine_relay
  by unfold_locales (simp add: add_relay_def fine_relay_def net_log.fine_add)

interpretation loop_log: shared_log add_loop fine_loop
  by unfold_locales (simp add: add_loop_def fine_loop_def relay_log.fine_add)

interpretation conn_log: shared_log add_conn fine_conn
  by unfold_locales (simp add: add_conn_def fine_conn_def rec_log.fine_add)

interpretation net_trace: shared_part add_net fine_net add_rec fine_rec n_trace "\<lambda>t n. n\<lparr>n_trace := t\<rparr>"
  by unfold_locales (simp_all add: add_net_def fine_net_def)

interpretation net_frontend: private_part add_net fine_net n_frontend "\<lambda>t n. n\<lparr>n_frontend := t\<rparr>"
  by unfold_locales (simp_all add: add_net_def fine_net_def)

interpretation net_upstream: private_part add_net fine_net n_upstream "\<lambda>t n. n\<lparr>n_upstream := t\<rparr>"
  by unfold_locales (simp_all add: add_net_def fine_net_def)

interpretation relay_net: shared_part add_relay fine_relay add_net fine_net r_net "\<lambda>n r. r\<lparr>r_net := n\<rparr>"
  by unfold_locales (simp_all add: add_relay_def fine_relay_def)

interpretation loop_relay: shared_part add_loop fine_loop add_relay fine_relay l_relay "\<lambda>r l. l\<lparr>l_relay := r\<rparr>"
  by unfold_locales (simp_all add: add_loop_def fine_loop_def)

interpretation conn_trace: shared_part add_conn fine_conn add_rec fine_rec co_trace "\<lambda>t c. c\<lparr>co_trace := t\<rparr>"
  by unfold_locales (simp_all add: add_conn_def fine_conn_def)

section \<open>The relay\<close>

lemma blind_record_line: "rec_log.blind (record_line to_json r)"
  by (rule rec_log.blindI) (auto simp: record_line_def fine_rec_def add_rec_def split: sum.split_asm)

lemmas blind_recording =
  blind_record_line
  blind_record_line [of _ "Semantic e" for e, folded record_event_def]
  blind_record_line [of _ "Lifecycle cid ev detail" for cid ev detail, folded lifecycle_def]

lemmas blind_net_parts [simp] =
  net_frontend.blind_on_private net_upstream.blind_on_private
  blind_recording [THEN net_trace.blind_on_part]

lemma blind_delay_for: "net_log.blind (delay_for env d)"
  by (rule net_log.blindI)
    (auto simp: delay_for_def add_net_def fine_net_def split: option.split_asm sum.split_asm)

lemma blind_disconnect: "net_log.blind (disconnect dc)"
  by (simp add: disconnect_def Let_def split: Side.split)

lemma blind_fire: "net_log.blind (fire env e s d)"
proof -
  let ?rest = "\<lambda>n. let d1 = (if suppresses (sc_action s) then d\<lparr>d_suppress := True\<rparr> else d);
           n1 = set_truncate (act_truncate_result (sc_action s)) n
       in case act_disconnect (sc_action s) of
            None \<Rightarrow> (Inr d1, n1)
          | Some dc \<Rightarrow> and_then (disconnect dc) (\<lambda>_. io_return (d1\<lparr>d_disconnect := True\<rparr>)) n1"
  have tr: "set_truncate t (add_net p n) = add_net p (set_truncate t n)" "fine_net (set_truncate t n) = fine_net n"
    for t p n
    by (simp_all add: set_truncate_def add_net_def fine_net_def split: option.split)
  have dc: "net_log.blind (and_then (disconnect dc) (\<lambda>_. io_return x))" for dc and x :: Disposition
    by (intro net_log.blind_and_then blind_disconnect net_log.blind_return)
  have "net_log.blind ?rest"
  proof (cases "act_disconnect (sc_action s)")
    case None
    then show ?thesis by (simp add: Let_def net_log.blind_update tr)
  next
    case (Some c)
    with dc show ?thesis
      by (simp add: Let_def net_log.blind_after [where g = "set_truncate (act_truncate_result (sc_action s))"] tr)
  qed
  then show ?thesis unfolding fire_def
    by (intro net_log.blind_and_then blind_delay_for) simp_all
qed

lemma offer_blind:
  assumes "fine_net n" and "offer env e ms d n = (q, ms', n')"
  shows "offer env e ms d (add_net p n) = (q, ms', add_net p n') \<and> fine_net n'"
  using assms
proof (induction ms arbitrary: d n ms')
  case (Cons m ms)
  obtain fired m' where ob: "observe m e = (fired, m')" by fastforce
  let ?f = "\<lambda>n. if fired then fire env e (m_scenario m') d n else (Inr d, n)"
  obtain q1 n1 where f: "?f n = (q1, n1)" by fastforce
  have f': "?f (add_net p n) = (q1, add_net p n1) \<and> fine_net n1"
    using f net_log.blindD [OF blind_fire Cons.prems(1)] Cons.prems(1) by (cases fired) auto
  show ?case
  proof (cases q1)
    case (Inl x)
    with Cons.prems(2) ob f f' show ?thesis by auto
  next
    case (Inr d1)
    with Cons.prems(2) ob f obtain ms1 where o: "offer env e ms d1 n1 = (q, ms1, n')" and "ms' = m' # ms1"
      by (auto split: prod.split_asm)
    with Cons.IH [OF _ o] ob f' Inr show ?thesis by simp
  qed
qed simp

lemma blind_apply_event: "net_log.blind (apply_event env e d)"
proof -
  have "net_log.blind (\<lambda>n. case offer env e (n_matchers n) d n of (r, ms, n') \<Rightarrow> (r, n'\<lparr>n_matchers := ms\<rparr>))"
  proof (rule net_log.blindI)
    fix p n q n'
    assume f: "fine_net n"
      and "(case offer env e (n_matchers n) d n of (r, ms, n') \<Rightarrow> (r, n'\<lparr>n_matchers := ms\<rparr>)) = (q, n')"
    then obtain ms n1 where o: "offer env e (n_matchers n) d n = (q, ms, n1)" and n': "n' = n1\<lparr>n_matchers := ms\<rparr>"
      by (auto split: prod.split_asm)
    have "n_matchers (add_net p n) = n_matchers n" by (simp add: add_net_def)
    with offer_blind [OF f o, of p] n'
    show "(case offer env e (n_matchers (add_net p n)) d (add_net p n) of (r, ms, n') \<Rightarrow> (r, n'\<lparr>n_matchers := ms\<rparr>)) =
        (q, add_net p n') \<and> fine_net n'"
      by (simp add: add_net_def fine_net_def)
  qed
  then show ?thesis unfolding apply_event_def by (intro net_log.blind_and_then) simp_all
qed

lemma blind_apply_events: "net_log.blind (apply_events env es)"
proof -
  have "net_log.blind (apply_loop env es d)" for d
  proof (induction es arbitrary: d)
    case Nil
    show ?case by (rule net_log.blindI) auto
  next
    case (Cons e es)
    have "apply_loop env (e # es) d = and_then (apply_event env e d) (apply_loop env es)" by (rule ext) simp
    with Cons.IH blind_apply_event show ?case by (simp add: net_log.blind_and_then)
  qed
  then show ?thesis by (simp add: apply_events_def)
qed

lemma add_relay_simps [simp]:
  "r_id (add_relay p r) = r_id r" "r_state (add_relay p r) = r_state r" "r_held (add_relay p r) = r_held r"
  "r_held_size (add_relay p r) = r_held_size r" "n_truncate (r_net (add_relay p r)) = n_truncate (r_net r)"
  "n_matchers (r_net (add_relay p r)) = n_matchers (r_net r)"
  "(add_relay p r)\<lparr>r_state := x\<rparr> = add_relay p (r\<lparr>r_state := x\<rparr>)"
  "(add_relay p r)\<lparr>r_held := hs\<rparr> = add_relay p (r\<lparr>r_held := hs\<rparr>)"
  "(add_relay p r)\<lparr>r_held_size := k\<rparr> = add_relay p (r\<lparr>r_held_size := k\<rparr>)"
  by (simp_all add: add_relay_def add_net_def)

lemma fine_relay_simps [simp]:
  "fine_relay (r\<lparr>r_state := x\<rparr>) = fine_relay r" "fine_relay (r\<lparr>r_held := hs\<rparr>) = fine_relay r"
  "fine_relay (r\<lparr>r_held_size := k\<rparr>) = fine_relay r"
  by (simp_all add: fine_relay_def)

lemma blind_relay_parts [simp]:
  "relay_log.blind (on_net (on_frontend m))" "relay_log.blind (on_net (on_upstream m))"
  "relay_log.blind (on_net (on_trace (record_line to_json rc)))"
  "relay_log.blind (on_net (on_trace (lifecycle to_json cid ev detail)))"
  "relay_log.blind (on_net (apply_events env es))"
  by (simp_all add: relay_net.blind_on_part blind_apply_events)

lemmas blind_steps =
  relay_log.blind_and_then relay_log.blind_return relay_log.blind_fail relay_log.blind_if blind_relay_parts

lemma blind_observing: "relay_log.blind (observing env i)"
proof -
  let ?m = "\<lambda>v r. on_net (apply_events env (fst v)) (r\<lparr>r_state := snd v\<rparr>)"
  have "relay_log.blind (?m v)" for v
    by (rule relay_log.blind_after [where g = "\<lambda>r. r\<lparr>r_state := snd v\<rparr>"]) simp_all
  then have "relay_log.blind (\<lambda>r. ?m (cs_step (env_sha env) i (r_state r)) r)"
    by (intro relay_log.blind_choose [where sees = "\<lambda>r. cs_step (env_sha env) i (r_state r)" and m = ?m]) simp_all
  then show ?thesis by (simp add: observing_def [abs_def] case_prod_beta)
qed

lemma blind_client_frame: "relay_log.blind (client_frame env f)"
  unfolding client_frame_def forward_def
  by (intro blind_steps blind_observing)

lemma blind_on_client: "relay_log.blind (on_client env res)"
proof -
  have eof: "relay_log.blind (and_then (on_net (on_upstream stream_shutdown)) (\<lambda>_. io_return False))"
    by (intro blind_steps)
  then show ?thesis
    by (simp add: on_client_def relay_log.blind_fail blind_client_frame split: sum.split option.split)
qed

lemma blind_cut_result: "relay_log.blind (cut_result env)"
proof -
  let ?m = "\<lambda>i. and_then (on_net (on_frontend reset)) (\<lambda>_.
     and_then (on_net (on_trace (lifecycle (env_to_json env) i ''result.truncated'' []))) (\<lambda>_. io_return False))"
  have "relay_log.blind (?m i)" for i by (intro blind_steps)
  then have "relay_log.blind (\<lambda>r. ?m (r_id r) r)" 
    by (intro relay_log.blind_choose [where sees = r_id and m = ?m]) simp_all
  then show ?thesis by (simp add: cut_result_def [abs_def])
qed

lemma blind_deliver_ready: "relay_log.blind (deliver_ready f suppress)"
proof -
  let ?w = "\<lambda>hs. if suppress then io_return ()
        else on_net (on_frontend (and_then (write_each hs) (\<lambda>_. stream_write_all (raw f))))"
  define g where "g r = r\<lparr>r_held_size := 0, r_net := (r_net r)\<lparr>n_truncate := None\<rparr>\<rparr>" for r :: Relay
  let ?m = "\<lambda>hs r. and_then (?w hs) (\<lambda>_ r'. (Inr (), g r')) (r\<lparr>r_held := []\<rparr>)"
  have g: "g (add_relay p r) = add_relay p (g r)" "fine_relay (g r) = fine_relay r" for p r
    by (cases r; simp add: g_def add_relay_def add_net_def fine_relay_def fine_net_def)+
  have "relay_log.blind (and_then (?w hs) (\<lambda>_ r. (Inr (), g r)))" for hs
    by (intro relay_log.blind_and_then relay_log.blind_update) (simp_all add: g relay_log.blind_return)
  then have "relay_log.blind (?m hs)" for hs
    by (intro relay_log.blind_after [where g = "\<lambda>r. r\<lparr>r_held := []\<rparr>"]) simp_all
  then have "relay_log.blind (\<lambda>r. ?m (r_held r) r)"
    by (intro relay_log.blind_choose [where sees = r_held and m = ?m]) simp_all
  then show ?thesis by (simp add: deliver_ready_def [abs_def] g_def)
qed

lemma blind_deliver_other: "relay_log.blind (deliver_other f gated suppress)"
proof (rule relay_log.blindI)
  fix p r q r'
  assume f: "fine_relay r" and d: "deliver_other f gated suppress r = (q, r')"
  have w: "relay_log.blind (on_net (on_frontend (stream_write_all (raw f))))" by simp
  show "deliver_other f gated suppress (add_relay p r) = (q, add_relay p r') \<and> fine_relay r'"
  proof (cases "suppress \<or> gated \<or> r_held r \<noteq> []")
    case True
    with f d show ?thesis
      by (auto simp: deliver_other_def Let_def split: if_splits)
  next
    case False
    with f d relay_log.blindD [OF w f, of q r' p] show ?thesis by (simp add: deliver_other_def)
  qed
qed

lemma blind_deliver: "relay_log.blind (deliver f gated suppress)"
  by (simp add: deliver_def blind_deliver_ready blind_deliver_other)

text \<open>The rest of the arm of the server after the events have been handled.\<close>

lemma blind_after_events:
  "relay_log.blind (\<lambda>r1. if d_disconnect d then (Inr False, r1)
     else case take_row f (r_net r1) of (ended, n) \<Rightarrow>
       if ended then cut_result env (r1\<lparr>r_net := n\<rparr>)
       else and_then (deliver f gated (d_suppress d)) (\<lambda>_ r2.
         if tag f = CHR ''D'' \<and> n_truncate (r_net r2) = Some 0 then cut_result env r2
         else (Inr True, r2)) (r1\<lparr>r_net := n\<rparr>))"
proof -
  define g where "g r = r\<lparr>r_net := snd (take_row f (r_net r))\<rparr>" for r :: Relay
  let ?last = "\<lambda>b. if b then cut_result env else io_return True"
  let ?m = "\<lambda>ended. if ended then cut_result env
    else and_then (deliver f gated (d_suppress d)) (\<lambda>_ r2. ?last (tag f = CHR ''D'' \<and> n_truncate (r_net r2) = Some 0) r2)"
  have row: "fst (take_row f (r_net (add_relay p r))) = fst (take_row f (r_net r))"
    "g (add_relay p r) = add_relay p (g r)" "fine_relay r \<Longrightarrow> fine_relay (g r)" for p r
    by (cases r; auto simp: g_def take_row_def add_relay_def add_net_def fine_relay_def fine_net_def
        split: option.split)+
  have "relay_log.blind (?last b)" for b by (simp add: blind_cut_result relay_log.blind_return)
  then have "relay_log.blind (\<lambda>r. ?last (tag f = CHR ''D'' \<and> n_truncate (r_net r) = Some 0) r)"
    by (intro relay_log.blind_choose
        [where sees = "\<lambda>r. tag f = CHR ''D'' \<and> n_truncate (r_net r) = Some 0" and m = ?last]) simp_all
  then have "relay_log.blind (?m c)" for c
    by (simp add: blind_cut_result relay_log.blind_and_then blind_deliver)
  then have "relay_log.blind (\<lambda>r. ?m c (g r))" for c
    by (intro relay_log.blind_after [where g = g]) (simp_all add: row)
  then have "relay_log.blind (\<lambda>r. ?m (fst (take_row f (r_net r))) (g r))"
    by (intro relay_log.blind_choose [where sees = "\<lambda>r. fst (take_row f (r_net r))" and m = "\<lambda>c r. ?m c (g r)"])
      (simp_all add: row)
  moreover have "relay_log.blind (\<lambda>r. (Inr False, r))" using relay_log.blind_return [of False] by (simp add: io_return_def [abs_def])
  ultimately show ?thesis
    by (cases "d_disconnect d") (simp_all add: g_def case_prod_beta if_distrib [of "\<lambda>m. m _"] cong: if_cong)
qed

lemma blind_server_frame: "relay_log.blind (server_frame env f)"
proof -
  let ?m = "\<lambda>gated. and_then (observing env (FromServer f)) (\<lambda>d r1. if d_disconnect d then (Inr False, r1)
     else case take_row f (r_net r1) of (ended, n) \<Rightarrow>
       if ended then cut_result env (r1\<lparr>r_net := n\<rparr>)
       else and_then (deliver f gated (d_suppress d)) (\<lambda>_ r2.
         if tag f = CHR ''D'' \<and> n_truncate (r_net r2) = Some 0 then cut_result env r2
         else (Inr True, r2)) (r1\<lparr>r_net := n\<rparr>))"
  have "gate f (add_relay p r) = gate f r" for p r by (simp add: gate_def split: option.split)
  then have "relay_log.blind (\<lambda>r. ?m (gate f r) r)"
    by (intro relay_log.blind_choose [where sees = "gate f" and m = ?m] relay_log.blind_and_then
        blind_observing blind_after_events)
  then show ?thesis by (simp add: server_frame_def [abs_def] Let_def)
qed

lemma blind_on_server: "relay_log.blind (on_server env res)"
proof -
  have eof: "relay_log.blind (and_then (on_net (on_frontend stream_shutdown)) (\<lambda>_. io_return False))"
    by (intro blind_steps)
  then show ?thesis
    by (simp add: on_server_def relay_log.blind_fail blind_server_frame split: sum.split option.split)
qed

section \<open>The loop\<close>

lemma add_loop_simps [simp]:
  "l_client_buf (add_loop p l) = l_client_buf l" "l_client_reads (add_loop p l) = l_client_reads l"
  "l_server_buf (add_loop p l) = l_server_buf l" "l_server_reads (add_loop p l) = l_server_reads l"
  "l_relay (add_loop p l) = add_relay p (l_relay l)"
  "(add_loop p l)\<lparr>l_client_buf := b, l_client_reads := rs\<rparr> = add_loop p (l\<lparr>l_client_buf := b, l_client_reads := rs\<rparr>)"
  "(add_loop p l)\<lparr>l_server_buf := b, l_server_reads := rs\<rparr> = add_loop p (l\<lparr>l_server_buf := b, l_server_reads := rs\<rparr>)"
  by (simp_all add: add_loop_def)

lemma blind_select_step: "loop_log.blind (select_step env b)"
proof (rule loop_log.blindI)
  fix p l q l'
  assume f: "fine_loop l" and st: "select_step env b l = (q, l')"
  have fine: "fine_loop (l\<lparr>l_client_buf := x, l_client_reads := y\<rparr>)" "fine_loop (l\<lparr>l_server_buf := x, l_server_reads := y\<rparr>)"
    for x y using f by (simp_all add: fine_loop_def)
  have cl: "loop_log.blind (on_relay (on_client env res))" and sv: "loop_log.blind (on_relay (on_server env res))" for res
    by (simp_all add: loop_relay.blind_on_part blind_on_client blind_on_server)
  from st show "select_step env b (add_loop p l) = (q, add_loop p l') \<and> fine_loop l'"
  proof (cases b)
    case ClientBranch
    obtain x buf rs where x: "poll_next (l_client_buf l) (l_client_reads l) = (x, buf, rs)" by (metis prod_cases3)
    with ClientBranch st f fine loop_log.blindD [OF cl fine(1), where p = p] show ?thesis
      by (cases x) (auto simp: select_step_def poll_client_def)
  next
    case ServerBranch
    obtain x buf rs where x: "poll_next (l_server_buf l) (l_server_reads l) = (x, buf, rs)" by (metis prod_cases3)
    with ServerBranch st f fine loop_log.blindD [OF sv fine(2), where p = p] show ?thesis
      by (cases x) (auto simp: select_step_def poll_server_def)
  qed
qed

section \<open>The setup of a connection\<close>

lemma add_conn_simps [simp]:
  "co_frontend (add_conn p c) = co_frontend c" "co_upstream (add_conn p c) = co_upstream c"
  "co_trace (add_conn p c) = add_rec p (co_trace c)"
  "(add_conn p c)\<lparr>co_upstream := u\<rparr> = add_conn p (c\<lparr>co_upstream := u\<rparr>)"
  "(add_conn p c)\<lparr>co_frontend := s\<rparr> = add_conn p (c\<lparr>co_frontend := s\<rparr>)"
  "fine_conn (c\<lparr>co_upstream := u\<rparr>) = fine_conn c" "fine_conn (c\<lparr>co_frontend := s\<rparr>) = fine_conn c"
  by (simp_all add: add_conn_def fine_conn_def)

lemma blind_on_open: "conn_log.blind (on_open m)"
  by (rule conn_log.blindI) (auto simp: on_open_def split: option.splits prod.splits)

lemma blind_log_lifecycle: "conn_log.blind (log_lifecycle h cid ev)"
  by (rule conn_trace.blind_on_part) (rule blind_recording)

lemma blind_upstream_tls: "conn_log.blind (upstream_tls h cf connector tcp reply)"
proof (rule conn_log.blindI)
  fix p c q c'
  assume "fine_conn c" and "upstream_tls h cf connector tcp reply c = (q, c')"
  then show "upstream_tls h cf connector tcp reply (add_conn p c) = (q, add_conn p c') \<and> fine_conn c'"
    unfolding upstream_tls_def Let_def
    by (cases "stream_write_all ssl_request (Stream_plain tcp)")
      (auto split: sum.splits list.splits if_splits)
qed

lemma blind_open_upstream: "conn_log.blind (open_upstream h cf)"
proof (rule conn_log.blindI)
  fix p c q c'
  assume "fine_conn c" and "open_upstream h cf c = (q, c')"
  then show "open_upstream h cf (add_conn p c) = (q, add_conn p c') \<and> fine_conn c'"
    using conn_log.blindD [OF blind_upstream_tls, of c h cf]
    by (auto simp: open_upstream_def split: sum.splits option.splits prod.splits)
qed

lemma blind_begin_session: "conn_log.blind (begin_session h cf cid packet)"
proof (cases "metadata packet")
  case (Inl e)
  then show ?thesis by (simp add: begin_session_def [abs_def] conn_log.blind_fail)
next
  case (Inr meta)
  have "conn_log.blind (and_then (open_upstream h cf) (\<lambda>_. and_then (on_open (stream_write_all packet)) (\<lambda>_.
      and_then (log_lifecycle h cid ''startup'') (\<lambda>_. io_return meta))))"
    by (intro conn_log.blind_and_then conn_log.blind_return blind_open_upstream blind_on_open blind_log_lifecycle)
  with Inr show ?thesis by (simp add: begin_session_def [abs_def])
qed

lemma blind_forward_cancel: "conn_log.blind (forward_cancel h cf cid packet)"
proof (cases "h_connect h (cf_upstream cf)")
  case (Inl e)
  then show ?thesis by (simp add: forward_cancel_def [abs_def] conn_log.blind_fail)
next
  case (Inr x)
  let ?m = "and_then (on_open (stream_write_all packet)) (\<lambda>_. and_then (on_open stream_shutdown) (\<lambda>_.
      log_lifecycle h cid ''cancel.forwarded''))"
  have "conn_log.blind ?m" by (intro conn_log.blind_and_then blind_on_open blind_log_lifecycle)
  then have "conn_log.blind (\<lambda>c. ?m (c\<lparr>co_upstream := Some (Stream_plain (fst x))\<rparr>))"
    by (intro conn_log.blind_after [where g = "\<lambda>c. c\<lparr>co_upstream := Some (Stream_plain (fst x))\<rparr>"]) simp_all
  with Inr show ?thesis by (simp add: forward_cancel_def [abs_def] case_prod_beta)
qed

lemma initial_relay_add: "initial_relay cf cid meta u (add_conn p c) = add_relay p (initial_relay cf cid meta u c)"
  "fine_conn c \<Longrightarrow> fine_relay (initial_relay cf cid meta u c)"
  by (simp_all add: initial_relay_def add_relay_def add_net_def fine_relay_def fine_net_def fine_conn_def)

lemma n_trace_initial_relay: "n_trace (r_net (initial_relay cf cid meta u c)) = co_trace c"
  by (simp add: initial_relay_def)

lemma Loop_new_add: "Loop_new (add_relay p r) xs ys = add_loop p (Loop_new r xs ys)"
  "l_relay (Loop_new r xs ys) = r"
  by (simp_all add: Loop_new_def add_loop_def)

lemma open_session_blind:
  assumes "fine_rec t" and "open_session h cf cid w t = (q, c)"
  shows "open_session h cf cid w (add_rec p t) = (map_sum id (map_option (add_loop p)) q, add_conn p c)"
    and "fine_conn c" and "q = Inr (Some l) \<Longrightarrow> fine_loop l \<and> n_trace (r_net (l_relay l)) = co_trace c"
proof -
  let ?c = "\<lambda>t. \<lparr>co_frontend = Stream_plain (w_client w), co_upstream = None, co_trace = t\<rparr>"
  have c: "?c (add_rec p t) = add_conn p (?c t)" "fine_conn (?c t)"
    using assms(1) by (simp_all add: add_conn_def fine_conn_def)
  obtain n s where n: "negotiate (h_accept h) (tls_frontend (cf_tls cf)) (w_end w) (w_input w)
      (Stream_plain (w_client w)) = (n, s)" by fastforce
  have goal: "open_session h cf cid w (add_rec p t) = (map_sum id (map_option (add_loop p)) q, add_conn p c) \<and>
    fine_conn c \<and> (\<forall>l. q = Inr (Some l) \<longrightarrow> fine_loop l \<and> n_trace (r_net (l_relay l)) = co_trace c)"
  proof (cases "set_nodelay (w_client w)")
    case (Inl e)
    with assms c show ?thesis by (auto simp: open_session_def Let_def)
  next
    case nd: (Inr u)
    let ?c1 = "(?c t)\<lparr>co_frontend := s\<rparr>"
    have f1: "fine_conn ?c1" and c1: "(?c (add_rec p t))\<lparr>co_frontend := s\<rparr> = add_conn p ?c1"
      using assms(1) by (simp_all add: add_conn_def fine_conn_def)
    consider e where "n = Inl e" | packet rest where "n = Inr (CancelPacket packet, rest)"
      | packet rest where "n = Inr (StartupPacket packet, rest)"
      by (metis obj_sumE request.exhaust surj_pair)
    then show ?thesis
    proof cases
      case 1
      with assms nd n c1 f1 show ?thesis by (auto simp: open_session_def Let_def)
    next
      case (2 packet rest)
      let ?m = "and_then (forward_cancel h cf cid packet) (\<lambda>_. io_return (None :: Loop option))"
      have b: "conn_log.blind ?m" by (intro conn_log.blind_and_then conn_log.blind_return blind_forward_cancel)
      have st: "open_session h cf cid w t' = ?m ((?c t')\<lparr>co_frontend := s\<rparr>)" for t'
        using 2 nd n by (simp add: open_session_def)
      with assms(2) have m: "?m ?c1 = (q, c)" by simp
      then have "map_sum id (map_option (add_loop p)) q = q" by (cases q) (auto simp: and_then_Inr)
      moreover from m have "q \<noteq> Inr (Some l)" for l by (auto simp: and_then_Inr)
      ultimately show ?thesis using conn_log.blindD [OF b f1 m, of p] unfolding st c1 by (simp del: io_return_simp)
    next
      case (3 packet rest)
      obtain b c2 where bs: "begin_session h cf cid packet ?c1 = (b, c2)" by fastforce
      note add = conn_log.blindD [OF blind_begin_session f1 bs, of p]
      have bs': "begin_session h cf cid packet ((?c (add_rec p t))\<lparr>co_frontend := s\<rparr>) = (b, add_conn p c2)"
        unfolding c1 using add by simp
      have st: "open_session h cf cid w t' = (case begin_session h cf cid packet ((?c t')\<lparr>co_frontend := s\<rparr>) of
           (Inl e, c2) \<Rightarrow> (Inl e, c2)
         | (Inr meta, c2) \<Rightarrow>
             (case co_upstream c2 of
                None \<Rightarrow> (Inl (Panic ''no upstream''), c2)
              | Some upstream \<Rightarrow>
                  (Inr (Some (Loop_new (initial_relay cf cid meta upstream c2)
                     (w_cut w rest) (w_server_reads w))), c2)))" for t'
        using 3 nd n by (simp add: open_session_def)
      show ?thesis
      proof (cases b)
        case (Inl e)
        with assms(2) bs bs' add show ?thesis by (auto simp: st)
      next
        case (Inr meta)
        with assms(2) bs bs' add show ?thesis
          by (cases "co_upstream c2")
            (auto simp: st initial_relay_add Loop_new_add fine_loop_def n_trace_initial_relay)
      qed
    qed
  qed
  then show "open_session h cf cid w (add_rec p t) = (map_sum id (map_option (add_loop p)) q, add_conn p c)"
    "fine_conn c" "q = Inr (Some l) \<Longrightarrow> fine_loop l \<and> n_trace (r_net (l_relay l)) = co_trace c" by blast+
qed

end
