(* ===== verification/Proxy_System.thy ===== *)
theory Proxy_System
  imports Shared_Trace Connection_Props
begin

text \<open>
  The running proxy: the listener of \<^verbatim>\<open>serve\<close> and all the tasks it has spawned
  (\<^verbatim>\<open>crates/pgfault-proxy/src/lib.rs\<close>). The tasks take turns in any order; a turn of a task is the setup
  of its connection or one poll of its \<^verbatim>\<open>select!\<close> loop. They share the trace recorder and nothing else.

  The system is a labelled step relation. Its invariants are proved by rule induction; the main one
  says that every connection behaves as if it were alone, and that the trace file is an interleaving of
  the traces the connections would have written alone.
\<close>

section \<open>The system\<close>

text \<open>
  A spawned task: not yet run, in its relay loop, or ended with what \<^verbatim>\<open>connection\<close> returned (a
  panic being the error \<open>Panic\<close>).
\<close>

datatype task = Starting | Relaying Loop | Ended "err + unit"

text \<open>
  The listener, the tasks by their numbers, and what \<^verbatim>\<open>serve\<close> has returned once it has. The recorder is
  the one of the listener; the copy in a loop is replaced by it when the task takes its turn.
\<close>

record System =
  sy_server :: Server
  sy_tasks :: "u64 \<rightharpoonup> task"
  sy_result :: "(err + unit) option"

definition system_start :: "Recorder \<Rightarrow> System" where
  "system_start trace = \<lparr>sy_server = serve_start trace, sy_tasks = Map.empty, sy_result = None\<rparr>"

definition trace_of :: "Loop \<Rightarrow> Recorder" where
  "trace_of l = n_trace (r_net (l_relay l))"

definition with_trace :: "Recorder \<Rightarrow> Loop \<Rightarrow> Loop" where
  "with_trace t l = l\<lparr>l_relay := (l_relay l)\<lparr>r_net := (r_net (l_relay l))\<lparr>n_trace := t\<rparr>\<rparr>\<rparr>"

definition sy_trace :: "System \<Rightarrow> Recorder" where
  "sy_trace s = sv_trace (sy_server s)"

definition set_sy_trace :: "Recorder \<Rightarrow> System \<Rightarrow> System" where
  "set_sy_trace t s = s\<lparr>sy_server := (sy_server s)\<lparr>sv_trace := t\<rparr>\<rparr>"

text \<open>The rest of a task whose connection returned: the closing record and the result of the task.\<close>

definition end_task ::
  "Host \<Rightarrow> (err \<Rightarrow> string) \<Rightarrow> u64 \<Rightarrow> err + unit \<Rightarrow> System \<Rightarrow> System" where
  "end_task h show_err i r s =
     s\<lparr>sy_server := snd (serve_step (env_to_json (h_env h)) show_err (TaskEnds i (task_result r)) (sy_server s)),
       sy_tasks := (sy_tasks s)(i \<mapsto> Ended r)\<rparr>"

text \<open>\<^verbatim>\<open>serve\<close> returns: the tasks that still run are aborted, at the latest when the \<^verbatim>\<open>JoinSet\<close> is dropped.\<close>

definition stop :: "err + unit \<Rightarrow> Server \<Rightarrow> System \<Rightarrow> System" where
  "stop r sv s =
     \<lparr>sy_server = sv,
      sy_tasks = (\<lambda>i. case sy_tasks s i of Some (Ended x) \<Rightarrow> Some (Ended x) | _ \<Rightarrow> None),
      sy_result = Some r\<rparr>"

text \<open>What can happen: an event of the listener's loop, the setup of a connection, a poll of its loop.\<close>

datatype action = Listen server_event | Open u64 Wires | Poll u64 branch

inductive sys_step :: "Host \<Rightarrow> Config \<Rightarrow> (err \<Rightarrow> string) \<Rightarrow> System \<Rightarrow> action \<Rightarrow> System \<Rightarrow> bool"
  for h :: Host and cf :: Config and show_err :: "err \<Rightarrow> string" where
  accept: "sys_step h cf show_err s (Listen (Accepted (Inr ())))
      (s\<lparr>sy_server := sv, sy_tasks := (sy_tasks s)(sv_next_id sv \<mapsto> Starting)\<rparr>)"
    if "sy_result s = None"
    and "serve_step (env_to_json (h_env h)) show_err (Accepted (Inr ())) (sy_server s) = (Inr True, sv)"
| join: "sys_step h cf show_err s (Listen JoinNext) (s\<lparr>sy_server := sv\<rparr>)"
    if "sy_result s = None"
    and "serve_step (env_to_json (h_env h)) show_err JoinNext (sy_server s) = (Inr True, sv)"
| return: "sys_step h cf show_err s (Listen ev) (stop (map_sum id (\<lambda>_. ()) q) sv s)"
    if "sy_result s = None" and "ev = ShutdownSignal \<or> ev = JoinNext \<or> ev = Accepted (Inl e)"
    and "serve_step (env_to_json (h_env h)) show_err ev (sy_server s) = (q, sv)" and "q \<noteq> Inr True"
| open_relay: "sys_step h cf show_err s (Open i w)
      (set_sy_trace (co_trace c) (s\<lparr>sy_tasks := (sy_tasks s)(i \<mapsto> Relaying l)\<rparr>))"
    if "sy_result s = None" and "sy_tasks s i = Some Starting"
    and "open_session h cf i w (sy_trace s) = (Inr (Some l), c)"
| open_end: "sys_step h cf show_err s (Open i w)
      (end_task h show_err i (map_sum id (\<lambda>_. ()) q) (set_sy_trace (co_trace c) s))"
    if "sy_result s = None" and "sy_tasks s i = Some Starting"
    and "open_session h cf i w (sy_trace s) = (q, c)" and "\<And>l. q \<noteq> Inr (Some l)"
| poll_on: "sys_step h cf show_err s (Poll i b)
      (set_sy_trace (trace_of l') (s\<lparr>sy_tasks := (sy_tasks s)(i \<mapsto> Relaying l')\<rparr>))"
    if "sy_result s = None" and "sy_tasks s i = Some (Relaying l)"
    and "select_step (h_env h) b (with_trace (sy_trace s) l) = (Inr True, l')"
| poll_end: "sys_step h cf show_err s (Poll i b)
      (end_task h show_err i (map_sum id (\<lambda>_. ()) q) (set_sy_trace (trace_of l') s))"
    if "sy_result s = None" and "sy_tasks s i = Some (Relaying l)"
    and "select_step (h_env h) b (with_trace (sy_trace s) l) = (q, l')" and "q \<noteq> Inr True"

inductive_cases sys_step_ListenE: "sys_step h cf show_err s (Listen ev) s'"
inductive_cases sys_step_OpenE: "sys_step h cf show_err s (Open i w) s'"
inductive_cases sys_step_PollE: "sys_step h cf show_err s (Poll i b) s'"

text \<open>Runs of the system, the latest action last.\<close>

inductive sys_run :: "Host \<Rightarrow> Config \<Rightarrow> (err \<Rightarrow> string) \<Rightarrow> System \<Rightarrow> action list \<Rightarrow> System \<Rightarrow> bool"
  for h :: Host and cf :: Config and show_err :: "err \<Rightarrow> string" and s0 :: System where
  start: "sys_run h cf show_err s0 [] s0"
| act: "sys_run h cf show_err s0 acts s \<Longrightarrow> sys_step h cf show_err s a s' \<Longrightarrow>
    sys_run h cf show_err s0 (acts @ [a]) s'"

section \<open>Well-formed systems\<close>

text \<open>The number of connections accepted in a run.\<close>

definition accepted :: "action list \<Rightarrow> nat" where
  "accepted acts = length (filter (\<lambda>a. case a of Listen (Accepted (Inr _)) \<Rightarrow> True | _ \<Rightarrow> False) acts)"

lemma accepted_simps [simp]:
  "accepted [] = 0" "accepted (acts @ [Listen (Accepted (Inr u))]) = Suc (accepted acts)"
  "accepted (acts @ [Listen JoinNext]) = accepted acts" "accepted (acts @ [Listen ShutdownSignal]) = accepted acts"
  "accepted (acts @ [Listen (Accepted (Inl e))]) = accepted acts"
  "accepted (acts @ [Open i w]) = accepted acts" "accepted (acts @ [Poll i b]) = accepted acts"
  by (simp_all add: accepted_def)

fun running :: "task option \<Rightarrow> bool" where
  "running (Some Starting) = True"
| "running (Some (Relaying l)) = True"
| "running _ = False"

text \<open>
  A task that relays has the state of its own connection: its number, the configured scenarios in
  matchers of its own, and a gate within its bounds.
\<close>

definition loop_ok :: "Config \<Rightarrow> u64 \<Rightarrow> Loop \<Rightarrow> bool" where
  "loop_ok cf i l \<longleftrightarrow>
     r_id (l_relay l) = i \<and> cs_id (r_state (l_relay l)) = i \<and> held_inv (l_relay l) \<and>
     map m_scenario (n_matchers (r_net (l_relay l))) = cf_scenarios cf"

definition task_ok :: "Config \<Rightarrow> u64 \<Rightarrow> task \<Rightarrow> bool" where
  "task_ok cf i t = (case t of Relaying l \<Rightarrow> loop_ok cf i l | _ \<Rightarrow> True)"

definition system_ok :: "Config \<Rightarrow> nat \<Rightarrow> System \<Rightarrow> bool" where
  "system_ok cf n s \<longleftrightarrow>
     unat (sv_next_id (sy_server s)) = n \<and> distinct (sv_tasks (sy_server s)) \<and>
     set (sv_tasks (sy_server s)) = {i. running (sy_tasks s i)} \<and>
     (\<forall>i t. sy_tasks s i = Some t \<longrightarrow> 0 < unat i \<and> unat i \<le> n \<and> task_ok cf i t)"

lemma system_simps [simp]:
  "sy_tasks (set_sy_trace t s) = sy_tasks s" "sy_result (set_sy_trace t s) = sy_result s"
  "sy_trace (set_sy_trace t s) = t" "sv_next_id (sy_server (set_sy_trace t s)) = sv_next_id (sy_server s)"
  "sv_tasks (sy_server (set_sy_trace t s)) = sv_tasks (sy_server s)"
  "sv_finished (sy_server (set_sy_trace t s)) = sv_finished (sy_server s)"
  "sy_trace (s\<lparr>sy_tasks := m\<rparr>) = sy_trace s"
  "sy_tasks (end_task h show_err i r s) = (sy_tasks s)(i \<mapsto> Ended r)"
  "sy_result (end_task h show_err i r s) = sy_result s"
  by (simp_all add: set_sy_trace_def sy_trace_def end_task_def)

lemma end_task_server:
  assumes "i \<in> set (sv_tasks (sy_server s))"
  shows "sv_next_id (sy_server (end_task h show_err i r s)) = sv_next_id (sy_server s)"
    "sv_tasks (sy_server (end_task h show_err i r s)) = removeAll i (sv_tasks (sy_server s))"
    "sv_finished (sy_server (end_task h show_err i r s)) = sv_finished (sy_server s) @ [task_result r]"
    "sy_trace (end_task h show_err i r s) =
       (case task_result r of
          Panicked _ \<Rightarrow> sy_trace s
        | Returned r \<Rightarrow> snd (lifecycle (env_to_json (h_env h)) i ''connection.closed'' (error_text show_err r) (sy_trace s)))"
  using assms
  by (simp_all add: end_task_def sy_trace_def serve_step_def Let_def split: task_end.split)

lemma with_trace_simps [simp]:
  "r_id (l_relay (with_trace t l)) = r_id (l_relay l)" "r_state (l_relay (with_trace t l)) = r_state (l_relay l)"
  "r_held (l_relay (with_trace t l)) = r_held (l_relay l)"
  "r_held_size (l_relay (with_trace t l)) = r_held_size (l_relay l)"
  "n_matchers (r_net (l_relay (with_trace t l))) = n_matchers (r_net (l_relay l))"
  "trace_of (with_trace t l) = t" "with_trace t (with_trace t' l) = with_trace t l" "with_trace (trace_of l) l = l"
  by (simp_all add: with_trace_def trace_of_def)

lemma loop_ok_with_trace [simp]: "loop_ok cf i (with_trace t l) = loop_ok cf i l"
  by (simp add: loop_ok_def held_inv_def)

lemma scenarios_offered_all [simp]: "map m_scenario (offered_all es ms) = map m_scenario ms"
  by (induction es arbitrary: ms) simp_all

lemma relay_step_own:
  assumes "relay_step env a r = (Inr True, r')"
  shows "r_id r' = r_id r" "cs_id (r_state r') = cs_id (r_state r)"
    "map m_scenario (n_matchers (r_net r')) = map m_scenario (n_matchers (r_net r))"
  using relay_step_on [OF assms] by (auto simp: follows_def cs_run_id)

lemma select_step_loop_ok:
  assumes "select_step env b l = (Inr True, l')" and "loop_ok cf i l"
  shows "loop_ok cf i l'"
  using assms(1)
proof (cases rule: select_step_cases)
  case (client_ready res buf rs r')
  with assms(2) relay_step_own [OF client_ready(3)] relay_step_held_inv [OF _ client_ready(3)]
  show ?thesis by (simp add: loop_ok_def)
next
  case (server_ready res buf rs r')
  with assms(2) relay_step_own [OF server_ready(3)] relay_step_held_inv [OF _ server_ready(3)]
  show ?thesis by (simp add: loop_ok_def)
qed (use assms(2) in \<open>simp_all add: loop_ok_def\<close>)

lemma open_session_loop_ok:
  assumes "open_session h cf i w t = (Inr (Some l), c)"
  shows "loop_ok cf i l"
proof -
  from assms obtain meta u c2 xs ys where "l = Loop_new (initial_relay cf i meta u c2) xs ys"
    by (auto simp: open_session_def Let_def and_then_Inr split: sum.split_asm prod.split_asm request.split_asm option.split_asm)
  then show ?thesis
    by (simp add: Loop_new_def initial_relay_def loop_ok_def held_inv_def ConnectionState_new_def Matcher_new_def comp_def)
qed

lemma system_ok_task:
  assumes "system_ok cf n s" and "sy_tasks s i = Some t"
  shows "0 < unat i" "unat i \<le> n" "task_ok cf i t" "running (Some t) \<Longrightarrow> i \<in> set (sv_tasks (sy_server s))"
  using assms by (auto simp: system_ok_def)

text \<open>A running task that goes on, and one that ends.\<close>

lemma system_ok_relaying:
  assumes "system_ok cf n s" and "sy_tasks s i = Some t" and "running (Some t)" and "loop_ok cf i l"
  shows "system_ok cf n (set_sy_trace x (s\<lparr>sy_tasks := (sy_tasks s)(i \<mapsto> Relaying l)\<rparr>))"
proof -
  have "{j. running (((sy_tasks s)(i \<mapsto> Relaying l)) j)} = {j. running (sy_tasks s j)}"
    using assms(2,3) by auto
  with assms system_ok_task [OF assms(1,2)] show ?thesis
    unfolding system_ok_def by (auto simp: task_ok_def set_sy_trace_def)
qed

lemma system_ok_end_task:
  assumes "system_ok cf n s" and "sy_tasks s i = Some t" and "running (Some t)"
  shows "system_ok cf n (end_task h show_err i r (set_sy_trace x s))"
proof -
  have i: "i \<in> set (sv_tasks (sy_server (set_sy_trace x s)))" using system_ok_task(4) [OF assms] by simp
  have "{j. running (((sy_tasks s)(i \<mapsto> Ended r)) j)} = {j. running (sy_tasks s j)} - {i}" by auto
  with assms system_ok_task [OF assms(1,2)] show ?thesis
    unfolding system_ok_def by (auto simp: end_task_server [OF i] distinct_removeAll task_ok_def)
qed

lemma serve_step_stops:
  assumes "serve_step to_json show_err ev sv = (q, sv')" and "q \<noteq> Inr True"
  shows "sv_tasks sv' = []" "sv_next_id sv' = sv_next_id sv" "sv_trace sv' = sv_trace sv"
  using assms
  by (auto simp: serve_step_def Let_def split: server_event.split_asm sum.split_asm list.split_asm task_end.split_asm if_split_asm)

lemma system_ok_stop:
  assumes "system_ok cf n s" and "serve_step to_json show_err ev (sy_server s) = (q, sv)" and "q \<noteq> Inr True"
  shows "system_ok cf n (stop r sv s)"
proof -
  have "\<not> running (sy_tasks (stop r sv s) i)" for i
    by (simp add: stop_def split: option.split task.split)
  moreover have "0 < unat i \<and> unat i \<le> n \<and> task_ok cf i t" if "sy_tasks (stop r sv s) i = Some t" for i t
    using that system_ok_task(1,2) [OF assms(1)]
    by (auto simp: stop_def task_ok_def split: option.split_asm task.split_asm)
  moreover have "sv_next_id (sy_server (stop r sv s)) = sv_next_id (sy_server s)" "sv_tasks (sy_server (stop r sv s)) = []"
    using serve_step_stops [OF assms(2,3)] by (simp_all add: stop_def)
  ultimately show ?thesis using assms(1) by (simp add: system_ok_def)
qed

lemma accept_fresh:
  assumes "system_ok cf n s" and "Suc n < 2 ^ 64"
  shows "unat (sv_next_id (sy_server s) + 1) = Suc n" "sy_tasks s (sv_next_id (sy_server s) + 1) = None"
proof -
  show u: "unat (sv_next_id (sy_server s) + 1) = Suc n"
    using assms by (auto simp: system_ok_def unat_word_ariths)
  with system_ok_task(2) [OF assms(1)] show "sy_tasks s (sv_next_id (sy_server s) + 1) = None"
    by (cases "sy_tasks s (sv_next_id (sy_server s) + 1)") fastforce+
qed

lemma system_ok_accept:
  assumes "system_ok cf n s" and "Suc n < 2 ^ 64" and "serve_step to_json show_err (Accepted (Inr ())) (sy_server s) = (Inr True, sv)"
  shows "system_ok cf (Suc n) (s\<lparr>sy_server := sv, sy_tasks := (sy_tasks s)(sv_next_id sv \<mapsto> Starting)\<rparr>)"
proof -
  from assms(3) have sv: "sv = (sy_server s)\<lparr>sv_next_id := sv_next_id (sy_server s) + 1,
      sv_tasks := sv_tasks (sy_server s) @ [sv_next_id (sy_server s) + 1]\<rparr>"
    by (simp add: serve_step_def Let_def)
  note fresh = accept_fresh [OF assms(1,2)]
  have "{j. running (((sy_tasks s)(sv_next_id sv \<mapsto> Starting)) j)} = insert (sv_next_id sv) {j. running (sy_tasks s j)}"
    by auto
  with assms(1) fresh show ?thesis
    unfolding system_ok_def by (auto simp: sv task_ok_def le_SucI)
qed

lemma system_ok_step:
  assumes "sys_step h cf show_err s a s'" and "system_ok cf (accepted acts) s" and "accepted (acts @ [a]) < 2 ^ 64"
  shows "system_ok cf (accepted (acts @ [a])) s'"
  using assms
proof (cases rule: sys_step.cases)
  case (accept sv)
  with assms system_ok_accept show ?thesis by simp
next
  case (join sv)
  with assms(2) show ?thesis
    by (auto simp: system_ok_def serve_step_def split: list.split_asm task_end.split_asm)
next
  case (return ev e q sv)
  with assms(2) system_ok_stop [OF assms(2) return(5,6)] show ?thesis by auto
next
  case (open_relay i l w c)
  with system_ok_relaying [OF assms(2) open_relay(4)] open_session_loop_ok [OF open_relay(5)]
  show ?thesis by simp
next
  case (open_end i w q c)
  with system_ok_end_task [OF assms(2) open_end(4)] show ?thesis by simp
next
  case (poll_on i l b l')
  with assms(2) system_ok_task(3) [OF assms(2) poll_on(4)] system_ok_relaying [OF assms(2) poll_on(4)]
    select_step_loop_ok [OF poll_on(5)]
  show ?thesis by (simp add: task_ok_def)
next
  case (poll_end i l b q l')
  with system_ok_end_task [OF assms(2) poll_end(4)] show ?thesis by simp
qed

lemma accepted_mono: "accepted acts \<le> accepted (acts @ as)"
  by (simp add: accepted_def)

lemma sys_run_ok:
  assumes "sys_run h cf show_err (system_start trace) acts s" and "accepted acts < 2 ^ 64"
  shows "system_ok cf (accepted acts) s"
  using assms
proof (induction rule: sys_run.induct)
  case start
  show ?case by (simp add: system_ok_def system_start_def serve_start_def)
next
  case (act acts s a s')
  with accepted_mono [of acts "[a]"] have "system_ok cf (accepted acts) s" by simp
  from system_ok_step [OF act.hyps(2) this act.prems] show ?case .
qed

section \<open>Alone\<close>

text \<open>The polls of a connection in a run.\<close>

definition polls_of :: "u64 \<Rightarrow> action list \<Rightarrow> branch list" where
  "polls_of i acts = concat (map (\<lambda>a. case a of Poll j b \<Rightarrow> if j = i then [b] else [] | _ \<Rightarrow> []) acts)"

lemma polls_of_simps [simp]:
  "polls_of i [] = []" "polls_of i (acts @ [Listen ev]) = polls_of i acts"
  "polls_of i (acts @ [Open j w]) = polls_of i acts"
  "polls_of i (acts @ [Poll j b]) = polls_of i acts @ (if j = i then [b] else [])"
  by (simp_all add: polls_of_def)

definition no_trace :: Recorder where
  "no_trace = \<lparr>written = [], room = None\<rparr>"

text \<open>The record that a task writes when its connection has returned.\<close>

definition closing_line :: "Host \<Rightarrow> (err \<Rightarrow> string) \<Rightarrow> u64 \<Rightarrow> err + unit \<Rightarrow> string" where
  "closing_line h show_err i r =
     (case task_result r of
        Panicked _ \<Rightarrow> []
      | Returned q \<Rightarrow>
          (case env_to_json (h_env h) (Lifecycle i ''connection.closed'' (error_text show_err q)) of
             Inl _ \<Rightarrow> []
           | Inr line \<Rightarrow> line @ [LF]))"

text \<open>
  \<open>alone h cf show_err acts i t out\<close>: the state \<open>t\<close> of the task \<open>i\<close> after the actions \<open>acts\<close>, and what it
  has written to the trace, are those of the connection run on its own, with a trace file of its own
  and only its own polls. The trace in the state of a loop is left out of the comparison.
\<close>

fun alone :: "Host \<Rightarrow> Config \<Rightarrow> (err \<Rightarrow> string) \<Rightarrow> action list \<Rightarrow> u64 \<Rightarrow> task \<Rightarrow> string \<Rightarrow> bool" where
  "alone h cf show_err acts i Starting out \<longleftrightarrow> polls_of i acts = [] \<and> out = []"
| "alone h cf show_err acts i (Relaying l) out \<longleftrightarrow>
     (\<exists>w l0 c l1. Open i w \<in> set acts \<and> open_session h cf i w no_trace = (Inr (Some l0), c) \<and>
        select_loop (h_env h) (polls_of i acts) l0 = (None, l1) \<and>
        with_trace no_trace l1 = with_trace no_trace l \<and> out = written (trace_of l1))"
| "alone h cf show_err acts i (Ended r) out \<longleftrightarrow>
     (\<exists>w c. Open i w \<in> set acts \<and> connection h cf i w (polls_of i acts) no_trace = (Some r, c) \<and>
        out = written (co_trace c) @ closing_line h show_err i r)"

lemma alone_mono:
  "alone h cf show_err acts i t out \<Longrightarrow> polls_of i (acts @ [a]) = polls_of i acts \<Longrightarrow>
   alone h cf show_err (acts @ [a]) i t out"
  by (cases t) auto

declare alone.simps [simp del]

text \<open>A trace file that does not fail is a prefix of a fresh one.\<close>

lemma add_no_trace: "fine_rec t \<Longrightarrow> add_rec (written t) no_trace = t"
  by (cases t) (simp add: add_rec_def no_trace_def fine_rec_def)

lemma fine_no_trace [simp]: "fine_rec no_trace" "written no_trace = []"
  by (simp_all add: no_trace_def fine_rec_def)

lemma add_loop_trace:
  "trace_of (add_loop p l) = add_rec p (trace_of l)" "with_trace t (add_loop p l) = with_trace t l"
  "fine_loop l = fine_rec (trace_of l)"
  by (simp_all add: add_loop_def add_relay_def add_net_def trace_of_def with_trace_def fine_loop_def
      fine_relay_def fine_net_def)

lemma with_trace_add: "fine_rec t \<Longrightarrow> with_trace t l = add_loop (written t) (with_trace no_trace l)"
  by (simp add: add_loop_def add_relay_def add_net_def with_trace_def add_no_trace)

lemma written_add_rec [simp]: "written (add_rec p t) = p @ written t" "room (add_rec p t) = room t"
  by (simp_all add: add_rec_def)

text \<open>A turn of a task does the same to the state of the task that runs alone.\<close>

lemma turn_alone:
  assumes "fine_rec t" and "fine_loop l1" and "with_trace no_trace l1 = with_trace no_trace l"
    and "select_step env b (with_trace t l) = (q, l')"
  shows "\<exists>l1' out. select_step env b l1 = (q, l1') \<and> with_trace no_trace l1' = with_trace no_trace l' \<and>
    trace_of l' = t\<lparr>written := written t @ out\<rparr> \<and> written (trace_of l1') = written (trace_of l1) @ out"
proof -
  let ?l = "with_trace no_trace l"
  obtain q0 l0 where st: "select_step env b ?l = (q0, l0)" by fastforce
  have fine: "fine_loop ?l" by (simp add: add_loop_trace)
  note turn = loop_log.blindD [OF blind_select_step fine st]
  from assms(1,4) turn have l': "l' = add_loop (written t) l0" and q: "q0 = q"
    by (simp_all add: with_trace_add [of t])
  have "l1 = add_loop (written (trace_of l1)) ?l"
    using with_trace_add [of "trace_of l1" l1] assms(2,3) by (simp add: add_loop_trace)
  with turn q have l1': "select_step env b l1 = (q, add_loop (written (trace_of l1)) l0)" by metis
  moreover have "add_rec (written t) (trace_of l0) = t\<lparr>written := written t @ written (trace_of l0)\<rparr>"
    using assms(1) turn by (cases t; cases "trace_of l0") (simp add: add_rec_def add_loop_trace fine_rec_def)
  ultimately show ?thesis by (auto simp: l' add_loop_trace)
qed

lemma select_loop_fine:
  assumes "fine_loop l" and "select_loop env bs l = (None, l')"
  shows "fine_loop l'"
  using select.run_invariant [of fine_loop env bs l l'] loop_log.blindD [OF blind_select_step] assms by blast

section \<open>Isolation\<close>

text \<open>
  The trace file as a sequence of pieces, each written by one task in one turn, and what a task has
  written of it.
\<close>

type_synonym pieces = "(u64 \<times> string) list"

definition output_of :: "u64 \<Rightarrow> pieces \<Rightarrow> string" where
  "output_of i ps = concat (map snd (filter (\<lambda>p. fst p = i) ps))"

lemma output_of_simps [simp]:
  "output_of i [] = []" "output_of i (ps @ [(j, out)]) = output_of i ps @ (if j = i then out else [])"
  by (simp_all add: output_of_def)

text \<open>The connections that have been accepted.\<close>

definition known :: "action list \<Rightarrow> u64 \<Rightarrow> bool" where
  "known acts i \<longleftrightarrow> 1 \<le> unat i \<and> unat i \<le> accepted acts"

lemma known_mono: "known acts i \<Longrightarrow> known (acts @ as) i"
  using accepted_mono [of acts as] by (simp add: known_def)

lemma system_ok_known: "system_ok cf (accepted acts) s \<Longrightarrow> sy_tasks s i = Some t \<Longrightarrow> known acts i"
  using system_ok_task(1,2) [of cf "accepted acts" s i t] by (simp add: known_def)

text \<open>
  The trace is made of pieces of accepted connections; every accepted connection is as if it were alone,
  or was when the listener returned and dropped it.
\<close>

definition isolated ::
  "Host \<Rightarrow> Config \<Rightarrow> (err \<Rightarrow> string) \<Rightarrow> Recorder \<Rightarrow> action list \<Rightarrow> System \<Rightarrow> pieces \<Rightarrow> bool" where
  "isolated h cf show_err trace acts s ps \<longleftrightarrow>
     sy_trace s = trace\<lparr>written := written trace @ concat (map snd ps)\<rparr> \<and>
     (\<forall>p \<in> set ps. known acts (fst p)) \<and>
     (\<forall>i t. sy_tasks s i = Some t \<longrightarrow> alone h cf show_err acts i t (output_of i ps)) \<and>
     (\<forall>i. known acts i \<longrightarrow> sy_tasks s i = None \<longrightarrow>
        sy_result s \<noteq> None \<and> (\<exists>t. running (Some t) \<and> alone h cf show_err acts i t (output_of i ps))) \<and>
     (sy_result s = None \<longrightarrow> (\<forall>i. sy_tasks s i = None \<longrightarrow> polls_of i acts = [] \<and> output_of i ps = []))"

lemma isolated_fine: "isolated h cf show_err trace acts s ps \<Longrightarrow> fine_rec trace \<Longrightarrow> fine_rec (sy_trace s)"
  by (simp add: isolated_def fine_rec_def)

lemma isolated_task:
  "isolated h cf show_err trace acts s ps \<Longrightarrow> sy_tasks s i = Some t \<Longrightarrow>
   alone h cf show_err acts i t (output_of i ps)"
  by (simp add: isolated_def)

text \<open>One task takes a turn.\<close>

lemma isolated_turn:
  assumes "isolated h cf show_err trace acts s ps" and "sy_result s = None" and "known acts i"
    and "sy_tasks s' = (sy_tasks s)(i \<mapsto> t)" and "sy_result s' = sy_result s"
    and "sy_trace s' = (sy_trace s)\<lparr>written := written (sy_trace s) @ out\<rparr>"
    and "alone h cf show_err (acts @ [a]) i t (output_of i ps @ out)"
    and "\<And>j. j \<noteq> i \<Longrightarrow> polls_of j (acts @ [a]) = polls_of j acts"
    and "accepted (acts @ [a]) = accepted acts"
  shows "isolated h cf show_err trace (acts @ [a]) s' (ps @ [(i, out)])"
proof -
  have "alone h cf show_err (acts @ [a]) j t' (output_of j (ps @ [(i, out)]))" if "sy_tasks s' j = Some t'" for j t'
    using that assms alone_mono [of h cf show_err acts j t' "output_of j ps" a]
    by (cases "j = i") (auto simp: isolated_def)
  moreover have "known (acts @ [a]) j = known acts j" for j using assms(9) by (simp add: known_def)
  moreover have "sy_tasks s' j \<noteq> None" if "known acts j" for j
    using that assms(1,2,4) by (auto simp: isolated_def)
  ultimately show ?thesis using assms by (auto simp: isolated_def split: if_split_asm)
qed

text \<open>The listener takes a turn; it writes nothing.\<close>

lemma isolated_listen:
  assumes "isolated h cf show_err trace acts s ps" and "sy_trace s' = sy_trace s"
    and "\<And>j t. sy_tasks s' j = Some t \<Longrightarrow> sy_tasks s j = Some t \<or> sy_tasks s j = None \<and> t = Starting"
    and "sy_result s = None" and "sy_result s' = None \<Longrightarrow> dom (sy_tasks s) \<subseteq> dom (sy_tasks s')"
    and "\<And>j. known (acts @ [Listen ev]) j \<Longrightarrow> sy_tasks s' j = None \<Longrightarrow>
      sy_result s' \<noteq> None \<and> (\<exists>t. running (Some t) \<and> sy_tasks s j = Some t)"
  shows "isolated h cf show_err trace (acts @ [Listen ev]) s' ps"
proof -
  have al: "alone h cf show_err (acts @ [Listen ev]) j t (output_of j ps)" if "sy_tasks s j = Some t" for j t
    using assms(1) that alone_mono [of h cf show_err acts j t "output_of j ps" "Listen ev"]
    by (auto simp: isolated_def)
  have "alone h cf show_err (acts @ [Listen ev]) j t (output_of j ps)" if "sy_tasks s' j = Some t" for j t
    using assms(1,4) assms(3) [OF that] al by (auto simp: isolated_def alone.simps(1))
  moreover have "sy_tasks s j = None" if "sy_result s' = None" "sy_tasks s' j = None" for j
    using assms(5) [OF that(1)] that(2) by (auto simp: dom_def)
  moreover have "sy_result s' \<noteq> None \<and> (\<exists>t. running (Some t) \<and> alone h cf show_err (acts @ [Listen ev]) j t (output_of j ps))"
    if "known (acts @ [Listen ev]) j" "sy_tasks s' j = None" for j
    using assms(6) [OF that] al by blast
  moreover have "\<forall>p \<in> set ps. known (acts @ [Listen ev]) (fst p)"
    using assms(1) known_mono by (auto simp: isolated_def)
  ultimately show ?thesis using assms(1,2,4) by (simp add: isolated_def)
qed

lemma isolated_tasks:
  "isolated h cf show_err trace acts s ps \<Longrightarrow> sy_result s = None \<Longrightarrow> known acts j \<Longrightarrow> \<exists>t. sy_tasks s j = Some t"
  by (auto simp: isolated_def)

lemma end_task_trace:
  assumes "i \<in> set (sv_tasks (sy_server s))" and "fine_rec (sy_trace s)"
  shows "sy_trace (end_task h show_err i r s) =
    (sy_trace s)\<lparr>written := written (sy_trace s) @ closing_line h show_err i r\<rparr>"
  using assms
  by (simp add: end_task_server(4) closing_line_def lifecycle_def record_line_def fine_rec_def split: task_end.split sum.split)

text \<open>Opening a connection, alone and in the system.\<close>

lemma open_alone:
  assumes "fine_rec t" and "open_session h cf i w t = (q, c)"
  obtains q0 c0 where "open_session h cf i w no_trace = (q0, c0)"
    and "q = map_sum id (map_option (add_loop (written t))) q0"
    and "co_trace c = t\<lparr>written := written t @ written (co_trace c0)\<rparr>"
    and "\<And>l0. q0 = Inr (Some l0) \<Longrightarrow> fine_loop l0 \<and> trace_of l0 = co_trace c0"
proof -
  obtain q0 c0 where o: "open_session h cf i w no_trace = (q0, c0)" by fastforce
  note b = open_session_blind [OF fine_no_trace(1) o]
  have "add_rec (written t) (co_trace c0) = t\<lparr>written := written t @ written (co_trace c0)\<rparr>"
    using assms(1) b(2) by (cases t; cases "co_trace c0") (simp add: add_rec_def fine_conn_def fine_rec_def)
  with b(1) [of "written t"] assms add_no_trace [OF assms(1)]
  have "q = map_sum id (map_option (add_loop (written t))) q0" "co_trace c = t\<lparr>written := written t @ written (co_trace c0)\<rparr>"
    by simp_all
  with o b(3) that show ?thesis by (auto simp: trace_of_def)
qed

lemma connection_open:
  assumes "open_session h cf i w trace = (Inr (Some l0), c)" and "select_loop (h_env h) bs l0 = (r, l1)"
  shows "connection h cf i w bs trace = (r, conn_of_relay (l_relay l1))"
  using assms by (simp add: connection_def)

lemma starting_alone:
  "isolated h cf show_err trace acts s ps \<Longrightarrow> sy_tasks s i = Some Starting \<Longrightarrow>
   polls_of i acts = [] \<and> output_of i ps = []"
  by (drule (1) isolated_task) (simp add: alone.simps)

lemma isolated_open_relay:
  assumes iso: "isolated h cf show_err trace acts s ps" and fine: "fine_rec trace"
    and ok: "system_ok cf (accepted acts) s" and res: "sy_result s = None"
    and i: "sy_tasks s i = Some Starting" and op: "open_session h cf i w (sy_trace s) = (Inr (Some l), c)"
  shows "\<exists>out. isolated h cf show_err trace (acts @ [Open i w])
    (set_sy_trace (co_trace c) (s\<lparr>sy_tasks := (sy_tasks s)(i \<mapsto> Relaying l)\<rparr>)) (ps @ [(i, out)])"
proof -
  from isolated_fine [OF iso fine] op obtain q0 c0 where
    o: "open_session h cf i w no_trace = (q0, c0)" "Inr (Some l) = map_sum id (map_option (add_loop (written (sy_trace s)))) q0"
      "co_trace c = (sy_trace s)\<lparr>written := written (sy_trace s) @ written (co_trace c0)\<rparr>"
      "\<And>l0. q0 = Inr (Some l0) \<Longrightarrow> fine_loop l0 \<and> trace_of l0 = co_trace c0"
    by (rule open_alone) blast
  from o(2) obtain l0 where l0: "q0 = Inr (Some l0)" "l = add_loop (written (sy_trace s)) l0"
    by (cases q0) (auto split: option.split_asm simp: map_option_case)
  have "alone h cf show_err (acts @ [Open i w]) i (Relaying l) (output_of i ps @ written (co_trace c0))"
    unfolding alone.simps using o(1,4) l0 starting_alone [OF iso i]
    by (intro exI [of _ w] exI [of _ l0] exI [of _ c0] exI [of _ l0]) (simp add: add_loop_trace)
  with o(3) have "isolated h cf show_err trace (acts @ [Open i w])
      (set_sy_trace (co_trace c) (s\<lparr>sy_tasks := (sy_tasks s)(i \<mapsto> Relaying l)\<rparr>)) (ps @ [(i, written (co_trace c0))])"
    by (intro isolated_turn [OF iso res system_ok_known [OF ok i]]) simp_all
  then show ?thesis by blast
qed

text \<open>A connection that returned \<open>r\<close>, with the closing record.\<close>

lemma isolated_end:
  assumes iso: "isolated h cf show_err trace acts s ps" and fine: "fine_rec trace"
    and res: "sy_result s = None" and i: "i \<in> set (sv_tasks (sy_server s))" "known acts i"
    and t: "t = (sy_trace s)\<lparr>written := written (sy_trace s) @ out\<rparr>"
    and al: "alone h cf show_err (acts @ [a]) i (Ended r) (output_of i ps @ out @ closing_line h show_err i r)"
    and others: "\<And>j. j \<noteq> i \<Longrightarrow> polls_of j (acts @ [a]) = polls_of j acts" "accepted (acts @ [a]) = accepted acts"
  shows "\<exists>out. isolated h cf show_err trace (acts @ [a]) (end_task h show_err i r (set_sy_trace t s)) (ps @ [(i, out)])"
proof -
  have "i \<in> set (sv_tasks (sy_server (set_sy_trace t s)))" using i by simp
  moreover have "fine_rec (sy_trace (set_sy_trace t s))" using isolated_fine [OF iso fine] by (simp add: t fine_rec_def)
  ultimately have "sy_trace (end_task h show_err i r (set_sy_trace t s)) =
      (sy_trace s)\<lparr>written := written (sy_trace s) @ out @ closing_line h show_err i r\<rparr>"
    by (simp add: end_task_trace t)
  with al others show ?thesis by (intro exI isolated_turn [OF iso res i(2)]) simp_all
qed

lemma isolated_open_end:
  assumes iso: "isolated h cf show_err trace acts s ps" and fine: "fine_rec trace"
    and ok: "system_ok cf (accepted acts) s" and res: "sy_result s = None"
    and i: "sy_tasks s i = Some Starting" and op: "open_session h cf i w (sy_trace s) = (q, c)"
    and q: "\<And>l. q \<noteq> Inr (Some l)"
  shows "\<exists>out. isolated h cf show_err trace (acts @ [Open i w])
    (end_task h show_err i (map_sum id (\<lambda>_. ()) q) (set_sy_trace (co_trace c) s)) (ps @ [(i, out)])"
proof -
  from isolated_fine [OF iso fine] op obtain q0 c0 where
    o: "open_session h cf i w no_trace = (q0, c0)" "q = map_sum id (map_option (add_loop (written (sy_trace s)))) q0"
      "co_trace c = (sy_trace s)\<lparr>written := written (sy_trace s) @ written (co_trace c0)\<rparr>"
    by (rule open_alone) blast
  have "q0 = q"
  proof (cases q0)
    case (Inr x)
    with o(2) q show ?thesis by (cases x) auto
  qed (use o(2) in simp)
  with o(1) q have "connection h cf i w [] no_trace = (Some (map_sum id (\<lambda>_. ()) q), c0)"
    by (cases q) (auto simp: connection_def split: option.split)
  then have "alone h cf show_err (acts @ [Open i w]) i (Ended (map_sum id (\<lambda>_. ()) q))
      (output_of i ps @ written (co_trace c0) @ closing_line h show_err i (map_sum id (\<lambda>_. ()) q))"
    using starting_alone [OF iso i] by (auto simp: alone.simps)
  with system_ok_task(4) [OF ok i] o(3) show ?thesis
    by (intro isolated_end [OF iso fine res _ system_ok_known [OF ok i]]) simp_all
qed

text \<open>A poll, in the system and alone.\<close>

lemma poll_alone:
  assumes iso: "isolated h cf show_err trace acts s ps" and fine: "fine_rec trace"
    and i: "sy_tasks s i = Some (Relaying l)"
    and st: "select_step (h_env h) b (with_trace (sy_trace s) l) = (q, l')"
  obtains w l0 c l1' out where "Open i w \<in> set acts" and "open_session h cf i w no_trace = (Inr (Some l0), c)"
    and "select_loop (h_env h) (polls_of i acts @ [b]) l0 =
      (if q = Inr True then None else Some (map_sum id (\<lambda>_. ()) q), l1')"
    and "with_trace no_trace l1' = with_trace no_trace l'"
    and "trace_of l' = (sy_trace s)\<lparr>written := written (sy_trace s) @ out\<rparr>"
    and "written (trace_of l1') = output_of i ps @ out"
proof -
  obtain w l0 c l1 where
    w: "Open i w \<in> set acts" "open_session h cf i w no_trace = (Inr (Some l0), c)"
      "select_loop (h_env h) (polls_of i acts) l0 = (None, l1)" "with_trace no_trace l1 = with_trace no_trace l"
      "output_of i ps = written (trace_of l1)"
    using isolated_task [OF iso i] by (auto simp: alone.simps)
  have "fine_loop l1" using open_session_blind(3) [OF fine_no_trace(1) w(2)] select_loop_fine [OF _ w(3)] by simp
  from turn_alone [OF isolated_fine [OF iso fine] this w(4) st] obtain l1' out where
    t: "select_step (h_env h) b l1 = (q, l1')" "with_trace no_trace l1' = with_trace no_trace l'"
      "trace_of l' = (sy_trace s)\<lparr>written := written (sy_trace s) @ out\<rparr>" "written (trace_of l1') = written (trace_of l1) @ out"
    by blast
  from select.run_append [OF w(3), of "[b]"] t(1)
  have "select_loop (h_env h) (polls_of i acts @ [b]) l0 =
      (if q = Inr True then None else Some (map_sum id (\<lambda>_. ()) q), l1')"
    by (cases q) auto
  with that w t show ?thesis by simp
qed

lemma isolated_poll_on:
  assumes iso: "isolated h cf show_err trace acts s ps" and fine: "fine_rec trace"
    and i: "sy_tasks s i = Some (Relaying l)"
    and st: "select_step (h_env h) b (with_trace (sy_trace s) l) = (Inr True, l')"
    and ok: "system_ok cf (accepted acts) s" and res: "sy_result s = None"
  shows "\<exists>out. isolated h cf show_err trace (acts @ [Poll i b])
    (set_sy_trace (trace_of l') (s\<lparr>sy_tasks := (sy_tasks s)(i \<mapsto> Relaying l')\<rparr>)) (ps @ [(i, out)])"
  using iso fine i st
proof (rule poll_alone)
  fix w l0 c l1' out
  assume a: "Open i w \<in> set acts" "open_session h cf i w no_trace = (Inr (Some l0), c)"
    "select_loop (h_env h) (polls_of i acts @ [b]) l0 =
      (if Inr True = Inr True then None else Some (map_sum id (\<lambda>_. ()) (Inr True)), l1')"
    "with_trace no_trace l1' = with_trace no_trace l'"
    "trace_of l' = (sy_trace s)\<lparr>written := written (sy_trace s) @ out\<rparr>"
    "written (trace_of l1') = output_of i ps @ out"
  then have "alone h cf show_err (acts @ [Poll i b]) i (Relaying l') (output_of i ps @ out)"
    by (auto simp: alone.simps)
  with a(5) have "isolated h cf show_err trace (acts @ [Poll i b])
      (set_sy_trace (trace_of l') (s\<lparr>sy_tasks := (sy_tasks s)(i \<mapsto> Relaying l')\<rparr>)) (ps @ [(i, out)])"
    by (intro isolated_turn [OF iso res system_ok_known [OF ok i]]) simp_all
  then show ?thesis by blast
qed

lemma isolated_poll_end:
  assumes iso: "isolated h cf show_err trace acts s ps" and fine: "fine_rec trace"
    and i: "sy_tasks s i = Some (Relaying l)"
    and st: "select_step (h_env h) b (with_trace (sy_trace s) l) = (q, l')"
    and ok: "system_ok cf (accepted acts) s" and res: "sy_result s = None" and q: "q \<noteq> Inr True"
  shows "\<exists>out. isolated h cf show_err trace (acts @ [Poll i b])
    (end_task h show_err i (map_sum id (\<lambda>_. ()) q) (set_sy_trace (trace_of l') s)) (ps @ [(i, out)])"
  using iso fine i st
proof (rule poll_alone)
  fix w l0 c l1' out
  assume a: "Open i w \<in> set acts" "open_session h cf i w no_trace = (Inr (Some l0), c)"
    "select_loop (h_env h) (polls_of i acts @ [b]) l0 =
      (if q = Inr True then None else Some (map_sum id (\<lambda>_. ()) q), l1')"
    "trace_of l' = (sy_trace s)\<lparr>written := written (sy_trace s) @ out\<rparr>"
    "written (trace_of l1') = output_of i ps @ out"
  with q connection_open [OF a(2,3)]
  have "alone h cf show_err (acts @ [Poll i b]) i (Ended (map_sum id (\<lambda>_. ()) q))
      (output_of i ps @ out @ closing_line h show_err i (map_sum id (\<lambda>_. ()) q))"
    by (auto simp: alone.simps conn_of_relay_def trace_of_def)
  with system_ok_task(4) [OF ok i] a(4) show ?thesis 
    by (intro isolated_end [OF iso fine res _ system_ok_known [OF ok i]]) simp_all
qed

lemma isolated_accept:
  assumes iso: "isolated h cf show_err trace acts s ps" and "sy_result s = None"
    and "serve_step to_json show_err' (Accepted (Inr ())) (sy_server s) = (Inr True, sv)"
    and ok: "system_ok cf (accepted acts) s" and fresh: "Suc (accepted acts) < 2 ^ 64"
  shows "isolated h cf show_err trace (acts @ [Listen (Accepted (Inr ()))])
    (s\<lparr>sy_server := sv, sy_tasks := (sy_tasks s)(sv_next_id sv \<mapsto> Starting)\<rparr>) ps"
proof -
  from assms(3) have sv: "sv_next_id sv = sv_next_id (sy_server s) + 1" "sv_trace sv = sv_trace (sy_server s)"
    by (auto simp: serve_step_def Let_def)
  note new = accept_fresh [OF ok fresh]
  have kept: "j = sv_next_id sv \<or> sy_tasks s j \<noteq> None" if "known (acts @ [Listen (Accepted (Inr ()))]) j" for j
    using that new(1) sv(1) isolated_tasks [OF iso assms(2), of j] by (auto simp: known_def le_Suc_eq word_unat_eq_iff)
  show ?thesis
  proof (rule isolated_listen [OF iso _ _ assms(2)])
    fix j
    assume "known (acts @ [Listen (Accepted (Inr ()))]) j"
      and "sy_tasks (s\<lparr>sy_server := sv, sy_tasks := (sy_tasks s)(sv_next_id sv \<mapsto> Starting)\<rparr>) j = None"
    with kept [of j] show "sy_result (s\<lparr>sy_server := sv, sy_tasks := (sy_tasks s)(sv_next_id sv \<mapsto> Starting)\<rparr>) \<noteq> None \<and>
        (\<exists>t. running (Some t) \<and> sy_tasks s j = Some t)"
      by (simp split: if_split_asm)
  qed (use new(2) sv in \<open>auto simp: sy_trace_def split: if_split_asm\<close>)
qed

lemma isolated_return:
  assumes iso: "isolated h cf show_err trace acts s ps" and "sy_result s = None"
    and "serve_step to_json show_err' ev (sy_server s) = (q, sv)" and "q \<noteq> Inr True"
    and "accepted (acts @ [Listen ev]) = accepted acts"
  shows "isolated h cf show_err trace (acts @ [Listen ev]) (stop r sv s) ps"
proof -
  have "\<exists>t. running (Some t) \<and> sy_tasks s j = Some t"
    if "known (acts @ [Listen ev]) j" "sy_tasks (stop r sv s) j = None" for j
  proof -
    from that(1) assms(5) isolated_tasks [OF iso assms(2)] obtain t where "sy_tasks s j = Some t" by (auto simp: known_def)
    with that(2) show ?thesis by (cases t) (auto simp: stop_def)
  qed
  then show ?thesis
    using assms(2) serve_step_stops(3) [OF assms(3,4)]
    by (intro isolated_listen [OF iso]) (auto simp: stop_def sy_trace_def split: option.split_asm task.split_asm)
qed

lemma isolated_step:
  assumes st: "sys_step h cf show_err s a s'" and iso: "isolated h cf show_err trace acts s ps"
    and fine: "fine_rec trace" and ok: "system_ok cf (accepted acts) s" and fresh: "accepted (acts @ [a]) < 2 ^ 64"
  shows "\<exists>ps'. isolated h cf show_err trace (acts @ [a]) s' ps'"
  using st
proof (cases rule: sys_step.cases)
  case (accept sv)
  with ok fresh isolated_accept [OF iso accept(3,4) ok] show ?thesis by auto
next
  case (join sv)
  then have "sv_trace sv = sv_trace (sy_server s)"
    by (auto simp: serve_step_def split: list.split_asm task_end.split_asm)
  then have "isolated h cf show_err trace (acts @ [Listen JoinNext]) (s\<lparr>sy_server := sv\<rparr>) ps"
    using join(3) isolated_tasks [OF iso join(3)]
    by (intro isolated_listen [OF iso]) (simp_all add: sy_trace_def known_def, fastforce)
  with join(1,2) show ?thesis by auto
next
  case (return ev e q sv)
  then have "accepted (acts @ [Listen ev]) = accepted acts" by auto
  with return isolated_return [OF iso return(3,5,6)] show ?thesis by auto
next
  case (open_relay i l w c)
  with isolated_open_relay [OF iso fine ok open_relay(3,4,5)] show ?thesis by auto
next
  case (open_end i w q c)
  with isolated_open_end [OF iso fine ok open_end(3,4,5)] show ?thesis by blast
next
  case (poll_on i l b l')
  with isolated_poll_on [OF iso fine poll_on(4,5) ok poll_on(3)] show ?thesis by auto
next
  case (poll_end i l b q l')
  with isolated_poll_end [OF iso fine poll_end(4,5) ok poll_end(3)] show ?thesis by blast
qed

lemma sys_run_isolated:
  assumes "sys_run h cf show_err (system_start trace) acts s" and "accepted acts < 2 ^ 64" and "fine_rec trace"
  shows "\<exists>ps. isolated h cf show_err trace acts s ps"
  using assms(1,2)
proof (induction rule: sys_run.induct)
  case start
  have "isolated h cf show_err trace [] (system_start trace) []"
    by (simp add: isolated_def system_start_def serve_start_def sy_trace_def known_def)
  then show ?case by blast
next
  case (act acts s a s')
  with accepted_mono [of acts "[a]"] have "accepted acts < 2 ^ 64" by simp
  with act sys_run_ok obtain ps where "isolated h cf show_err trace acts s ps" "system_ok cf (accepted acts) s" by blast
  from isolated_step [OF act.hyps(2) this(1) assms(3) this(2) act.prems] show ?case .
qed

section \<open>Properties\<close>

text \<open>
  C4: connections are isolated: each accepted client owns exactly one upstream and its own semantic and
  fault state. In every run of the proxy, whatever the order in which the listener and the tasks take
  their turns, every connection is in the state, and has returned the result, that \<^verbatim>\<open>connection\<close>
  reaches when it is run alone on the same network behaviour, with only its own polls and a trace file
  of its own; a connection that the listener dropped when it returned was in such a state. What was
  added to the shared trace file is a sequence of pieces, each of which belongs to an accepted connection, so that the
  listener adds nothing of its own; and the pieces of a connection are together exactly the trace it
  would have written alone, followed by its closing record once it has returned. The trace file must
  not fail (\<open>room trace = None\<close>), and fewer than \<open>2 ^ 64\<close> connections have been accepted.
\<close>

theorem connections_isolated:
  assumes "sys_run h cf show_err (system_start trace) acts s" and "accepted acts < 2 ^ 64" and "room trace = None"
  shows "\<exists>ps. written (sy_trace s) = written trace @ concat (map snd ps) \<and>
    (\<forall>p \<in> set ps. 1 \<le> unat (fst p) \<and> unat (fst p) \<le> accepted acts) \<and>
    (\<forall>i t. sy_tasks s i = Some t \<longrightarrow> alone h cf show_err acts i t (output_of i ps)) \<and>
    (\<forall>i. 1 \<le> unat i \<and> unat i \<le> accepted acts \<longrightarrow> sy_tasks s i = None \<longrightarrow>
       sy_result s \<noteq> None \<and> (\<exists>t. running (Some t) \<and> alone h cf show_err acts i t (output_of i ps)))"
proof -
  from sys_run_isolated [OF assms(1,2)] assms(3) obtain ps where "isolated h cf show_err trace acts s ps"
    by (auto simp: fine_rec_def)
  then show ?thesis unfolding isolated_def known_def by (intro exI [of _ ps]) simp
qed

text \<open>Two clients are accepted and the first one is connected.\<close>

abbreviation example_show :: "err \<Rightarrow> string" where
  "example_show \<equiv> (\<lambda>_. ''error'')"

abbreviation example_actions :: "action list" where
  "example_actions \<equiv> [Listen (Accepted (Inr ())), Listen (Accepted (Inr ())), Open 1 example_wires]"

lemma example_accepts:
  "\<exists>s. sys_run h cf show_err (system_start no_trace) [Listen (Accepted (Inr ())), Listen (Accepted (Inr ()))] s \<and>
     sy_tasks s = [1 \<mapsto> Starting, 2 \<mapsto> Starting] \<and> sy_result s = None \<and> sy_trace s = no_trace \<and>
     sv_finished (sy_server s) = []"
proof -
  let ?sv = "\<lambda>n. \<lparr>sv_next_id = n, sv_tasks = (if n = 1 then [1] else [1, 2]), sv_finished = [], sv_trace = no_trace\<rparr>"
  let ?s1 = "(system_start no_trace)\<lparr>sy_server := ?sv 1, sy_tasks := Map.empty(1 \<mapsto> Starting)\<rparr>"
  let ?s2 = "?s1\<lparr>sy_server := ?sv 2, sy_tasks := [1 \<mapsto> Starting, 2 \<mapsto> Starting]\<rparr>"
  have one: "sys_step h cf show_err (system_start no_trace) (Listen (Accepted (Inr ()))) ?s1"
    using sys_step.accept [of "system_start no_trace" h show_err "?sv 1" cf]
    by (simp add: system_start_def serve_start_def serve_step_def Let_def)
  have two: "sys_step h cf show_err ?s1 (Listen (Accepted (Inr ()))) ?s2"
    using sys_step.accept [of ?s1 h show_err "?sv 2" cf]
    by (simp add: system_start_def serve_start_def serve_step_def Let_def)
  from sys_run.act [OF sys_run.act [OF sys_run.start one] two] show ?thesis
    by (intro exI [of _ ?s2]) (simp add: system_start_def sy_trace_def)
qed

lemma example_accepted_run:
  assumes "cf_tls cf = TlsConfig_default"
  shows "\<exists>s l. sys_run (example_host silent_server) cf example_show (system_start no_trace) example_actions s \<and>
     sy_tasks s 1 = Some (Relaying l)"
proof -
  let ?h = "example_host silent_server"
  from example_accepts [of ?h cf example_show] obtain s where
    s: "sys_run ?h cf example_show (system_start no_trace) [Listen (Accepted (Inr ())), Listen (Accepted (Inr ()))] s"
      "sy_tasks s = [1 \<mapsto> Starting, 2 \<mapsto> Starting]" "sy_result s = None" "sy_trace s = no_trace" by blast
  from open_session_healthy [of cf example_wires ?h example_tcp silent_server no_trace "[ssl_request]" example_parameters
      "raw commit_query" 1] assms example_parameters_ok ssl_request_ok(4)
  obtain l c where o: "open_session ?h cf 1 example_wires no_trace = (Inr (Some l), c)"
    by (auto simp: example_host_def example_wires_def no_trace_def)
  let ?s3 = "set_sy_trace (co_trace c) (s\<lparr>sy_tasks := (sy_tasks s)(1 \<mapsto> Relaying l)\<rparr>)"
  have "sys_step ?h cf example_show s (Open 1 example_wires) ?s3"
    using o s by (intro sys_step.open_relay) simp_all
  from sys_run.act [OF s(1) this] show ?thesis
    by (intro exI [of _ ?s3] exI [of _ l]) simp
qed

lemma example_run:
  "\<exists>s l. sys_run (example_host silent_server) (example_config None None) example_show (system_start no_trace) example_actions s \<and>
     sy_tasks s 1 = Some (Relaying l)"
  by (rule example_accepted_run) (simp add: example_config_def TlsConfig_default_def)

theorem connections_isolated_witness:
  "\<exists>s ps l. sys_run (example_host silent_server) (example_config None None) example_show (system_start no_trace) example_actions s \<and>
     written (sy_trace s) = concat (map snd ps) \<and> sy_tasks s 1 = Some (Relaying l) \<and> fst ` set ps \<subseteq> {1, 2} \<and>
     alone (example_host silent_server) (example_config None None) example_show example_actions 1 (Relaying l) (output_of 1 ps)"
proof -
  from example_run obtain s l where
    run: "sys_run (example_host silent_server) (example_config None None) example_show (system_start no_trace) example_actions s"
    and l: "sy_tasks s 1 = Some (Relaying l)" by blast
  have n: "accepted example_actions = 2" by (simp add: accepted_def)
  have "room no_trace = None" by (simp add: no_trace_def)
  with connections_isolated [OF run] n obtain ps where
    ps: "written (sy_trace s) = concat (map snd ps)" "\<forall>p \<in> set ps. 1 \<le> unat (fst p) \<and> unat (fst p) \<le> 2"
    "alone (example_host silent_server) (example_config None None) example_show example_actions 1 (Relaying l) (output_of 1 ps)"
    using l by auto
  have "i = 1 \<or> i = 2" if "1 \<le> unat i" "unat i \<le> 2" for i :: u64
    using that by (simp add: word_unat_eq_iff) linarith
  with ps(2) have "fst ` set ps \<subseteq> {1, 2}" by auto
  with run l ps show ?thesis by blast
qed

text \<open>
  C17: every reachable state of the proxy is well-formed. Connections are numbered in the order in which
  they are accepted, from 1, and no two have the same number; the listener's set of tasks is exactly
  the set of connections that have not ended; a connection that relays has a state and matchers of its
  own, which carry its number and exactly the configured scenarios, and its gate is within its bounds.
\<close>

theorem system_well_formed:
  assumes "sys_run h cf show_err (system_start trace) acts s" and "accepted acts < 2 ^ 64"
  shows "sv_next_id (sy_server s) = of_nat (accepted acts) \<and> distinct (sv_tasks (sy_server s)) \<and>
    (\<forall>i. i \<in> set (sv_tasks (sy_server s)) \<longleftrightarrow> running (sy_tasks s i)) \<and>
    (\<forall>i t. sy_tasks s i = Some t \<longrightarrow> 1 \<le> unat i \<and> unat i \<le> accepted acts) \<and>
    (\<forall>i l. sy_tasks s i = Some (Relaying l) \<longrightarrow>
       r_id (l_relay l) = i \<and> cs_id (r_state (l_relay l)) = i \<and>
       map m_scenario (n_matchers (r_net (l_relay l))) = cf_scenarios cf \<and>
       r_held_size (l_relay l) = length (concat (r_held (l_relay l))) \<and> r_held_size (l_relay l) \<le> 1024 * 1024)"
proof -
  note ok = sys_run_ok [OF assms]
  then have n: "unat (sv_next_id (sy_server s)) = accepted acts" by (simp add: system_ok_def)
  have "sv_next_id (sy_server s) = of_nat (accepted acts)" by (simp flip: n)
  moreover have "1 \<le> unat i \<and> unat i \<le> accepted acts" if "sy_tasks s i = Some t" for i t
    using system_ok_task(1,2) [OF ok that] by simp
  moreover have "r_id (l_relay l) = i \<and> cs_id (r_state (l_relay l)) = i \<and>
       map m_scenario (n_matchers (r_net (l_relay l))) = cf_scenarios cf \<and>
       r_held_size (l_relay l) = length (concat (r_held (l_relay l))) \<and> r_held_size (l_relay l) \<le> 1024 * 1024"
    if "sy_tasks s i = Some (Relaying l)" for i l
    using system_ok_task(3) [OF ok that] by (simp add: task_ok_def loop_ok_def held_inv_def)
  moreover have "distinct (sv_tasks (sy_server s))" "i \<in> set (sv_tasks (sy_server s)) \<longleftrightarrow> running (sy_tasks s i)" for i
    using ok by (simp_all add: system_ok_def)
  ultimately show ?thesis by blast
qed

theorem system_well_formed_witness:
  "\<exists>s l. sys_run (example_host silent_server) (example_config None None) example_show (system_start no_trace) example_actions s \<and>
     sv_next_id (sy_server s) = 2 \<and> sy_tasks s 1 = Some (Relaying l) \<and> r_id (l_relay l) = 1"
proof -
  from example_run obtain s l where
    run: "sys_run (example_host silent_server) (example_config None None) example_show (system_start no_trace) example_actions s"
    and l: "sy_tasks s 1 = Some (Relaying l)" by blast
  have "accepted example_actions = 2" by (simp add: accepted_def)
  with system_well_formed [OF run] run l show ?thesis by fastforce
qed

text \<open>
  C29: a second SSLRequest ends the whole proxy. Where clients may use TLS, a client that has finished its
  handshake and then sends another SSLRequest through the encrypted stream makes its task panic; the
  task leaves no record that the connection closed, and when the listener joins it, \<^verbatim>\<open>serve\<close> returns an
  error and no other connection runs any more.
\<close>

theorem second_ssl_request_ends_proxy:
  assumes "sys_run h cf show_err (system_start trace) acts s" and "accepted acts < 2 ^ 64"
    and "sy_result s = None" and "sv_finished (sy_server s) = []" and "sy_tasks s i = Some Starting"
    and "packet_ok q" and "length q = 8" and "packet_code q = SSL_REQUEST"
    and "tls_frontend (cf_tls cf) = Some acc" and "w_input w = q @ rest"
    and "set_nodelay (w_client w) = Inr ()" and "healthy (Plain (w_client w))"
    and "\<And>t. h_accept h acc t rest = Inr (ch, tcp, q @ rest')" and "healthy (Tls ch tcp)"
  shows "\<exists>s'. sys_run h cf show_err (system_start trace) (acts @ [Open i w, Listen JoinNext]) s' \<and>
    sy_result s' = Some (Inl (Panic ''SSLRequest after TLS already established'')) \<and>
    (\<forall>j. \<not> running (sy_tasks s' j)) \<and> sy_trace s' = sy_trace s"
proof -
  let ?r = "Inl (Panic ''SSLRequest after TLS already established'') :: err + unit"
  from second_ssl_request_panics [OF assms(6-14), of i "sy_trace s"] obtain c where
    op: "open_session h cf i w (sy_trace s) = (Inl (Panic ''SSLRequest after TLS already established''), c)"
    and c: "co_trace c = sy_trace s" by blast
  let ?s1 = "end_task h show_err i ?r (set_sy_trace (co_trace c) s)"
  have one: "sys_step h cf show_err s (Open i w) ?s1"
    using sys_step.open_end [OF assms(3,5) op, of show_err] by simp
  have "i \<in> set (sv_tasks (sy_server (set_sy_trace (co_trace c) s)))"
    using system_ok_task(4) [OF sys_run_ok [OF assms(1,2)] assms(5)] by simp
  note s1 = end_task_server [OF this, of h show_err ?r]
  have fin: "sv_finished (sy_server ?s1) = [Panicked ''SSLRequest after TLS already established'']"
    using s1(3) assms(4) by (simp add: task_result_def)
  obtain sv where sv: "serve_step (env_to_json (h_env h)) show_err JoinNext (sy_server ?s1) =
      (Inl (Panic ''SSLRequest after TLS already established''), sv)"
    using fin by (simp add: serve_step_def)
  let ?s2 = "stop ?r sv ?s1"
  have two: "sys_step h cf show_err ?s1 (Listen JoinNext) ?s2"
    using sys_step.return [OF _ _ sv, where cf = cf] assms(3) by simp
  have "sy_trace ?s2 = sy_trace s"
    using serve_step_stops(3) [OF sv] s1(4) c by (simp add: stop_def sy_trace_def set_sy_trace_def task_result_def)
  moreover have "\<not> running (sy_tasks ?s2 j)" for j by (simp add: stop_def split: option.split task.split)
  ultimately show ?thesis
    using sys_run.act [OF sys_run.act [OF assms(1) one] two] by (intro exI [of _ ?s2]) (simp add: stop_def)
qed

theorem second_ssl_request_ends_proxy_witness:
  "\<exists>s. sys_run (example_host silent_server) (example_config None (Some (TlsAcceptor [] []))) example_show (system_start no_trace)
      [Listen (Accepted (Inr ())), Listen (Accepted (Inr ())), Open 1 (example_wires\<lparr>w_input := ssl_request\<rparr>), Listen JoinNext] s \<and>
     sy_result s = Some (Inl (Panic ''SSLRequest after TLS already established'')) \<and> \<not> running (sy_tasks s 2)"
proof -
  let ?h = "example_host silent_server" and ?cf = "example_config None (Some (TlsAcceptor [] []))"
  from example_accepts [of ?h ?cf example_show] obtain s where
    s: "sys_run ?h ?cf example_show (system_start no_trace) [Listen (Accepted (Inr ())), Listen (Accepted (Inr ()))] s"
      "sy_tasks s = [1 \<mapsto> Starting, 2 \<mapsto> Starting]" "sy_result s = None" "sv_finished (sy_server s) = []" by blast
  have t: "healthy (Tls (tcp_chan example_tcp) example_tcp)"
    by (simp add: example_tcp_def open_stream_def healthy_def)
  have "accepted [Listen (Accepted (Inr ())), Listen (Accepted (Inr ()))] < 2 ^ 64" by (simp add: accepted_def)
  from second_ssl_request_ends_proxy [OF s(1) this s(3,4) _ ssl_request_ok(1-3), of 1 "TlsAcceptor [] []"
      "example_wires\<lparr>w_input := ssl_request\<rparr>" "[]" "tcp_chan example_tcp" example_tcp "[]"] s(2) t
  show ?thesis by (auto simp: example_config_def example_host_def example_wires_def)
qed

end
