(* ===== verification/Relay_Endings.thy ===== *)
theory Relay_Endings
  imports Relay_Faults
begin

text \<open>
  How a session ends: the reasons for which the \<^verbatim>\<open>select!\<close> loop returns without an error, and the limit of
  the completion gate, the one reason for which it fails on its own.
\<close>

section \<open>Endings\<close>

lemma fired_in_append:
  assumes "follows env ins r r1"
  shows "fired_in env (ins @ ins') r = fired_in env ins r @ fired_in env ins' r1"
proof -
  have "events_of env (ins @ ins') r = events_of env ins r @ events_of env ins' r1"
    using assms by (simp add: events_of_def conn.run_append follows_def)
  then show ?thesis using assms by (simp add: firings_append follows_def)
qed

text \<open>A scenario that disconnects fired on one of the inputs of an arrival.\<close>

definition disconnects :: "Env \<Rightarrow> arrival \<Rightarrow> Relay \<Rightarrow> bool" where
  "disconnects env a r \<longleftrightarrow>
     (\<exists>ins. step_inputs a ins \<and> (\<exists>s \<in> set (fired_in env ins r). act_disconnect (sc_action s) \<noteq> None))"

lemma observing_disconnects:
  assumes "observing env i r = (Inr d, r')" and "d_disconnect d"
  shows "\<exists>s \<in> set (fired_in env [i] r). act_disconnect (sc_action s) \<noteq> None"
  using observing_Inr(5) [OF assms(1)] assms(2) by (simp add: Disposition_default_def)

lemma client_frame_ends:
  assumes "client_frame env f r = (Inr False, r')"
  shows "tag f = CHR ''X'' \<or> disconnects env (ClientNext (Inr (Some f))) r"
proof (rule disjCI)
  assume X: "\<not> disconnects env (ClientNext (Inr (Some f))) r"
  from assms obtain d r1 where o: "observing env (FromClient f) r = (Inr d, r1)"
    and rest: "(if d_disconnect d then io_return False
       else and_then (if d_suppress d then io_return True else forward env f) (\<lambda>go.
         io_return (go \<and> tag f \<noteq> CHR ''X''))) r1 = (Inr False, r')"
    by (auto simp: client_frame_def and_then_Inr)
  from observing_disconnects [OF o] X have d: "\<not> d_disconnect d"
    by (auto simp: disconnects_def client_inputs_def)
  show "tag f = CHR ''X''"
  proof (rule ccontr)
    assume tag: "tag f \<noteq> CHR ''X''"
    with d rest have fw: "forward env f r1 = (Inr False, r')" by (auto simp: and_then_Inr split: if_splits)
    then obtain r2 d2 where w: "on_net (on_upstream (stream_write_all (raw f))) r1 = (Inr (), r2)"
      and o2: "observing env Forwarded r2 = (Inr d2, r')" "d_disconnect d2"
      by (auto simp: forward_def and_then_Inr split: if_splits)
    from same_but_streams_follows [OF observing_Inr(1) [OF o] write_server_Inr(1) [OF w]]
    have "fired_in env ([FromClient f] @ [Forwarded]) r = fired_in env [FromClient f] r @ fired_in env [Forwarded] r2"
      by (rule fired_in_append)
    with observing_disconnects [OF o2] X show False by (auto simp: disconnects_def client_inputs_def)
  qed
qed

text \<open>The rows left of the truncation that is pending when a frame of the server is handled.\<close>

definition rows_left :: "Env \<Rightarrow> Frame \<Rightarrow> Relay \<Rightarrow> u64 option" where
  "rows_left env f r = truncated (fired_in env [FromServer f] r) (n_truncate (r_net r))"

lemma server_frame_ends:
  assumes "server_frame env f r = (Inr False, r')"
  shows "disconnects env (ServerNext (Inr (Some f))) r \<or>
    tag f = CHR ''D'' \<and> aborts_client r' \<and> rows_left env f r \<in> {Some 0, Some 1}"
  using assms
proof (cases rule: server_frame_cases)
  case (dropped d r1)
  with observing_disconnects show ?thesis by (auto simp: disconnects_def)
next
  case (ended d r1)
  with cut_result_Inr(2) [OF ended(5)] observing_Inr(6) [OF ended(1)] show ?thesis by (simp add: rows_left_def)
next
  case (last d r1 n r2)
  have "n_truncate n = Some 0" using deliver_Inr(4) [OF last(4)] last(5,6) by simp
  then have "n_truncate (r_net r1) = Some 1" using last(3,5) by (auto simp: take_row_def split: option.splits if_splits)
  with last(5) cut_result_Inr(2) [OF last(7)] observing_Inr(6) [OF last(1)] show ?thesis by (simp add: rows_left_def)
qed simp

text \<open>A truncation that is pending was asked for by a scenario that fired.\<close>

definition truncates :: "Scenario \<Rightarrow> bool" where
  "truncates s \<longleftrightarrow> act_truncate_result (sc_action s) \<noteq> None"

lemma truncated_origin: "truncated ss t \<noteq> None \<Longrightarrow> t \<noteq> None \<or> (\<exists>s \<in> set ss. truncates s)"
proof (induction ss rule: rev_induct)
  case (snoc s ss)
  then show ?case by (cases "act_truncate_result (sc_action s)") (auto simp: truncates_def truncated_def)
qed simp

definition truncation_from :: "Env \<Rightarrow> input list \<Rightarrow> Relay \<Rightarrow> Relay \<Rightarrow> bool" where
  "truncation_from env ins r r' \<longleftrightarrow>
     (n_truncate (r_net r') \<noteq> None \<longrightarrow> n_truncate (r_net r) \<noteq> None \<or> (\<exists>s \<in> set (fired_in env ins r). truncates s))"

lemma server_frame_truncation:
  assumes "server_frame env f r = (Inr True, r')"
  shows "truncation_from env [FromServer f] r r'"
  using assms
proof (cases rule: server_frame_cases)
  case (on d r1 n)
  have "n_truncate n \<noteq> None \<Longrightarrow> n_truncate (r_net r1) \<noteq> None"
    using on(3) by (auto simp: take_row_def split: option.splits if_splits)
  with deliver_Inr(4) [OF on(4)] have "n_truncate (r_net r') \<noteq> None \<Longrightarrow> n_truncate (r_net r1) \<noteq> None"
    by (simp split: if_splits)
  with observing_Inr(6) [OF on(1)] truncated_origin [of "fired_in env [FromServer f] r" "n_truncate (r_net r)"]
  show ?thesis unfolding truncation_from_def by metis
qed simp_all

lemma relay_step_truncation:
  assumes "relay_step env a r = (Inr True, r')"
  shows "\<exists>ins. step_inputs a ins \<and> follows env ins r r' \<and> truncation_from env ins r r'"
  using assms
proof (cases rule: relay_step_onE)
  case (client f)
  from client_frame_Inr [OF client(2)] obtain ins where "client_inputs f ins" "follows env ins r r'"
    "n_truncate (r_net r') = truncated (fired_in env ins r) (n_truncate (r_net r))" by blast
  with truncated_origin [of "fired_in env ins r" "n_truncate (r_net r)"] client(1) show ?thesis
    unfolding truncation_from_def by (metis step_inputs.simps(1))
next
  case (server f)
  with server_frame_on [OF server(2)] server_frame_truncation [OF server(2)] show ?thesis by auto
qed

lemma relay_truncation:
  assumes "relay env as r = (None, r')"
  shows "\<exists>ins. run_inputs as ins \<and> follows env ins r r' \<and> truncation_from env ins r r'"
  using assms
proof (induction as arbitrary: r)
  case (Cons a as)
  then obtain r1 where a: "relay_step env a r = (Inr True, r1)" and as: "relay env as r1 = (None, r')"
    by (auto simp: relay.run_Cons_None simp del: relay.simps)
  from relay_step_truncation [OF a] Cons.IH [OF as] obtain i ins where
    i: "step_inputs a i" "follows env i r r1" "truncation_from env i r r1" and
    ins: "run_inputs as ins" "follows env ins r1 r'" "truncation_from env ins r1 r'" by blast
  from i(3) ins(3) fired_in_append [OF i(2), of ins] have "truncation_from env (i @ ins) r r'"
    by (auto simp: truncation_from_def)
  with run_inputs_Cons [OF i(1) ins(1)] follows_trans [OF i(2) ins(2)] show ?case by blast
qed (auto simp: truncation_from_def)

lemma rows_left_origin:
  assumes "relay env as r = (None, r1)" and "n_truncate (r_net r) = None" and "rows_left env f r1 \<noteq> None"
  shows "\<exists>ins. run_inputs (as @ [ServerNext (Inr (Some f))]) ins \<and> (\<exists>s \<in> set (fired_in env ins r). truncates s)"
proof -
  from relay_truncation [OF assms(1)] obtain ins where
    ins: "run_inputs as ins" "follows env ins r r1" "truncation_from env ins r r1" by blast
  have "(\<exists>s \<in> set (fired_in env ins r). truncates s) \<or> (\<exists>s \<in> set (fired_in env [FromServer f] r1). truncates s)"
    using ins(3) assms(2,3) truncated_origin [of "fired_in env [FromServer f] r1" "n_truncate (r_net r1)"]
    unfolding truncation_from_def rows_left_def by blast
  with fired_in_append [OF ins(2), of "[FromServer f]"] have "\<exists>s \<in> set (fired_in env (ins @ [FromServer f]) r). truncates s"
    by auto
  moreover have "run_inputs (as @ [ServerNext (Inr (Some f))]) (ins @ [FromServer f])"
    by (rule run_inputs_snoc [OF ins(1)]) simp
  ultimately show ?thesis by blast
qed

text \<open>The other side of a connection is shut down.\<close>

lemma shutdown_Inr: "stream_shutdown s = (Inr u, s') \<Longrightarrow> ch_shut (chan s')"
  by (cases s) (auto simp: stream_shutdown_def on_part_def chan_shutdown_def split: option.split_asm)

definition end_reason :: "Env \<Rightarrow> arrival \<Rightarrow> Relay \<Rightarrow> Relay \<Rightarrow> bool" where
  "end_reason env a r r' \<longleftrightarrow>
     a = ClientNext (Inr None) \<and> ch_shut (chan (n_upstream (r_net r'))) \<or>
     a = ServerNext (Inr None) \<and> ch_shut (chan (n_frontend (r_net r'))) \<or>
     (\<exists>f. a = ClientNext (Inr (Some f)) \<and> tag f = CHR ''X'') \<or>
     disconnects env a r \<or>
     (\<exists>f. a = ServerNext (Inr (Some f)) \<and> tag f = CHR ''D'' \<and> aborts_client r' \<and>
        rows_left env f r \<in> {Some 0, Some 1})"

lemma relay_step_ends:
  assumes "relay_step env a r = (Inr False, r')"
  shows "end_reason env a r r'"
  using assms
proof (cases rule: relay_step_doneE)
  case (client f)
  with client_frame_ends [OF client(2)] show ?thesis by (auto simp: end_reason_def)
next
  case client_eof
  with shutdown_Inr [OF write_server_Inr(6) [OF client_eof(2)]] show ?thesis by (simp add: end_reason_def)
next
  case (server f)
  with server_frame_ends [OF server(2)] show ?thesis by (auto simp: end_reason_def)
next
  case server_eof
  with shutdown_Inr [OF write_client_Inr(6) [OF server_eof(2)]] show ?thesis by (simp add: end_reason_def)
qed

section \<open>The limit of the gate\<close>

text \<open>The frame does not fit in what the gate may hold.\<close>

definition overflows :: "Frame \<Rightarrow> Relay \<Rightarrow> bool" where
  "overflows f r \<longleftrightarrow>
     tag f \<noteq> CHR ''Z'' \<and> (gate f r \<or> r_held r \<noteq> []) \<and> r_held_size r + length (raw f) > 1024 * 1024"

lemma write_each_healthy:
  "healthy s \<Longrightarrow> \<exists>s'. write_each bs s = (Inr (), s') \<and> healthy s'"
proof (induction bs arbitrary: s)
  case (Cons b bs)
  from healthy_ops(1) [OF Cons.prems, of b] obtain s1 where "stream_write_all b s = (Inr (), s1)" "healthy s1" by blast
  with Cons.IH [of s1] show ?case by simp
qed simp

lemma deliver_healthy:
  assumes "healthy (n_frontend (r_net r))" and "n_truncate (r_net r) = None"
  shows "\<exists>r'. deliver f gated False r =
      ((if tag f \<noteq> CHR ''Z'' \<and> (gated \<or> r_held r \<noteq> []) \<and> r_held_size r + length (raw f) > 1024 * 1024
        then Inl (Bail ''completion gate exceeded 1 MiB; unsupported pipelined completion'') else Inr ()), r') \<and>
    n_truncate (r_net r') = None"
proof (cases "tag f = CHR ''Z''")
  case True
  from write_each_healthy [OF assms(1), of "r_held r @ [raw f]"] obtain s' where
    "write_each (r_held r @ [raw f]) (n_frontend (r_net r)) = (Inr (), s')" by blast
  with True show ?thesis
    by (simp add: deliver_def deliver_ready_def write_each_snoc [abs_def] on_part_def)
next
  case False
  from healthy_ops(1) [OF assms(1), of "raw f"] obtain s' where
    "stream_write_all (raw f) (n_frontend (r_net r)) = (Inr (), s')" by blast
  with False assms(2) show ?thesis
    by (auto simp: deliver_def deliver_other_def Let_def on_part_def)
qed

lemma server_frame_healthy:
  assumes "total_json env" and "room (n_trace (r_net r)) = None" and "healthy (n_frontend (r_net r))"
    and "n_truncate (r_net r) = None" and "fired_in env [FromServer f] r = []"
  shows "fst (server_frame env f r) =
    (if overflows f r then Inl (Bail ''completion gate exceeded 1 MiB; unsupported pipelined completion'') else Inr True)"
proof -
  from observing_no_fault [OF assms(1,5,2)] obtain t where
    o: "observing env (FromServer f) r = (Inr Disposition_default,
      r\<lparr>r_state := snd (cs_step (env_sha env) (FromServer f) (r_state r)),
        r_net := (r_net r)\<lparr>n_trace := t,
          n_matchers := offered_all (events_of env [FromServer f] r) (n_matchers (r_net r))\<rparr>\<rparr>)" (is "_ = (_, ?r1)") by blast
  have "take_row f (r_net ?r1) = (False, r_net ?r1)" using assms(4) by (simp add: take_row_def)
  moreover from deliver_healthy [of ?r1 f "gate f r"] assms(3,4) obtain r2 where
    "deliver f (gate f r) False ?r1 =
      ((if tag f \<noteq> CHR ''Z'' \<and> (gate f r \<or> r_held r \<noteq> []) \<and> r_held_size r + length (raw f) > 1024 * 1024
        then Inl (Bail ''completion gate exceeded 1 MiB; unsupported pipelined completion'') else Inr ()), r2)"
    "n_truncate (r_net r2) = None" by auto
  ultimately show ?thesis
    using o by (simp add: server_frame_def Disposition_default_def overflows_def Let_def)
qed

section \<open>Properties\<close>

text \<open>
  C15: the proxy never drops a session without a reason. When the loop returns without an error, its last
  step was one of these: the client closed its side and the server's connection has been shut down, the
  server closed its side and the client's connection has been shut down, the client sent Terminate, a
  scenario with a disconnect fired in this very step, or a row arrived while a truncation was pending
  that had at most this one row left, and the client's connection is aborted. If no truncation was
  pending when the loop started, a scenario with a truncation has fired in the run.
\<close>

theorem session_end_reasons:
  assumes "relay env as r = (Some (Inr u), r')"
  shows "\<exists>as1 a as2 r1. as = as1 @ a # as2 \<and> relay env as1 r = (None, r1) \<and>
    (a = ClientNext (Inr None) \<and> ch_shut (chan (n_upstream (r_net r'))) \<or>
     a = ServerNext (Inr None) \<and> ch_shut (chan (n_frontend (r_net r'))) \<or>
     (\<exists>f. a = ClientNext (Inr (Some f)) \<and> tag f = CHR ''X'') \<or>
     (\<exists>ins s. step_inputs a ins \<and> s \<in> set (fired_in env ins r1) \<and> act_disconnect (sc_action s) \<noteq> None) \<or>
     (\<exists>f. a = ServerNext (Inr (Some f)) \<and> tag f = CHR ''D'' \<and> aborts_client r' \<and>
        truncated (fired_in env [FromServer f] r1) (n_truncate (r_net r1)) \<in> {Some 0, Some 1} \<and>
        (n_truncate (r_net r) = None \<longrightarrow>
           (\<exists>ins s. run_inputs (as1 @ [a]) ins \<and> s \<in> set (fired_in env ins r) \<and>
              act_truncate_result (sc_action s) \<noteq> None))))"
proof -
  from relay.run_ended [OF assms] obtain as1 a as2 r1 where
    as: "as = as1 @ a # as2" and r1: "relay env as1 r = (None, r1)" and a: "relay_step env a r1 = (Inr False, r')" by auto
  from relay_step_ends [OF a] have reason: "end_reason env a r1 r'" .
  have "\<exists>ins s. run_inputs (as1 @ [a]) ins \<and> s \<in> set (fired_in env ins r) \<and> act_truncate_result (sc_action s) \<noteq> None"
    if "a = ServerNext (Inr (Some f))" "n_truncate (r_net r) = None" "rows_left env f r1 \<in> {Some 0, Some 1}" for f
    using rows_left_origin [OF r1 that(2), of f] that(1,3) by (auto simp: truncates_def)
  with as r1 reason show ?thesis
    by (intro exI [of _ as1] exI [of _ a] exI [of _ as2] exI [of _ r1])
      (auto simp: end_reason_def disconnects_def rows_left_def)
qed

theorem session_end_reasons_witness:
  "\<exists>r'. relay example_env [ServerNext (Inr None)] (example_relay []) = (Some (Inr ()), r') \<and>
     ch_shut (chan (n_frontend (r_net r')))"
proof -
  obtain r' where r: "relay example_env [ServerNext (Inr None)] (example_relay []) = (Some (Inr ()), r')"
    by (simp add: relay_step_def on_server_def on_part_def stream_defs example_defs)
  from session_end_reasons [OF r] r show ?thesis by (auto simp: Cons_eq_append_conv)
qed

text \<open>
  C16: the completion gate fails exactly at its limit. On connections and a trace file that do not fail,
  while no scenario fires and no truncation is pending, a frame of the server makes the loop fail if
  and only if the gate has to hold it (it is a gated completion, or it follows one that is held and is
  not ReadyForQuery) and more than 1 MiB would be held; in every other case the loop goes on.
\<close>

theorem gate_limit_exact:
  assumes "total_json env" and "room (n_trace (r_net r)) = None" and "healthy (n_frontend (r_net r))"
    and "n_truncate (r_net r) = None" and "fired_in env [FromServer f] r = []"
  shows "fst (relay_step env (ServerNext (Inr (Some f))) r) =
    (if tag f \<noteq> CHR ''Z'' \<and> (gate f r \<or> r_held r \<noteq> []) \<and> r_held_size r + length (raw f) > 1024 * 1024
     then Inl (Bail ''completion gate exceeded 1 MiB; unsupported pipelined completion'') else Inr True)"
  using server_frame_healthy [OF assms] by (simp add: relay_step_def on_server_def overflows_def)

theorem gate_limit_exact_witness:
  "fst (relay_step example_env (ServerNext (Inr (Some notice)))
      ((example_relay [])\<lparr>r_held := [replicate (1024 * 1024) NUL], r_held_size := 1024 * 1024\<rparr>)) =
     Inl (Bail ''completion gate exceeded 1 MiB; unsupported pipelined completion'') \<and>
   fst (relay_step example_env (ServerNext (Inr (Some notice))) (example_relay [])) = Inr True"
proof -
  let ?full = "(example_relay [])\<lparr>r_held := [replicate (1024 * 1024) NUL], r_held_size := 1024 * 1024\<rparr>"
  have "healthy (n_frontend (r_net (example_relay [])))" using example_calm by (simp only: calm_def)
  moreover have "0 < length (raw notice)" by (simp add: example_frames)
  moreover have "r_net ?full = r_net (example_relay [])" by simp
  ultimately show ?thesis
    using gate_limit_exact [of example_env ?full notice] gate_limit_exact [of example_env "example_relay []" notice]
    by (simp add: gate_def split: option.split)
qed

end
