(* ===== verification/Sql_Grammar.thy ===== *)
theory Sql_Grammar
  imports Events
begin

text \<open>
  A grammar for the SQL texts of \<^verbatim>\<open>classify\<close> (\<^verbatim>\<open>crates/pgfault-events/src/lib.rs\<close>), independent of its loops:
  comments nest by derivation instead of a depth counter, a dollar-quoted string ends at the first
  occurrence of its delimiter, and the classes are a table of first words and excluded words. The
  classifier decides exactly this grammar.
\<close>

section \<open>The grammar\<close>

text \<open>\<open>in_comment s r\<close>: a block comment is open at the beginning of \<open>s\<close>, and \<open>r\<close> is what follows its end.\<close>

inductive in_comment :: "string \<Rightarrow> string \<Rightarrow> bool" where
  close: "in_comment (''*/'' @ r) r"
| nested: "in_comment s m \<Longrightarrow> in_comment m r \<Longrightarrow> in_comment (''/*'' @ s) r"
| other: "(\<nexists>t. c # s = ''*/'' @ t) \<Longrightarrow> (\<nexists>t. c # s = ''/*'' @ t) \<Longrightarrow> in_comment s r \<Longrightarrow> in_comment (c # s) r"

text \<open>\<open>in_quotes q s r\<close>: text in the quotes \<open>q\<close> is open at the beginning of \<open>s\<close>, and \<open>r\<close> is what follows its end.\<close>

abbreviation backslash :: byte where
  "backslash \<equiv> CHR 0x5C"

inductive in_quotes :: "byte \<Rightarrow> string \<Rightarrow> string \<Rightarrow> bool" for q :: byte where
  close: "r = [] \<or> hd r \<noteq> q \<Longrightarrow> in_quotes q (q # r) r"
| doubled: "in_quotes q s r \<Longrightarrow> in_quotes q (q # q # s) r"
| escaped: "in_quotes q s r \<Longrightarrow> in_quotes q (backslash # c # s) r"
| other: "c \<noteq> q \<Longrightarrow> c \<noteq> backslash \<Longrightarrow> in_quotes q s r \<Longrightarrow> in_quotes q (c # s) r"

text \<open>\<open>first_after p s r\<close>: \<open>r\<close> is what follows the first occurrence of \<open>p\<close> in \<open>s\<close>.\<close>

definition first_after :: "string \<Rightarrow> string \<Rightarrow> string \<Rightarrow> bool" where
  "first_after p s r \<longleftrightarrow>
     (\<exists>pre. s = pre @ p @ r \<and> (\<forall>pre' r'. s = pre' @ p @ r' \<longrightarrow> length pre \<le> length pre'))"

abbreviation word_byte :: "byte \<Rightarrow> bool" where
  "word_byte b \<equiv> is_ascii_alphanumeric b \<or> b = CHR ''_''"

text \<open>A dollar sign that opens a quoted text with a tag.\<close>

definition opens_dollar :: "string \<Rightarrow> string \<Rightarrow> string \<Rightarrow> bool" where
  "opens_dollar s tg s' \<longleftrightarrow> s = tg @ CHR ''$'' # s' \<and> (\<forall>c \<in> set tg. word_byte c)"

inductive lexes :: "string \<Rightarrow> token list \<Rightarrow> bool" where
  finish: "lexes [] []"
| white: "is_ascii_whitespace b \<Longrightarrow> lexes s ts \<Longrightarrow> lexes (b # s) ts"
| line: "CHR 0x0A \<notin> set c \<Longrightarrow> r = [] \<or> hd r = CHR 0x0A \<Longrightarrow> lexes r ts \<Longrightarrow> lexes (''--'' @ c @ r) ts"
| block: "in_comment s r \<Longrightarrow> lexes r ts \<Longrightarrow> lexes (''/*'' @ s) ts"
| semi: "lexes s ts \<Longrightarrow> lexes (CHR '';'' # s) (Semi # ts)"
| quote: "q = CHR 0x27 \<or> q = CHR 0x22 \<Longrightarrow> in_quotes q s r \<Longrightarrow> lexes r ts \<Longrightarrow> lexes (q # s) (Quoted # ts)"
| dollar: "opens_dollar s tg s' \<Longrightarrow> first_after (CHR ''$'' # tg @ [CHR ''$'']) s' r \<Longrightarrow> lexes r ts \<Longrightarrow>
    lexes (CHR ''$'' # s) (Quoted # ts)"
| word: "is_ascii_alphabetic b \<Longrightarrow> \<forall>c \<in> set w. word_byte c \<Longrightarrow> r = [] \<or> \<not> word_byte (hd r) \<Longrightarrow> lexes r ts \<Longrightarrow>
    lexes (b # w @ r) (Word (to_ascii_uppercase (b # w)) # ts)"
| symbol: "\<not> is_ascii_whitespace b \<Longrightarrow> \<not> is_ascii_alphabetic b \<Longrightarrow> b \<notin> {CHR '';'', CHR 0x27, CHR 0x22} \<Longrightarrow>
    (\<nexists>t. b # s = ''--'' @ t) \<Longrightarrow> (\<nexists>t. b # s = ''/*'' @ t) \<Longrightarrow> (b = CHR ''$'' \<Longrightarrow> \<nexists>tg s'. opens_dollar s tg s') \<Longrightarrow>
    lexes s ts \<Longrightarrow> lexes (b # s) (Symbol b # ts)"

text \<open>The first words that decide the class, and the words that must not occur with them.\<close>

definition statement_kinds :: "(string list \<times> string list \<times> StatementClass) list" where
  "statement_kinds =
     [([''BEGIN'', ''START''], [], Begin),
      ([''COMMIT'', ''END''], [''PREPARED'', ''CHAIN''], Commit),
      ([''ROLLBACK'', ''ABORT''], [''TO'', ''PREPARED'', ''CHAIN''], Rollback),
      ([''SELECT'', ''VALUES'', ''TABLE''], [], Select),
      ([''INSERT''], [], Insert), ([''UPDATE''], [], Update), ([''DELETE''], [], Delete), ([''MERGE''], [], Merge),
      ([''CREATE'', ''ALTER'', ''DROP'', ''TRUNCATE''], [], Ddl)]"

text \<open>A text is of a class if it is one statement, followed by at most one semicolon, with the right words.\<close>

definition has_class :: "string \<Rightarrow> StatementClass \<Rightarrow> bool" where
  "has_class sql cl \<longleftrightarrow>
     (\<exists>ts first ws firsts excluded. lexes sql ts \<and> (\<forall>pre post. ts = pre @ Semi # post \<longrightarrow> post = []) \<and>
        words_of ts = first # ws \<and> (firsts, excluded, cl) \<in> set statement_kinds \<and>
        first \<in> set firsts \<and> (\<forall>w \<in> set (first # ws). w \<notin> set excluded))"

section \<open>The scanners decide the regions\<close>

lemma starts_with_iff: "starts_with s p \<longleftrightarrow> (\<exists>t. s = p @ t)"
  by (metis starts_with_def append_eq_conv_conj append_take_drop_id)

lemma in_comment_skip: "in_comment s r \<Longrightarrow> skip_block (Suc d) s = skip_block d r"
proof (induction arbitrary: d rule: in_comment.induct)
  case (close r)
  then show ?case by (simp add: skip_block.simps [of "Suc d"])
next
  case (nested s m r)
  then show ?case by (simp add: skip_block.simps [of "Suc d" "CHR ''/'' # _"])
next
  case (other c s r)
  then have "starts_with (c # s) ''/*'' = False" "starts_with (c # s) ''*/'' = False" unfolding starts_with_iff by blast+
  with other.IH show ?case by (simp only: skip_block.simps [of "Suc d" "c # s"]) simp
qed

lemma skip_in_comments: "skip_block d s = Some r \<Longrightarrow> (in_comment ^^ d) s r"
proof (induction d s rule: skip_block.induct)
  case (1 d s)
  show ?case
  proof (cases "d = 0 \<or> s = []")
    case True
    with "1.prems" show ?thesis by (auto simp: skip_block.simps [of d s] split: if_splits)
  next
    case False
    then obtain e c s' where d: "d = Suc e" and s: "s = c # s'" by (metis not0_implies_Suc list.exhaust)
    consider (nest) t where "s = ''/*'' @ t" | (close) t where "s = ''*/'' @ t" "\<not> starts_with s ''/*''"
      | (other) "\<not> starts_with s ''/*''" "\<not> starts_with s ''*/''"
      unfolding starts_with_iff by blast
    then show ?thesis
    proof cases
      case nest
      then have "skip_block (Suc d) t = Some r"
        using "1.prems" False by (simp add: skip_block.simps [of d "CHR ''/'' # CHR ''*'' # t"])
      with "1.IH"(1) False nest d have "(in_comment ^^ Suc (Suc e)) t r" by (simp del: relpowp.simps)
      then obtain m m' where "in_comment t m" "in_comment m m'" "(in_comment ^^ e) m' r"
        by (metis relpowp_Suc_D2)
      with in_comment.nested [of t m m'] nest d show ?thesis by (metis relpowp_Suc_I2)
    next
      case close
      then have "skip_block e t = Some r"
        using "1.prems" False d by (simp add: skip_block.simps [of "Suc e" "CHR ''*'' # CHR ''/'' # t"])
      with "1.IH"(2) False close d have "(in_comment ^^ e) t r" by simp
      with in_comment.close [of t] close(1) d show ?thesis by (metis relpowp_Suc_I2)
    next
      case other
      then have "skip_block d s' = Some r"
        using "1.prems" False s by (simp add: skip_block.simps [of d "c # s'"] del: starts_with_Cons)
      with "1.IH"(3) False other d s have "(in_comment ^^ Suc e) s' r" by (simp del: relpowp.simps starts_with_Cons)
      then obtain m where "in_comment s' m" "(in_comment ^^ e) m r" by (metis relpowp_Suc_D2)
      moreover from this(1) other have "in_comment s m" unfolding s starts_with_iff by (intro in_comment.other) auto
      ultimately show ?thesis using d by (metis relpowp_Suc_I2)
    qed
  qed
qed

lemma skip_block_iff: "skip_block 1 s = Some r \<longleftrightarrow> in_comment s r"
proof
  assume "skip_block 1 s = Some r"
  then have "(in_comment ^^ 1) s r" by (rule skip_in_comments)
  then show "in_comment s r" by (simp only: relpowp_1)
next
  assume "in_comment s r"
  from in_comment_skip [OF this, of 0] show "skip_block 1 s = Some r" by (simp add: skip_block.simps [of 0])
qed

lemma skip_quoted_iff:
  assumes "q \<noteq> backslash"
  shows "skip_quoted q s = Some r \<longleftrightarrow> in_quotes q s r"
proof
  assume "in_quotes q s r"
  then show "skip_quoted q s = Some r"
    using assms by (induction rule: in_quotes.induct) (auto split: list.split)
next
  assume "skip_quoted q s = Some r"
  then show "in_quotes q s r"
    using assms
  proof (induction q s rule: skip_quoted.induct)
    case (2 q c s)
    show ?case
    proof (cases "c = backslash")
      case True
      with 2 show ?thesis by (cases s) (auto intro: in_quotes.escaped)
    next
      case c: False
      show ?thesis
      proof (cases "c = q")
        case True
        with 2 c show ?thesis by (cases s) (auto intro: in_quotes.close in_quotes.doubled split: if_splits)
      next
        case False
        with 2 c show ?thesis by (auto intro: in_quotes.other)
      qed
    qed
  qed simp
qed

lemma after_sub_iff:
  assumes "p \<noteq> []"
  shows "after_sub p s = Some r \<longleftrightarrow> first_after p s r"
proof (induction s)
  case Nil
  with assms show ?case by (simp add: first_after_def)
next
  case (Cons c s)
  show ?case
  proof (cases "starts_with (c # s) p")
    case True
    then obtain t where t: "c # s = p @ t" unfolding starts_with_iff by blast
    then have "first_after p (c # s) r \<longleftrightarrow> r = t"
      unfolding first_after_def by (metis append_Nil append_same_eq le_zero_eq length_0_conv list.size(3) zero_le same_append_eq)
    moreover have "after_sub p (c # s) = Some (drop (length p) (c # s))" using True by (simp only: after_sub.simps if_True)
    ultimately show ?thesis unfolding t by auto
  next
    case False
    then have no: "\<And>t. c # s \<noteq> p @ t" unfolding starts_with_iff by blast
    have "first_after p (c # s) r \<longleftrightarrow> first_after p s r"
    proof
      assume "first_after p (c # s) r"
      then obtain pre where pre: "c # s = pre @ p @ r" "\<And>pre' r'. c # s = pre' @ p @ r' \<Longrightarrow> length pre \<le> length pre'"
        unfolding first_after_def by blast
      with no obtain pre1 where "pre = c # pre1" "s = pre1 @ p @ r" by (cases pre) auto
      moreover have "length pre1 \<le> length pre'" if "s = pre' @ p @ r'" for pre' r'
        using pre(2) [of "c # pre'" r'] that \<open>pre = c # pre1\<close> by simp
      ultimately show "first_after p s r" unfolding first_after_def by blast
    next
      assume "first_after p s r"
      then obtain pre where pre: "s = pre @ p @ r" "\<And>pre' r'. s = pre' @ p @ r' \<Longrightarrow> length pre \<le> length pre'"
        unfolding first_after_def by blast
      have "length (c # pre) \<le> length pre'" if "c # s = pre' @ p @ r'" for pre' r'
        using that no pre(2) by (cases pre') auto
      with pre(1) show "first_after p (c # s) r" unfolding first_after_def by (intro exI [of _ "c # pre"]) auto
    qed
    with False Cons show ?thesis by simp
  qed
qed

lemma opens_dollar_iff:
  "opens_dollar s tg s' \<longleftrightarrow> tg = takeWhile is_word_char s \<and> dropWhile is_word_char s = CHR ''$'' # s'"
proof
  assume "opens_dollar s tg s'"
  then have "s = tg @ CHR ''$'' # s'" "\<forall>c \<in> set tg. is_word_char c" by (auto simp: opens_dollar_def is_word_char_def)
  then show "tg = takeWhile is_word_char s \<and> dropWhile is_word_char s = CHR ''$'' # s'"
    by (simp add: takeWhile_append dropWhile_append is_word_char_def ascii_defs)
next
  assume "tg = takeWhile is_word_char s \<and> dropWhile is_word_char s = CHR ''$'' # s'"
  then show "opens_dollar s tg s'"
    unfolding opens_dollar_def by (metis is_word_char_def set_takeWhileD takeWhile_dropWhile_id)
qed

lemma scan_dollar_closed_iff:
  "scan_dollar s = Closed r \<longleftrightarrow>
     (\<exists>tg s'. opens_dollar s tg s' \<and> first_after (CHR ''$'' # tg @ [CHR ''$'']) s' r)"
  by (auto simp: scan_dollar_def opens_dollar_iff simp flip: after_sub_iff
      simp del: dropWhile_eq_Nil_conv split: list.splits option.splits)

lemma scan_dollar_none_iff: "scan_dollar s = NoQuote \<longleftrightarrow> (\<nexists>tg s'. opens_dollar s tg s')"
  by (auto simp: scan_dollar_def opens_dollar_iff simp del: dropWhile_eq_Nil_conv split: list.splits option.splits)

section \<open>The lexer decides the grammar\<close>

lemma take_word:
  "\<forall>c \<in> set w. word_byte c \<Longrightarrow> r = [] \<or> \<not> word_byte (hd r) \<Longrightarrow>
   takeWhile is_word_char (w @ r) = w \<and> dropWhile is_word_char (w @ r) = r"
  by (cases r) (auto simp: is_word_char_def takeWhile_append dropWhile_append)

lemma drop_line:
  "CHR 0x0A \<notin> set c \<Longrightarrow> r = [] \<or> hd r = CHR 0x0A \<Longrightarrow> dropWhile (\<lambda>c. c \<noteq> CHR 0x0A) (c @ r) = r"
  by (cases r) (auto simp: dropWhile_append)

lemma alphabetic_not_special:
  "is_ascii_alphabetic b \<Longrightarrow> \<not> is_ascii_whitespace b \<and>
   b \<notin> {CHR ''-'', CHR ''/'', CHR '';'', CHR 0x27, CHR 0x22, CHR ''$''}"
  by (auto simp: ascii_defs)

lemma lexes_lex: "lexes s ts \<Longrightarrow> lex s = Some ts"
proof (induction rule: lexes.induct)
  case (line c r ts)
  then show ?case by (simp add: is_ascii_whitespace_def drop_line)
next
  case (block s r ts)
  then have "skip_block 1 s = Some r" by (simp only: skip_block_iff)
  with block show ?case by (simp add: is_ascii_whitespace_def)
next
  case (quote q s r ts)
  then have "q \<noteq> backslash" by auto
  with quote.hyps(2) have "skip_quoted q s = Some r" by (rule skip_quoted_iff [THEN iffD2, rotated])
  with quote.hyps(1) quote.IH show ?case by (elim disjE) (simp_all add: is_ascii_whitespace_def)
next
  case (dollar s tg s' r ts)
  then have "scan_dollar s = Closed r" by (auto simp: scan_dollar_closed_iff)
  with dollar show ?case by (simp add: is_ascii_whitespace_def)
next
  case (word b w r ts)
  with take_word [of w r] alphabetic_not_special [of b] show ?case by simp
next
  case (symbol b s ts)
  then have "starts_with (b # s) ''--'' = False" "starts_with (b # s) ''/*'' = False" unfolding starts_with_iff by blast+
  moreover have "(if b = CHR ''$'' then scan_dollar s else NoQuote) = NoQuote" using symbol by (simp add: scan_dollar_none_iff)
  ultimately show ?case using symbol by (simp only: lex.simps) simp
qed (simp_all add: is_ascii_whitespace_def)

lemma line_comment_parts:
  "\<exists>c. s = c @ dropWhile (\<lambda>c. c \<noteq> CHR 0x0A) s \<and> CHR 0x0A \<notin> set c"
  by (intro exI [of _ "takeWhile (\<lambda>c. c \<noteq> CHR 0x0A) s"]) (auto dest: set_takeWhileD)

text \<open>An element of the text: what is neither white space nor a comment.\<close>

lemma element_lexes:
  assumes shape: "\<not> is_ascii_whitespace b" "starts_with (b # s) ''--'' = False" "starts_with (b # s) ''/*'' = False"
    and lx: "lex (b # s) = Some ts"
    and IH: "\<And>r ts. length r \<le> length s \<Longrightarrow> lex r = Some ts \<Longrightarrow> lexes r ts"
  shows "lexes (b # s) ts"
proof -
  note eq = lx [unfolded lex.simps(2), simplified shape if_False]
  consider (semi) "b = CHR '';''" | (quote) "b = CHR 0x27 \<or> b = CHR 0x22"
    | (dollar) r where "b = CHR ''$''" "scan_dollar s = Closed r"
    | (word) "is_ascii_alphabetic b"
    | (symbol) "b \<notin> {CHR '';'', CHR 0x27, CHR 0x22}" "\<not> is_ascii_alphabetic b" "b = CHR ''$'' \<Longrightarrow> scan_dollar s = NoQuote"
    using eq by (cases "scan_dollar s") (auto split: if_splits)
  then show ?thesis
  proof cases
    case semi
    with eq IH [of s] show ?thesis by (auto intro: lexes.semi)
  next
    case quote
    then obtain r ts' where r: "skip_quoted b s = Some r" and ts: "lex r = Some ts'" "ts = Quoted # ts'"
      using eq by (auto split: option.splits)
    with quote have "in_quotes b s r" by (auto simp: skip_quoted_iff)
    with quote ts IH [of r ts'] skip_quoted_length [OF r] show ?thesis by (auto intro: lexes.quote)
  next
    case (dollar r)
    then obtain ts' where ts: "lex r = Some ts'" "ts = Quoted # ts'" using eq by auto
    from dollar(2) obtain tg s' where "opens_dollar s tg s'" "first_after (CHR ''$'' # tg @ [CHR ''$'']) s' r"
      unfolding scan_dollar_closed_iff by blast
    with dollar(1) ts IH [of r ts'] scan_dollar_length [OF dollar(2)] show ?thesis by (auto intro: lexes.dollar)
  next
    case word
    let ?w = "takeWhile is_word_char s" and ?r = "dropWhile is_word_char s"
    obtain ts' where ts: "lex ?r = Some ts'" "ts = Word (to_ascii_uppercase (b # ?w)) # ts'"
      using eq word alphabetic_not_special [OF word] by auto
    have "\<forall>c \<in> set ?w. word_byte c" "?r = [] \<or> \<not> word_byte (hd ?r)"
      using hd_dropWhile [of is_word_char s] by (auto simp: is_word_char_def dest: set_takeWhileD)
    from lexes.word [OF word this IH [OF length_dropWhile_le ts(1)]] ts(2) show ?thesis by simp
  next
    case symbol
    then obtain ts' where "lex s = Some ts'" "ts = Symbol b # ts'" using eq by (auto split: if_splits)
    with shape symbol IH [of s ts'] show ?thesis
      by (auto simp: starts_with_iff scan_dollar_none_iff simp del: starts_with_Cons intro!: lexes.symbol)
  qed
qed

lemma lex_lexes: "lex s = Some ts \<Longrightarrow> lexes s ts"
proof (induction s arbitrary: ts rule: length_induct)
  case (1 u)
  show ?case
  proof (cases u)
    case Nil
    with "1.prems" show ?thesis by (simp add: lexes.finish)
  next
    case (Cons b s)
    have IH: "\<And>r ts. length r \<le> length s \<Longrightarrow> lex r = Some ts \<Longrightarrow> lexes r ts" and lx: "lex (b # s) = Some ts"
      using 1 Cons by (auto simp: less_Suc_eq_le)
    consider (white) "is_ascii_whitespace b" | (line) t where "b # s = ''--'' @ t" | (block) t where "b # s = ''/*'' @ t"
      | (elem) "\<not> is_ascii_whitespace b" "starts_with (b # s) ''--'' = False" "starts_with (b # s) ''/*'' = False"
      unfolding starts_with_iff by blast
    then show ?thesis
    proof cases
      case white
      with IH [of s] lx Cons lexes.white show ?thesis by simp
    next
      case (line t)
      let ?r = "dropWhile (\<lambda>c. c \<noteq> CHR 0x0A) t"
      obtain c where c: "t = c @ ?r" "CHR 0x0A \<notin> set c" using line_comment_parts [of t] by blast
      have "lexes ?r ts"
        using line lx by (intro IH) (auto simp: is_ascii_whitespace_def le_SucI length_dropWhile_le)
      with lexes.line [of c ?r ts] c hd_dropWhile [of "\<lambda>c. c \<noteq> CHR 0x0A" t] line Cons show ?thesis by auto
    next
      case (block t)
      then obtain r where r: "skip_block 1 t = Some r" "lex r = Some ts"
        using lx by (auto simp: is_ascii_whitespace_def split: option.splits)
      moreover have "length r \<le> length s" using skip_block_length [OF r(1)] block by auto
      ultimately show ?thesis using IH [of r ts] lexes.block [of t r ts] block Cons by (simp only: skip_block_iff)
    next
      case elem
      from element_lexes [OF elem lx IH] Cons show ?thesis by simp
    qed
  qed
qed

lemma lexes_iff: "lexes s ts \<longleftrightarrow> lex s = Some ts"
  by (blast intro: lexes_lex lex_lexes)

section \<open>Statements and words\<close>

lemma single_statement_iff: "single_statement ts \<longleftrightarrow> (\<forall>pre post. ts = pre @ Semi # post \<longrightarrow> post = [])"
proof
  assume single: "single_statement ts"
  show "\<forall>pre post. ts = pre @ Semi # post \<longrightarrow> post = []"
  proof (intro allI impI)
    fix pre post
    assume "ts = pre @ Semi # post"
    with single show "post = []" by (cases post) (auto simp: not_single_statement)
  qed
next
  assume last: "\<forall>pre post. ts = pre @ Semi # post \<longrightarrow> post = []"
  show "single_statement ts"
  proof (cases "dropWhile (\<lambda>t. t \<noteq> Semi) ts")
    case (Cons t post)
    then have "t = Semi" using hd_dropWhile [of "\<lambda>t. t \<noteq> Semi" ts] by auto
    with Cons have "ts = takeWhile (\<lambda>t. t \<noteq> Semi) ts @ Semi # post"
      by (metis takeWhile_dropWhile_id)
    with last have "post = []" by blast
    with Cons \<open>t = Semi\<close> show ?thesis by (simp add: single_statement_def)
  qed (simp add: single_statement_def)
qed

lemma class_of_words_iff:
  assumes "cl \<noteq> Other"
  shows "class_of_words words = cl \<longleftrightarrow>
    (\<exists>first ws firsts excluded. words = first # ws \<and> (firsts, excluded, cl) \<in> set statement_kinds \<and>
       first \<in> set firsts \<and> (\<forall>w \<in> set (first # ws). w \<notin> set excluded))"
proof (cases words)
  case Nil
  with assms show ?thesis by (simp add: class_of_words_def)
next
  case (Cons first ws)
  show ?thesis
    using assms unfolding Cons class_of_words_def statement_kinds_def
    by (cases cl) (auto simp: list_ex_iff)
qed

lemma kinds_not_other: "(firsts, excluded, cl) \<in> set statement_kinds \<Longrightarrow> cl \<noteq> Other"
  by (auto simp: statement_kinds_def)

lemma has_class_iff: "has_class sql cl \<longleftrightarrow> cl \<noteq> Other \<and> classify sql = cl"
proof (cases "cl = Other")
  case True
  then show ?thesis using kinds_not_other by (auto simp: has_class_def)
next
  case False
  then have "classify sql = cl \<longleftrightarrow> (\<exists>ts. lexes sql ts \<and> single_statement ts \<and> class_of_words (words_of ts) = cl)"
    by (auto simp: classify_def scan_lex lexes_iff split: option.splits)
  also have "\<dots> \<longleftrightarrow> has_class sql cl"
    unfolding has_class_def single_statement_iff class_of_words_iff [OF False] by blast
  finally show ?thesis using False by blast
qed

section \<open>The property\<close>

text \<open>
  C22: the classifier decides the grammar. A text gets a class other than \<open>Other\<close> exactly if it is one
  statement of the grammar, at most followed by one semicolon and by layout, whose first word
  belongs to the class and none of whose words outside comments and quotes is excluded for that
  class; it gets \<open>Other\<close> exactly if it is of no class of the grammar: for an unknown first word, an
  excluded word, no word at all, anything after the first semicolon, or a comment, quoted or
  dollar-quoted text that is not closed.
\<close>

theorem classify_decides_grammar:
  "classify sql = cl \<longleftrightarrow> (if cl = Other then \<nexists>cl'. has_class sql cl' else has_class sql cl)"
  by (auto simp: has_class_iff)

end
