(* ===== verification/Vocabulary.thy ===== *)
theory Vocabulary
  imports Conn_Props
begin

text \<open>
  The event names of scenarios and of the observer. \<^verbatim>\<open>Scenario::validate\<close> (\<^verbatim>\<open>pgfault-scenario\<close>) has a list of
  known events and a table of the events of the client's direction; \<^verbatim>\<open>ConnectionState\<close> (\<^verbatim>\<open>pgfault-state\<close>)
  emits events. The two crates agree: the known events are exactly those that some session makes the
  observer emit, and the table names exactly those it emits on messages of the client.
\<close>

section \<open>Events that some session emits\<close>

definition from_client :: "input \<Rightarrow> bool" where
  "from_client i = (case i of FromServer _ \<Rightarrow> False | _ \<Rightarrow> True)"

text \<open>A session of a fresh connection in which an input of the given kind emits an event of the name.\<close>

definition emittable :: "(input \<Rightarrow> bool) \<Rightarrow> string \<Rightarrow> bool" where
  "emittable P n \<longleftrightarrow>
     (\<exists>sha is i cid meta. P i \<and>
        n \<in> ev_event ` set (fst (cs_step sha i (snd (cs_run sha is (ConnectionState_new cid meta))))))"

lemma emittableI:
  "P i \<Longrightarrow> n \<in> set (map ev_event (fst (cs_step sha i (snd (cs_run sha is (ConnectionState_new cid meta)))))) \<Longrightarrow>
   emittable P n"
  unfolding emittable_def set_map by blast

lemma frontend_names_upstream: "n \<in> set (fst (frontend_update sha f s)) \<Longrightarrow> is_upstream_event n"
  by (auto simp: frontend_update_def on_execute_def requested_names_def is_upstream_event_def Let_def
      split: if_splits StatementClass.splits)

lemma client_step_upstream:
  assumes "from_client i" and "n \<in> ev_event ` set (fst (cs_step sha i s))"
  shows "is_upstream_event n"
proof (cases i)
  case (FromClient f)
  have "ev_event ` set (fst (frontend sha f s)) = set (fst (frontend_update sha f s))"
    by (simp only: names_frontend [symmetric] set_map)
  with FromClient assms(2) frontend_names_upstream show ?thesis by (simp add: cs_step_simps)
next
  case Forwarded
  with assms(2) show ?thesis by (auto simp: cs_step_simps is_upstream_event_def)
qed (use assms(1) in \<open>simp add: from_client_def\<close>)

text \<open>A connection that has sent one simple query, and the same after CommandComplete.\<close>

abbreviation query :: "string \<Rightarrow> Frame" where
  "query sql \<equiv> frame (CHR ''Q'') (sql @ [NUL])"

abbreviation complete :: "string \<Rightarrow> Frame" where
  "complete t \<equiv> frame (CHR ''C'') (t @ [NUL])"

lemma cstr_query: "NUL \<notin> set sql \<Longrightarrow> cstr (sql @ [NUL]) = Some (sql, [])"
  using cstr_append [of sql "[]"] by simp

lemma query_update:
  assumes "NUL \<notin> set sql"
  shows "fst (frontend_update (\<lambda>x. x) (query sql) s) =
    [''query.received'', ''statement.execution_started''] @ requested_names (classify sql)"
  using assms
  by (simp add: frontend_update_def on_execute_def executed_statement_def cstr_query Statement_new_def Let_def)

lemma session_of_query:
  assumes "NUL \<notin> set sql"
  shows "\<exists>c. cycles (snd (frontend (\<lambda>x. x) (query sql) (ConnectionState_new 1 example_meta))) = [c] \<and>
     c_statements c = [Statement_new (\<lambda>x. x) sql] \<and> \<not> c_error c"
    "tx_state (snd (frontend (\<lambda>x. x) (query sql) (ConnectionState_new 1 example_meta))) = Idle"
    "reliable (snd (frontend (\<lambda>x. x) (query sql) (ConnectionState_new 1 example_meta)))"
  using assms
  by (simp_all add: snd_frontend frontend_update_def on_execute_def executed_statement_def cstr_query
      forget_unnamed_def cycle_def allocate_epoch_def ConnectionState_new_def Cycle_default_def Let_def)

lemma completed_after_query:
  assumes "NUL \<notin> set sql" and "NUL \<notin> set t" and "list_all is_ascii t" and "t \<noteq> []"
    and "n = (case classify sql of
       Commit \<Rightarrow> ''transaction.commit.completed'' | Rollback \<Rightarrow> ''transaction.rollback.completed''
     | _ \<Rightarrow> ''transaction.implicit.completed'')"
    and "classify sql \<noteq> Other" and "classify sql = Commit \<Longrightarrow> t = ''COMMIT''" "classify sql = Rollback \<Longrightarrow> t = ''ROLLBACK''"
  shows "emittable (\<lambda>_. True) n"
proof -
  let ?s = "snd (frontend (\<lambda>x. x) (query sql) (ConnectionState_new 1 example_meta))"
  let ?s1 = "snd (backend (complete t) ?s)"
  from session_of_query [OF assms(1)] obtain c where
    c: "cycles ?s = [c]" "c_statements c = [Statement_new (\<lambda>x. x) sql]" "\<not> c_error c" "tx_state ?s = Idle" "reliable ?s" by blast
  have t: "text_of (t @ [NUL]) = Some t" using text_of_append [of t "[]"] assms(2,3) by simp
  then have s1: "cycles ?s1 = [complete_cycle t c]" "tx_state ?s1 = Idle" "reliable ?s1"
    using c by (simp_all add: backend_def on_command_complete_def Let_def)
  have "completed_event Idle ?s1 = Some n"
    using s1 c assms(4-8) by (auto simp: completed_event_def event_statement_def Statement_new_def Let_def split: StatementClass.splits)
  then have "n \<in> set (backend_names ready_idle ?s1)"
    by (subst backend_names_completion) (auto dest: completed_event_range)
  then have "n \<in> set (map ev_event (fst (cs_step (\<lambda>x. x) (FromServer ready_idle)
      (snd (cs_run (\<lambda>x. x) [FromClient (query sql), FromServer (complete t)] (ConnectionState_new 1 example_meta))))))"
    by (simp only: cs_run.simps cs_step_simps Let_def names_backend snd_conv)
  then show ?thesis by (rule emittableI [rotated]) simp
qed

lemma classify_BEGIN: "classify ''BEGIN'' = Begin"
  by code_simp

lemma classify_ROLLBACK: "classify ''ROLLBACK'' = Rollback"
  by code_simp

lemma classify_SELECT: "classify ''SELECT'' = Select"
  by code_simp

lemma emittable_client:
  assumes "n \<in> set (fst (frontend_update sha f (ConnectionState_new 1 example_meta)))"
  shows "emittable from_client n"
proof (rule emittableI)
  show "from_client (FromClient f)" by (simp add: from_client_def)
  show "n \<in> set (map ev_event (fst (cs_step sha (FromClient f) (snd (cs_run sha [] (ConnectionState_new 1 example_meta))))))"
    using assms by (simp only: cs_step_simps cs_run.simps snd_conv names_frontend)
qed

lemma emittable_query:
  assumes "NUL \<notin> set sql" and "n \<in> set ([''query.received'', ''statement.execution_started''] @ requested_names (classify sql))"
  shows "emittable from_client n"
  using assms emittable_client [of n "\<lambda>x. x" "query sql"]
  by (simp add: query_update)

lemma emittable_server:
  assumes "n \<in> set (backend_names f (ConnectionState_new 1 example_meta))"
  shows "emittable (\<lambda>_. True) n"
proof (rule emittableI)
  show "n \<in> set (map ev_event (fst (cs_step (\<lambda>x. x) (FromServer f) (snd (cs_run (\<lambda>x. x) [] (ConnectionState_new 1 example_meta))))))"
    using assms by (simp only: cs_step_simps cs_run.simps snd_conv names_backend)
qed simp

lemma emittable_mono: "emittable P n \<Longrightarrow> (\<And>i. P i \<Longrightarrow> Q i) \<Longrightarrow> emittable Q n"
  unfolding emittable_def by blast

lemma upstream_emittable:
  assumes "is_upstream_event n"
  shows "emittable from_client n"
proof -
  have fwd: "emittable from_client ''query.forwarded''"
    unfolding emittable_def
    by (intro exI [of _ "\<lambda>x. x"] exI [of _ "[]"] exI [of _ Forwarded]) (simp add: from_client_def cs_step_simps Let_def)
  have q: "NUL \<notin> set ''BEGIN''" "NUL \<notin> set ''COMMIT''" "NUL \<notin> set ''ROLLBACK''" by simp_all
  note queries = emittable_query [OF q(1), unfolded classify_BEGIN] emittable_query [OF q(2), unfolded classify_COMMIT]
    emittable_query [OF q(3), unfolded classify_ROLLBACK]
  have ext: "emittable from_client ''frontend.execute''" "emittable from_client ''frontend.sync''"
    by (rule emittable_client [of _ "\<lambda>x. x" "frame (CHR ''E'') []"], simp add: frontend_update_def on_execute_def Let_def)
      (rule emittable_client [of _ "\<lambda>x. x" "frame (CHR ''S'') []"], simp add: frontend_update_def Let_def)
  from assms fwd ext queries show ?thesis
    by (simp add: is_upstream_event_def requested_names_def) (elim disjE; simp)
qed

lemma known_emittable:
  assumes "n \<in> set EVENTS"
  shows "emittable (\<lambda>_. True) n"
proof (cases "is_upstream_event n")
  case True
  from upstream_emittable [OF this] show ?thesis by (rule emittable_mono) simp
next
  case False
  have q: "NUL \<notin> set ''COMMIT''" "NUL \<notin> set ''ROLLBACK''" "NUL \<notin> set ''SELECT''" by simp_all
  have a: "list_all is_ascii ''COMMIT''" "list_all is_ascii ''ROLLBACK''" "list_all is_ascii ''SELECT''"
    by (simp_all add: is_ascii_def)
  note fin = completed_after_query [OF q(1,1) a(1), unfolded classify_COMMIT, simplified]
    completed_after_query [OF q(2,2) a(2), unfolded classify_ROLLBACK, simplified]
    completed_after_query [OF q(3,3) a(3), unfolded classify_SELECT, simplified]
  have other: "emittable (\<lambda>_. True) m" if "m \<in> set (backend_names (frame t b) (ConnectionState_new 1 example_meta))" for m t b
    by (rule emittable_server [OF that])
  note frames = other [of _ "CHR ''T''" "[]"] other [of _ "CHR ''D''" "[]"] other [of _ "CHR ''C''" "[]"]
    other [of _ "CHR ''E''" "[]"] other [of _ "CHR ''Z''" "''E''"]
  from False assms fin frames show ?thesis
    by (simp add: EVENTS_def is_upstream_event_def backend_names_def ready_status_def ready_names_def ConnectionState_new_def)
      (elim disjE; simp)
qed

lemma emittable_iff:
  "emittable (\<lambda>_. True) n \<longleftrightarrow> n \<in> set EVENTS"
  "emittable from_client n \<longleftrightarrow> is_upstream_event n"
proof -
  have "n \<in> set EVENTS" if "n \<in> ev_event ` set (fst (cs_step sha i s))" for sha i s
    using that cs_step_names_EVENTS [of sha i s] by (auto simp: list_all_iff)
  then show "emittable (\<lambda>_. True) n \<longleftrightarrow> n \<in> set EVENTS"
    using known_emittable by (auto simp: emittable_def)
  show "emittable from_client n \<longleftrightarrow> is_upstream_event n"
    using upstream_emittable client_step_upstream unfolding emittable_def by blast
qed

section \<open>Properties\<close>

text \<open>
  C28: what \<^verbatim>\<open>Scenario::validate\<close> accepts, in terms of the observer. A scenario is accepted exactly if its
  version is 1, its name is not blank, its event is one that some session of a connection can emit, its
  occurrence, row and connection ordinal are not 0, it has an action, a truncation is on
  \<^verbatim>\<open>result.started\<close>, and a delay parses, is at most 24 hours (in nanoseconds) and runs towards the server
  exactly if the event can be emitted on a message of the client. The row filter is accepted on every
  event, although only \<^verbatim>\<open>result.row\<close> events have a row.
\<close>

theorem validate_accepts_observable:
  "validate parse_duration s = Inr () \<longleftrightarrow>
     sc_version s = 1 \<and> trim_start (sc_name s) \<noteq> [] \<and>
     emittable (\<lambda>_. True) (when_event (sc_when s)) \<and>
     when_occurrence (sc_when s) \<noteq> Some 0 \<and> when_row (sc_when s) \<noteq> Some 0 \<and>
     sel_connection_ordinal (sc_selector s) \<noteq> Some 0 \<and>
     (act_suppress (sc_action s) \<noteq> None \<or> act_disconnect (sc_action s) \<noteq> None \<or>
      act_delay (sc_action s) \<noteq> None \<or> act_truncate_result (sc_action s) \<noteq> None) \<and>
     (\<forall>d. act_delay (sc_action s) = Some d \<longrightarrow>
        (\<exists>t. parse_duration (del_duration d) = Inr t \<and> t \<le> 24 * 60 * 60 * 1000000000 \<and>
           (emittable from_client (when_event (sc_when s)) \<longleftrightarrow> del_direction d = ToUpstream))) \<and>
     (act_truncate_result (sc_action s) \<noteq> None \<longrightarrow> when_event (sc_when s) = ''result.started'')"
  unfolding emittable_iff validate_eq max_delay_def by simp

theorem validate_accepts_observable_witness:
  "validate (\<lambda>_. Inr 5) (ambiguous_commit\<lparr>sc_action := Action_default\<lparr>act_delay := Some \<lparr>del_direction = ToDownstream, del_duration = ''5ns''\<rparr>\<rparr>\<rparr>) = Inr () \<and>
   validate (\<lambda>_. Inr 5) (ambiguous_commit\<lparr>sc_action := Action_default\<lparr>act_delay := Some \<lparr>del_direction = ToUpstream, del_duration = ''5ns''\<rparr>\<rparr>\<rparr>) \<noteq> Inr ()"
proof -
  have "trim_start (sc_name ambiguous_commit) \<noteq> []" by code_simp
  then show ?thesis
    unfolding validate_accepts_observable emittable_iff
    by (simp add: ambiguous_commit_def EVENTS_def is_upstream_event_def Action_default_def Selector_default_def)
qed

end
