(* ===== verification/Conn_Front.thy ===== *)
theory Conn_Front
  imports Conn_Inv
begin

text \<open>
  What the oldest outstanding cycle of the observer decides (\<^verbatim>\<open>crates/pgfault-state/src/lib.rs\<close>): the
  transaction epoch, which is allocated for the cycle at the front of the queue, and the row numbers,
  which are counted in it.
\<close>

section \<open>The front of the queue\<close>

text \<open>A part of the oldest cycle. Messages of the client go to the back of the queue.\<close>

definition front_view :: "(Cycle \<Rightarrow> 'a) \<Rightarrow> ConnectionState \<Rightarrow> 'a option" where
  "front_view g s = map_option g (front_of (cycles s))"

lemma front_view_ext [simp]:
  "front_view g (s\<lparr>prepared := x\<rparr>) = front_view g s" "front_view g (s\<lparr>portals := x\<rparr>) = front_view g s"
  "front_view g (s\<lparr>confirmed_prepared := x\<rparr>) = front_view g s"
  "front_view g (s\<lparr>confirmed_portals := x\<rparr>) = front_view g s"
  "front_view g (s\<lparr>tx_epoch := n\<rparr>) = front_view g s" "front_view g (s\<lparr>counters := m\<rparr>) = front_view g s"
  "front_view g (s\<lparr>reliable := b\<rparr>) = front_view g s" "front_view g (s\<lparr>cs_startup := u\<rparr>) = front_view g s"
  "front_view g (s\<lparr>tx_state := t\<rparr>) = front_view g s"
  by (simp_all add: front_view_def)

lemma front_view_Nil: "front_view g s \<noteq> None \<longleftrightarrow> cycles s \<noteq> []"
  by (cases "cycles s") (simp_all add: front_view_def)

lemma front_view_cycle [simp]: "cycles s \<noteq> [] \<Longrightarrow> front_view g (cycle b s) = front_view g s"
  by (simp add: front_view_def cycle_def front_append)

lemma front_view_on_back: "(\<And>c. g (f c) = g c) \<Longrightarrow> front_view g (on_back f s) = front_view g s"
  by (auto simp: front_view_def front_map_back split: list.split)

lemma front_view_on_front [simp]: "front_view g (on_front f s) = front_view (\<lambda>c. g (f c)) s"
  by (cases "cycles s") (simp_all add: front_view_def)

lemma finish_statement_fields [simp]:
  "c_epoch_allocated (finish_statement c) = c_epoch_allocated c" "c_rows (finish_statement c) = c_rows c"
  by (simp_all add: finish_statement_def split: list.split)

lemma complete_cycle_fields [simp]:
  "c_epoch_allocated (complete_cycle t c) = c_epoch_allocated c" "c_rows (complete_cycle t c) = 0"
  by (simp_all add: complete_cycle_def Let_def)

text \<open>What the messages of the client may change in a cycle.\<close>

definition client_blind :: "(Cycle \<Rightarrow> 'a) \<Rightarrow> bool" where
  "client_blind g \<longleftrightarrow> (\<forall>c x y. g (c\<lparr>c_mutations := x\<rparr>) = g c \<and> g (c\<lparr>c_sealed := y\<rparr>) = g c) \<and>
     (\<forall>c x n. g (c\<lparr>c_statements := x, c_executions := n\<rparr>) = g c)"

lemma front_view_frontend_update:
  assumes "client_blind g" and "cycles s \<noteq> []"
  shows "front_view g (snd (frontend_update sha f s)) = front_view g s"
  using assms
  by (simp add: client_defs client_blind_def push_mutation_def front_view_on_back split: option.split list.split)

lemma front_view_pop_mutation [simp]:
  "(\<And>c x. g (c\<lparr>c_mutations := x\<rparr>) = g c) \<Longrightarrow> front_view g (snd (pop_mutation s)) = front_view g s"
  by (simp add: pop_mutation_def split: option.split)

lemma front_view_on_ack:
  assumes "\<And>c x. g (c\<lparr>c_mutations := x\<rparr>) = g c"
  shows "front_view g (on_ack f s) = front_view g s"
  using front_view_pop_mutation [of g s, OF assms]
  by (auto simp: on_ack_def simp del: front_view_pop_mutation split: prod.splits option.splits Mutation.splits if_splits)

section \<open>Epochs\<close>

definition idle_ready :: "input \<Rightarrow> bool" where
  "idle_ready i = (case i of FromServer z \<Rightarrow> tag z = CHR ''Z'' \<and> body z = ''I'' | _ \<Rightarrow> False)"

lemma epoch_of_emit:
  "e \<in> set (fst (emit ns fr s)) \<Longrightarrow> ev_transaction_epoch e = tx_epoch s"
  by (drule emit_event) auto

lemma backend_epoch:
  "tx_epoch (snd (backend f s)) = tx_epoch s"
  "e \<in> set (fst (backend f s)) \<Longrightarrow> ev_transaction_epoch e = tx_epoch s"
proof -
  have ack: "tx_epoch (on_ack f s) = tx_epoch s"
    by (auto simp: on_ack_def pop_mutation_def split: prod.splits option.splits Mutation.splits)
  then show "tx_epoch (snd (backend f s)) = tx_epoch s"
    by (simp add: backend_def on_parameter_status_def on_data_row_def on_error_def on_ready_def
        on_command_complete_def on_portal_suspended_def finish_cycle_def Let_def del: emit.simps
        split: option.split)
  show "ev_transaction_epoch e = tx_epoch s" if "e \<in> set (fst (backend f s))"
    using that
    by (auto simp: backend_def on_data_row_def on_error_def on_ready_def on_command_complete_def Let_def
        simp del: emit.simps dest!: epoch_of_emit split: if_splits option.splits)
qed

lemma backend_tx_state:
  "tx_state (snd (backend f s)) =
     (if tag f = CHR ''Z'' then (case ready_status f of None \<Rightarrow> tx_state s | Some new \<Rightarrow> new) else tx_state s)"
  by (simp add: backend_def on_parameter_status_def on_data_row_def on_error_def on_ready_def
      on_command_complete_def on_portal_suspended_def finish_cycle_def Let_def del: emit.simps
      split: option.split)

text \<open>
  Work whose epoch is settled: a transaction is open, or the oldest cycle has been given its epoch.
\<close>

definition in_epoch :: "ConnectionState \<Rightarrow> bool" where
  "in_epoch s \<longleftrightarrow> tx_state s \<noteq> Idle \<or> front_view c_epoch_allocated s = Some True"

lemma allocate_in_epoch [simp]: "in_epoch s \<Longrightarrow> allocate_epoch f s = s"
  by (auto simp: in_epoch_def allocate_epoch_def front_view_def split: option.splits)

lemma in_epoch_frontend:
  assumes "in_epoch s"
  shows "in_epoch (snd (frontend sha f s))" "tx_epoch (snd (frontend sha f s)) = tx_epoch s"
    "e \<in> set (fst (frontend sha f s)) \<Longrightarrow> ev_transaction_epoch e = tx_epoch s"
proof -
  obtain ns s1 where u: "frontend_update sha f s = (ns, s1)" by fastforce
  have "in_epoch s1"
  proof (cases "tx_state s = Idle")
    case True
    with assms have "front_view c_epoch_allocated s = Some True" by (simp add: in_epoch_def)
    with front_view_Nil [of c_epoch_allocated s] front_view_frontend_update [of c_epoch_allocated s sha f] u show ?thesis
      by (simp add: in_epoch_def client_blind_def)
  next
    case False
    with frontend_update_fields(2) [of sha f s] u show ?thesis by (simp add: in_epoch_def)
  qed
  moreover have "tx_epoch s1 = tx_epoch s" using frontend_update_fields(3) [of sha f s] u by simp
  ultimately show "in_epoch (snd (frontend sha f s))" "tx_epoch (snd (frontend sha f s)) = tx_epoch s"
    "e \<in> set (fst (frontend sha f s)) \<Longrightarrow> ev_transaction_epoch e = tx_epoch s"
    by (simp_all add: frontend_def u epoch_of_emit) (simp add: in_epoch_def)
qed

lemma in_epoch_backend:
  assumes "in_epoch s" and "\<not> idle_ready (FromServer f)"
  shows "in_epoch (snd (backend f s))"
proof (cases "tag f = CHR ''Z''")
  case True
  show ?thesis
  proof (cases "ready_status f")
    case None
    with True assms(1) show ?thesis by (simp add: backend_def)
  next
    case (Some new)
    with True assms(2) ready_status_Idle [of f] have "new \<noteq> Idle" by (auto simp: idle_ready_def)
    with True Some backend_tx_state [of f s] show ?thesis by (simp add: in_epoch_def)
  qed
next
  case False
  then have "front_view c_epoch_allocated (snd (backend f s)) = front_view c_epoch_allocated s"
    by (simp add: backend_def on_parameter_status_def on_data_row_def on_error_def on_command_complete_def
        on_portal_suspended_def front_view_on_ack Let_def del: emit.simps split: option.split)
  with assms(1) False backend_tx_state [of f s] show ?thesis by (simp add: in_epoch_def)
qed

lemma cs_step_epoch:
  assumes "in_epoch s"
  shows "tx_epoch (snd (cs_step sha i s)) = tx_epoch s"
    "e \<in> set (fst (cs_step sha i s)) \<Longrightarrow> ev_transaction_epoch e = tx_epoch s"
    "\<not> idle_ready i \<Longrightarrow> in_epoch (snd (cs_step sha i s))"
proof -
  show "tx_epoch (snd (cs_step sha i s)) = tx_epoch s"
    using assms by (cases i) (simp_all add: cs_step_simps in_epoch_frontend backend_epoch del: emit.simps)
  show "ev_transaction_epoch e = tx_epoch s" if "e \<in> set (fst (cs_step sha i s))"
    using assms that
    by (cases i) (simp_all add: cs_step_simps in_epoch_frontend backend_epoch epoch_of_emit del: emit.simps)
  show "in_epoch (snd (cs_step sha i s))" if "\<not> idle_ready i"
    using assms that
    by (cases i) (simp_all add: cs_step_simps in_epoch_frontend in_epoch_backend in_epoch_def [of "s\<lparr>counters := _\<rparr>"]
        in_epoch_def [of s] del: emit.simps)
qed

lemma cs_run_epoch:
  assumes "in_epoch s" and "list_all (\<lambda>i. \<not> idle_ready i) is"
  shows "\<forall>e \<in> set (fst (cs_run sha (is @ [i]) s)). ev_transaction_epoch e = tx_epoch s"
  using assms
proof (induction "is" arbitrary: s)
  case Nil
  then show ?case by (simp only: append_Nil conn.run_single) (simp add: cs_step_epoch(2))
next
  case (Cons j "is")
  from Cons.prems cs_step_epoch [of s, where sha = sha and i = j]
  have "in_epoch (snd (cs_step sha j s))" "tx_epoch (snd (cs_step sha j s)) = tx_epoch s"
    "\<forall>e \<in> set (fst (cs_step sha j s)). ev_transaction_epoch e = tx_epoch s"
    by simp_all
  with Cons.IH [of "snd (cs_step sha j s)"] Cons.prems(2) show ?case
    by (simp only: append_Cons conn.run_Cons fst_conv set_append ball_Un) simp
qed

text \<open>
  The message that opens work in an idle session: a query while nothing is outstanding, or the first
  Execute of the only, unfinished cycle.
\<close>

definition opens_work :: "Frame \<Rightarrow> ConnectionState \<Rightarrow> bool" where
  "opens_work f s \<longleftrightarrow> tx_state s = Idle \<and>
     (tag f \<in> {CHR ''Q'', CHR ''E''} \<and> cycles s = [] \<or>
      tag f = CHR ''E'' \<and> (\<exists>c. cycles s = [c] \<and> \<not> c_sealed c \<and> \<not> c_epoch_allocated c))"

lemma opens_work_frontend:
  assumes "opens_work f s"
  shows "in_epoch (snd (frontend sha f s))" "tx_epoch (snd (frontend sha f s)) = tx_epoch s + 1"
    "e \<in> set (fst (frontend sha f s)) \<Longrightarrow> ev_transaction_epoch e = tx_epoch s + 1"
proof -
  obtain ns s1 where u: "frontend_update sha f s = (ns, s1)" by fastforce
  have tag: "tag f = CHR ''Q'' \<or> tag f = CHR ''E''" using assms by (auto simp: opens_work_def)
  have "\<exists>c. cycles s1 = [c] \<and> \<not> c_epoch_allocated c"
    using u assms
    by (auto simp: opens_work_def frontend_update_def on_execute_def cycle_def forget_unnamed_def on_back_def
        back_of_def Cycle_default_def Let_def)
  moreover have "tx_state s1 = Idle" "tx_epoch s1 = tx_epoch s"
    using frontend_update_fields(2,3) [of sha f s] u assms by (simp_all add: opens_work_def)
  ultimately have "tx_epoch (allocate_epoch f s1) = tx_epoch s + 1" "in_epoch (allocate_epoch f s1)"
    using tag by (auto simp: allocate_epoch_def in_epoch_def front_view_def)
  then show "in_epoch (snd (frontend sha f s))" "tx_epoch (snd (frontend sha f s)) = tx_epoch s + 1"
    "e \<in> set (fst (frontend sha f s)) \<Longrightarrow> ev_transaction_epoch e = tx_epoch s + 1"
    by (simp_all add: frontend_def u epoch_of_emit) (simp add: in_epoch_def)
qed

section \<open>Rows\<close>

definition is_row_input :: "input \<Rightarrow> bool" where
  "is_row_input i = (case i of FromServer f \<Rightarrow> tag f = CHR ''D'' | _ \<Rightarrow> False)"

abbreviation row_events :: "Event list \<Rightarrow> Event list" where
  "row_events \<equiv> filter (\<lambda>e. ev_event e = ''result.row'')"

lemma row_events_none: "''result.row'' \<notin> set (map ev_event es) \<Longrightarrow> row_events es = []"
  by (simp add: filter_empty_conv) (metis image_eqI)

lemma frontend_no_row: "''result.row'' \<notin> set (fst (frontend_update sha f s))"
  by (auto simp: frontend_update_def on_execute_def requested_names_def Let_def split: StatementClass.splits)

lemma row_events_step:
  assumes "front_of (cycles s) = Some c"
  shows "map (\<lambda>e. (ev_query_cycle e, ev_row_index e)) (row_events (fst (cs_step sha i s))) =
    (if is_row_input i then [(c_id c, Some (c_rows c + 1))] else [])"
proof (cases "is_row_input i")
  case True
  then obtain f where "i = FromServer f" "tag f = CHR ''D''" by (auto simp: is_row_input_def split: input.splits)
  with assms True show ?thesis
    by (simp add: cs_step_simps backend_def on_data_row_def event_def event_cycle_def Let_def)
next
  case False
  have "''result.row'' \<notin> set (map ev_event (fst (cs_step sha i s)))"
  proof (cases i)
    case (FromClient f)
    show ?thesis unfolding FromClient cs_step_simps names_frontend by (rule frontend_no_row)
  next
    case (FromServer f)
    with False have tag: "tag f \<noteq> CHR ''D''" by (simp add: is_row_input_def)
    have ready: "''result.row'' \<notin> set (ready_names new s)" for new
      by (cases "completed_event new s") (auto simp: ready_names_def dest!: completed_event_range)
    have "''result.row'' \<notin> set (backend_names f s)"
    proof (cases "tag f = CHR ''Z''")
      case True
      then show ?thesis by (cases "ready_status f") (simp_all add: backend_names_def ready)
    qed (simp add: backend_names_def tag Let_def)
    then show ?thesis unfolding FromServer cs_step_simps names_backend .
  next
    case Forwarded
    show ?thesis unfolding Forwarded cs_step_simps names_emit by simp
  qed
  from row_events_none [OF this] False show ?thesis by simp
qed

text \<open>The number of the oldest cycle and its row counter.\<close>

abbreviation row_state :: "Cycle \<Rightarrow> u64 \<times> u64" where
  "row_state c \<equiv> (c_id c, c_rows c)"

lemma row_state_step:
  assumes "quiet i" and "front_view row_state s = Some (n, k)"
  shows "front_view row_state (snd (cs_step sha i s)) = Some (n, if is_row_input i then k + 1 else k)"
proof (cases i)
  case (FromClient f)
  have "front_view row_state (allocate_epoch f t) = front_view row_state t" for t
    by (simp add: allocate_epoch_def)
  with front_view_frontend_update [of row_state s sha f] front_view_Nil [of row_state s] assms FromClient show ?thesis
    by (simp add: cs_step_simps snd_frontend client_blind_def is_row_input_def)
next
  case (FromServer f)
  from assms(2) have row: "front_view (\<lambda>c. (c_id c, c_rows c + 1)) s = Some (n, k + 1)"
    by (auto simp: front_view_def)
  from FromServer assms row show ?thesis
    by (simp add: cs_step_simps quiet_def is_row_input_def backend_def on_parameter_status_def on_data_row_def on_error_def
        front_view_on_ack Let_def del: emit.simps split: option.split)
next
  case Forwarded
  with assms show ?thesis by (simp add: cs_step_simps is_row_input_def del: emit.simps)
qed

lemma row_events_run:
  assumes "front_view row_state s = Some (n, k)" and "list_all quiet is"
  shows "map (\<lambda>e. (ev_query_cycle e, ev_row_index e)) (row_events (fst (cs_run sha is s))) =
    map (\<lambda>j. (n, Some (k + of_nat (Suc j)))) [0..<length (filter is_row_input is)]"
  using assms
proof (induction "is" arbitrary: s k)
  case (Cons i "is")
  from Cons.prems(1) obtain c where c: "front_of (cycles s) = Some c" "c_id c = n" "c_rows c = k"
    by (auto simp: front_view_def)
  have q: "quiet i" "list_all quiet is" using Cons.prems(2) by simp_all
  note rest = Cons.IH [OF row_state_step [OF q(1) Cons.prems(1), of sha] q(2)]
  have "[0..<Suc m] = 0 # map Suc [0..<m]" for m
    by (simp add: upt_conv_Cons map_Suc_upt del: upt_Suc)
  with rest row_events_step [OF c(1), of sha i] c show ?case
    by (simp add: conn.run_Cons add_ac del: cs_run.simps upt_Suc)
qed simp

text \<open>Only the oldest cycle has delivered rows.\<close>

definition rows_inv :: "ConnectionState \<Rightarrow> bool" where
  "rows_inv s \<longleftrightarrow> list_all (\<lambda>c. c_rows c = 0) (tl (cycles s))"

lemma tl_map_front [simp]: "tl (map_front f xs) = tl xs"
  by (cases xs) simp_all

lemma tl_map_back: "tl (map_back f xs) = (if length xs \<le> 1 then [] else map_back f (tl xs))"
  by (cases "(f, xs)" rule: map_back.cases) simp_all

lemma rows_inv_ext [simp]:
  "rows_inv (s\<lparr>prepared := x\<rparr>) = rows_inv s" "rows_inv (s\<lparr>portals := x\<rparr>) = rows_inv s"
  "rows_inv (s\<lparr>confirmed_prepared := x\<rparr>) = rows_inv s" "rows_inv (s\<lparr>confirmed_portals := x\<rparr>) = rows_inv s"
  "rows_inv (s\<lparr>tx_epoch := n\<rparr>) = rows_inv s" "rows_inv (s\<lparr>counters := m\<rparr>) = rows_inv s"
  "rows_inv (s\<lparr>reliable := b\<rparr>) = rows_inv s" "rows_inv (s\<lparr>cs_startup := u\<rparr>) = rows_inv s"
  "rows_inv (s\<lparr>tx_state := t\<rparr>) = rows_inv s" "rows_inv (on_front f s) = rows_inv s"
  by (simp_all add: rows_inv_def)

lemma rows_inv_cycle [simp]: "rows_inv s \<Longrightarrow> rows_inv (cycle b s)"
  by (cases "cycles s") (simp_all add: rows_inv_def cycle_def Cycle_default_def)

lemma rows_inv_on_back [simp]:
  "rows_inv s \<Longrightarrow> (\<And>c. c_rows (f c) = c_rows c) \<Longrightarrow> rows_inv (on_back f s)"
  by (simp add: rows_inv_def tl_map_back list_all_ends)

lemma rows_inv_frontend: "rows_inv s \<Longrightarrow> rows_inv (snd (frontend sha f s))"
  by (simp add: snd_frontend allocate_epoch_def client_defs push_mutation_def split: option.split list.split)

lemma rows_inv_on_ack: "rows_inv s \<Longrightarrow> rows_inv (on_ack f s)"
  by (auto simp: on_ack_def pop_mutation_def split: prod.splits option.splits Mutation.splits)

lemma rows_inv_finish_cycle: "rows_inv s \<Longrightarrow> rows_inv (finish_cycle new s)"
  by (cases "tl (cycles s)") (simp_all add: rows_inv_def finish_cycle_def Let_def)

lemma rows_inv_backend: "rows_inv s \<Longrightarrow> rows_inv (snd (backend f s))"
  by (simp add: backend_def on_parameter_status_def on_data_row_def on_error_def on_ready_def
      on_command_complete_def on_portal_suspended_def rows_inv_on_ack rows_inv_finish_cycle Let_def
      del: emit.simps split: option.split)

lemma rows_inv_step: "rows_inv s \<Longrightarrow> rows_inv (snd (cs_step sha i s))"
  by (cases i) (simp_all add: cs_step_simps rows_inv_frontend rows_inv_backend del: emit.simps)

interpretation rows: invariant_machine "cs_step sha" "cs_run sha" rows_inv for sha
  by unfold_locales (rule rows_inv_step)

text \<open>
  An input after which no row of the current result has been delivered: CommandComplete or
  PortalSuspended, the ReadyForQuery that ends a cycle, and a message that opens the first cycle.
\<close>

definition result_starts :: "input \<Rightarrow> ConnectionState \<Rightarrow> bool" where
  "result_starts i s =
     (case i of
        FromServer f \<Rightarrow> tag f \<in> {CHR ''C'', CHR ''s''} \<or> tag f = CHR ''Z'' \<and> ready_status f \<noteq> None
      | FromClient f \<Rightarrow> cycles s = []
      | Forwarded \<Rightarrow> False)"

lemma frontend_first_cycle:
  assumes "cycles s = []" and "front_of (cycles (snd (frontend sha f s))) = Some c"
  shows "c_rows c = 0"
  using assms
  by (auto simp: snd_frontend allocate_epoch_def client_defs push_mutation_def cycle_def on_back_def Cycle_default_def
      back_of_def split: option.splits list.splits if_splits)

lemma result_starts_rows:
  assumes "rows_inv s" and "result_starts i s" and "front_of (cycles (snd (cs_step sha i s))) = Some c"
  shows "c_rows c = 0"
proof (cases i)
  case (FromClient f)
  with assms frontend_first_cycle show ?thesis by (simp add: result_starts_def cs_step_simps)
next
  case Forwarded
  with assms(2) show ?thesis by (simp add: result_starts_def)
next
  case (FromServer f)
  show ?thesis
  proof (cases "tag f = CHR ''Z''")
    case True
    with FromServer assms(2) obtain new where new: "ready_status f = Some new" by (auto simp: result_starts_def)
    have "cycles (snd (backend f s)) = tl (cycles s)"
      using True new by (simp add: backend_def on_ready_def finish_cycle_def Let_def del: emit.simps)
    with assms(1,3) FromServer show ?thesis
      by (cases "tl (cycles s)") (simp_all add: cs_step_simps rows_inv_def)
  next
    case False
    with FromServer assms(2,3) show ?thesis
      by (auto simp: result_starts_def cs_step_simps backend_def on_command_complete_def on_portal_suspended_def
          Let_def simp del: emit.simps)
  qed
qed

section \<open>Properties\<close>

text \<open>
  C24: all events of a transaction carry one epoch, a new one. Take an idle session and the message that opens work
  in it: a query or Execute while nothing is outstanding, or the first Execute of the only, unfinished
  cycle. Its own events, those of BEGIN if it is one, and every event up to and including the
  ReadyForQuery that reports idle again carry the epoch after the one of before, whatever the client
  pipelines in between and whatever states the server reports in between.
\<close>

theorem transaction_epoch_constant:
  assumes "opens_work f s" and "list_all (\<lambda>i. \<not> idle_ready i) is"
  shows "\<forall>e \<in> set (fst (cs_run sha (FromClient f # is @ [i]) s)). ev_transaction_epoch e = tx_epoch s + 1"
proof -
  note start = opens_work_frontend [OF assms(1), where sha = sha]
  from cs_run_epoch [OF start(1) assms(2), of sha i] start(2,3) show ?thesis
    by (simp only: conn.run_Cons cs_step_simps fst_conv set_append ball_Un) simp
qed

theorem transaction_epoch_constant_witness:
  "list_all (\<lambda>e. ev_transaction_epoch e = 1)
     (fst (cs_run (\<lambda>sql. sql)
       (FromClient (frame (CHR ''Q'') (''BEGIN'' @ [NUL])) #
        [FromClient commit_query, FromServer (frame (CHR ''Z'') ''T''), FromServer commit_done] @ [FromServer ready_idle])
       (ConnectionState_new 1 example_meta)))"
proof -
  have "opens_work (frame (CHR ''Q'') (''BEGIN'' @ [NUL])) (ConnectionState_new 1 example_meta)"
    by (simp add: opens_work_def ConnectionState_new_def)
  from transaction_epoch_constant [OF this, of "[FromClient commit_query, FromServer (frame (CHR ''Z'') ''T''), FromServer commit_done]"]
  show ?thesis by (simp add: idle_ready_def list_all_iff ConnectionState_new_def del: cs_run.simps)
qed

text \<open>
  C39: the rows of a result are numbered from 1. In any session of a connection, take an input after which a
  result begins: a message that opens the first outstanding cycle, CommandComplete or PortalSuspended
  (the end of the previous result of the cycle), or a ReadyForQuery after which a pipelined
  cycle is next. As long as the server sends none of these again, the events of its DataRow frames carry
  the row indices 1, 2, 3 and so on and the number of the oldest cycle, whatever else either side sends
  in between.
\<close>

theorem rows_numbered:
  assumes "s = snd (cs_run sha before (ConnectionState_new cid meta))" and "result_starts i s"
    and "front_of (cycles (snd (cs_step sha i s))) = Some c" and "list_all quiet is"
  shows "map (\<lambda>e. (ev_query_cycle e, ev_row_index e))
      (filter (\<lambda>e. ev_event e = ''result.row'') (fst (cs_run sha is (snd (cs_step sha i s))))) =
    map (\<lambda>k. (c_id c, Some (of_nat (Suc k)))) [0..<length (filter is_row_input is)]"
proof -
  have "rows_inv (ConnectionState_new cid meta)" by (simp add: rows_inv_def ConnectionState_new_def)
  then have "rows_inv s" unfolding assms(1) by (rule rows.inv_run)
  from result_starts_rows [OF this assms(2,3)] assms(3)
  have "front_view row_state (snd (cs_step sha i s)) = Some (c_id c, 0)" by (simp add: front_view_def)
  from row_events_run [OF this assms(4), of sha] show ?thesis by simp
qed

theorem rows_numbered_witness:
  "map ev_row_index (filter (\<lambda>e. ev_event e = ''result.row'')
     (fst (cs_run (\<lambda>sql. sql) [FromServer (frame (CHR ''D'') []), FromServer notice, FromServer (frame (CHR ''D'') [])]
       (snd (cs_step (\<lambda>sql. sql) (FromClient commit_query) (ConnectionState_new 1 example_meta)))))) = [Some 1, Some 2]"
proof -
  let ?s = "ConnectionState_new 1 example_meta"
  have s: "?s = snd (cs_run (\<lambda>sql. sql) [] ?s)" by simp
  have step: "snd (cs_step (\<lambda>sql. sql) (FromClient commit_query) ?s) = commit_session"
    by (simp add: cs_step_simps commit_session_def)
  have "result_starts (FromClient commit_query) ?s" by (simp add: result_starts_def ConnectionState_new_def)
  from rows_numbered [OF s this, of commit_cycle "[FromServer (frame (CHR ''D'') []), FromServer notice, FromServer (frame (CHR ''D'') [])]"] step
  have "map (\<lambda>e. (ev_query_cycle e, ev_row_index e)) (filter (\<lambda>e. ev_event e = ''result.row'')
     (fst (cs_run (\<lambda>sql. sql) [FromServer (frame (CHR ''D'') []), FromServer notice, FromServer (frame (CHR ''D'') [])]
       commit_session))) = [(1, Some 1), (1, Some 2)]"
    by (simp add: quiet_def is_row_input_def upt_rec del: cs_run.simps)
  from arg_cong [OF this, of "map snd"] step show ?thesis by (simp add: comp_def del: cs_run.simps)
qed

end
