(* ===== verification/Spec2Isabelle.thy ===== *)
theory Spec2Isabelle
  imports Cli Proxy_System Relay_Endings Sql_Grammar Vocabulary Conn_Front
begin

text \<open>
  \<^bold>\<open>pgfault\<close>, a PostgreSQL proxy that injects faults at semantic boundaries of the protocol.

  The program accepts client connections, opens one connection to the server for each, and relays the
  frames of both sides unchanged while an observer follows the protocol and names what happens
  (\<^verbatim>\<open>transaction.commit.completed\<close>, \<^verbatim>\<open>result.row\<close> and so on). Every event goes to a trace file and to the
  matchers of the loaded scenarios; a scenario that fires may suppress the current frame, delay it,
  truncate a result or disconnect one side. A completion must not reach the client before the fault on
  it is decided: CommandComplete is held back (the completion gate) until the ReadyForQuery that
  confirms it. A trace can be turned back into scenarios that repeat its faults.

  \<^bold>\<open>Theories and sources\<close> (paths under \<^verbatim>\<open>src/crates\<close>)

  \<^item> \<open>Prelude\<close>: bytes, results and the question-mark operator, operations that change a state and may fail
    (\<open>io\<close>, \<open>and_then\<close>), byte sinks that may fill up, UTF-8, lines of a file, and the locales \<open>machine\<close>,
    \<open>invariant_machine\<close> and \<open>io_loop\<close> (what a step function and its run promise; the relay over results,
    the loop over sockets and the listener interpret \<open>io_loop\<close>).
  \<^item> \<open>Wire\<close> (\<^verbatim>\<open>pgfault-wire/src/lib.rs\<close>): frames, the bounded decoder, the frame reader over arbitrary
    reads, startup packets, C strings. The locale \<open>frame_codec\<close> is interpreted by the decoder.
  \<^item> \<open>Events\<close>, \<open>Sql_Grammar\<close> (\<^verbatim>\<open>pgfault-events/src/lib.rs\<close>): statements, events, and the SQL classifier with its
    lexical elements; a grammar of the texts, given by inductive definitions, which the classifier decides.
  \<^item> \<open>Scenario\<close> (\<^verbatim>\<open>pgfault-scenario/src/lib.rs\<close>): scenarios, validation, selection and the matcher, which
    interprets the locale \<open>one_shot\<close>.
  \<^item> \<open>Conn_State\<close>, \<open>Conn_Props\<close>, \<open>Conn_Inv\<close>, \<open>Conn_Front\<close> (\<^verbatim>\<open>pgfault-state/src/lib.rs\<close>): the observer, one
    definition per message; completion events and the gate; the queue of query cycles, speculative and
    confirmed prepared statements; the oldest cycle, with the epoch of a transaction and the rows of a result.
  \<^item> \<open>Vocabulary\<close>: the names of events and their directions in \<^verbatim>\<open>Scenario::validate\<close> against the events the
    observer can emit.
  \<^item> \<open>Trace\<close> (\<^verbatim>\<open>pgfault-trace/src/lib.rs\<close>): recorder and replay.
  \<^item> \<open>Tls_Stream\<close> (\<^verbatim>\<open>pgfault-proxy/src/tls.rs\<close>): plain and encrypted streams, TLS configuration.
  \<^item> \<open>Relay\<close>, \<open>Relay_Steps\<close>, \<open>Relay_Props\<close>, \<open>Relay_Faults\<close>, \<open>Relay_Endings\<close> (\<^verbatim>\<open>pgfault-proxy/src/lib.rs\<close>):
    \<^verbatim>\<open>apply\<close> and the relay loop over the results of the readers; what one turn does; transparency and order
    of whole runs; faults, gate, truncation, delays and trace; how a session ends and the limit of the gate.
  \<^item> \<open>Select_Loop\<close> (the \<^verbatim>\<open>select!\<close> loop of \<^verbatim>\<open>connection\<close> with the buffers and sockets of its two readers): it
    refines the loop over results for every fragmentation and schedule, and no byte is lost.
  \<^item> \<open>Connection\<close>, \<open>Connection_Props\<close> (\<^verbatim>\<open>pgfault-proxy/src/lib.rs\<close>): startup, negotiation, cancellation, the
    server connection, \<^verbatim>\<open>connection\<close> as a whole, and the loop of \<^verbatim>\<open>serve\<close>.
  \<^item> \<open>Shared_Trace\<close>: no operation of a connection can see what others wrote to the trace. The locales
    \<open>shared_log\<close>, \<open>shared_part\<close> and \<open>private_part\<close> are interpreted for the states of the recorder, of
    \<^verbatim>\<open>apply\<close>, of the relay, of the loop and of the setup.
  \<^item> \<open>Proxy_System\<close>: the listener and all tasks as one labelled step relation (\<open>sys_step\<close>, \<open>sys_run\<close>), with
    well-formedness and isolation as invariants.
  \<^item> \<open>Cli\<close> (\<^verbatim>\<open>pgfault-cli/src/main.rs\<close>): options, commands and the probe.
  \<^item> this theory: properties that span the relay, the recorder and the replay, and the command line and
    the running proxy.

  \<^bold>\<open>How the model corresponds to the code.\<close> A struct is a record with the fields of the source (prefixed), an
  enum a datatype, a match arm of a handler a definition of its own. Counters of the source are 64-bit
  words and wrap; lengths are natural numbers. An error is a value of \<open>err\<close>, a panic the value \<open>Panic\<close>.
  Writing to a socket or file goes to a byte sink whose remaining room is part of the state, so that
  every write may fail and leave a partial write behind. A run of the relay is the sequence of the
  results of the two frame readers in the order in which the loop takes them; a run of the \<^verbatim>\<open>select!\<close> loop
  is the sequence of the sides that are polled, over the reads the two sockets will see; properties
  quantify over all of these, hence over all interleavings and fragmentations. A run is \<open>None\<close> while the
  loop goes on. In the system, a turn of a task is its setup or one poll of its loop; a turn is a unit,
  which is where the model is coarser than the code: a task may also give way to others inside a turn,
  while it writes to a socket or waits for a delay.
  Libraries and the system are parameters: the SHA-256 digest, \<^verbatim>\<open>serde_json\<close>, \<^verbatim>\<open>serde_yaml\<close>, \<^verbatim>\<open>humantime\<close>,
  the TLS handshakes and PEM parsers, the file system, the network, the external command and the
  database client of the probe.

  \<^bold>\<open>What is shown.\<close> The frame reader is independent of how the network cuts the stream. The
  classifier decides a grammar of single statements. A matcher fires exactly at the event that is the n-th it
  counts. The observer emits a commit completion exactly for a confirmed commit, and the gate was asked for
  every completion it reports, at the latest CommandComplete frame, unless that belongs to a BEGIN or
  PortalSuspended follows it (where the gate can indeed be missed: \<open>suspended_portal_not_gated\<close>);
  cycles and occurrences are numbered in order, the rows of a result from 1, all events of a transaction carry
  one epoch, and the speculative statements are the confirmed ones plus what is pending. The relay never invents
  or reorders bytes, is transparent until a scenario fires, fails exactly when more than 1 MiB would be held,
  ends only for one of five reasons, delivers exactly the rows of a truncation, and a fault on a completion for
  which the gate was asked comes before any byte of it; the trace is exactly the record of events and faults,
  delays add up, and the trace can be replayed. With TLS to the server, no session runs on an unencrypted server
  connection; a cancellation is forwarded in plain text. A session without scenarios is transparent from its
  first byte to its last, whatever the network does with the bytes. Connections do not influence each other:
  each behaves as if it were alone, and the trace file is an interleaving of their traces; every state the proxy
  can reach is well-formed and runs valid scenarios only. A second SSLRequest inside TLS stops the whole proxy.

  \<^bold>\<open>Loops and bounds.\<close> No definition uses fuel. The frame reader, the relay, the loop over sockets and the
  listener recurse over the reads, results, polls and events they are given; the classifier, the startup parameters and the negotiation
  terminate by measures (the negotiation because a stream becomes encrypted at most once and every other
  round consumes a packet). The bounds are those of the code: 64 MiB for a frame, 1 MiB for a startup
  packet and for held frames, 24 hours for a delay.

  \<^bold>\<open>What is not modelled.\<close> Log output, signal handling, the cryptography of \<^verbatim>\<open>rustls\<close> (handshakes, record
  layer, certificate checks are parameters), argument parsing beyond the dependencies between options,
  the flushing of streams and the poisoning of the mutex of the trace file (its critical section only
  serialises and writes), and the tests, scripts and harnesses of the repository.
\<close>

section \<open>A recorded run can be replayed\<close>

text \<open>The faults of a trace are exactly the places where a matcher answers true.\<close>

lemma trace_fault_iff:
  "Fault e s \<in> set (trace_records ms es) \<longleftrightarrow>
   (\<exists>m \<in> set ms. m_scenario m = s \<and> (\<exists>i < length es. es ! i = e \<and> fst (feed observe m es) ! i))"
proof (induction es arbitrary: ms)
  case (Cons x es)
  have here: "Fault e s \<in> set (map (Fault x) (firing x ms)) \<longleftrightarrow> (\<exists>m \<in> set ms. m_scenario m = s \<and> x = e \<and> fst (observe m x))"
    by (auto simp: firing_def)
  have split: "(\<exists>i < length (x # es). (x # es) ! i = e \<and> fst (feed observe m (x # es)) ! i) \<longleftrightarrow>
    x = e \<and> fst (observe m x) \<or> (\<exists>i < length es. es ! i = e \<and> fst (feed observe (snd (observe m x)) es) ! i)" for m
    by (auto simp: Let_def less_Suc_eq_0_disj)
  have "Fault e s \<in> set (trace_records (offered x ms) es) \<longleftrightarrow>
    (\<exists>m \<in> set ms. m_scenario m = s \<and> (\<exists>i < length es. es ! i = e \<and> fst (feed observe (snd (observe m x)) es) ! i))"
    unfolding Cons.IH by (auto simp: offered_def)
  with here show ?case unfolding split by auto
qed simp

lemma feed_True_counted:
  assumes "fst (feed observe m es) ! i" and "i < length es"
  shows "counted (m_scenario m) (es ! i)"
  using assms
proof (induction es arbitrary: m i)
  case (Cons e es)
  show ?case
  proof (cases i)
    case 0
    with Cons.prems observe_TrueD [of m e] show ?thesis by (simp add: Let_def counted_def)
  next
    case (Suc j)
    with Cons.prems Cons.IH [of "snd (observe m e)" j] show ?thesis by (simp add: Let_def)
  qed
qed simp

lemma replays_member: "s' \<in> set (replays rs) \<longleftrightarrow> (\<exists>e s. Fault e s \<in> set rs \<and> s' = replay_scenario e s)"
  by (induction rs rule: replays.induct) auto

text \<open>The replays of the faults that happened in a session: scenarios of \<open>ss\<close> that fired on events of \<open>es\<close>.\<close>

definition fault_replays :: "Scenario list \<Rightarrow> Event list \<Rightarrow> Scenario set" where
  "fault_replays ss es =
     {replay_scenario (es ! i) s |s i. s \<in> set ss \<and> i < length es \<and> fst (feed observe (Matcher_new s) es) ! i}"

lemma replays_trace:
  assumes "\<And>e s. Fault e s \<in> set rs \<longleftrightarrow> Fault e s \<in> set (trace_records (map Matcher_new ss) es)"
  shows "set (replays rs) = fault_replays ss es"
proof -
  have "s' \<in> set (replays rs) \<longleftrightarrow> s' \<in> fault_replays ss es" for s'
    unfolding replays_member assms trace_fault_iff fault_replays_def by (force simp: Matcher_new_def)
  then show ?thesis by blast
qed

lemma run_trace_reads:
  assumes "relay env as r = (res, r')" and "\<forall>e. res \<noteq> Some (Inl e)"
    and "\<And>rec l. env_to_json env rec = Inr l \<Longrightarrow> line_ok l \<and> from_json l = Inr rec"
    and "trace_lines env pre ls" and "written (n_trace (r_net r)) = as_lines ls" and "replays pre = []"
  shows "\<exists>k ins es rs. run_inputs (take k as) ins \<and> es = fst (cs_run (env_sha env) ins (r_state r)) \<and>
    (res = None \<longrightarrow> take k as = as) \<and>
    list_all2 (reads_as from_json) (file_lines (written (n_trace (r_net r')))) rs \<and>
    (\<forall>e s. Fault e s \<in> set rs \<longleftrightarrow> Fault e s \<in> set (trace_records (n_matchers (r_net r)) es)) \<and>
    fired_count (n_matchers (r_net r')) = fired_count (n_matchers (r_net r)) +
      length (filter is_fault (trace_records (n_matchers (r_net r)) es))"
proof -
  from relay_ended_follows [OF assms(1,2)] obtain k ins extra where
    k: "run_inputs (take k as) ins" "res = None \<longrightarrow> take k as = as"
    and extra: "extra \<in> {[], [Lifecycle (r_id r) ''result.truncated'' []]}" and e: "ended_follows env ins extra r r'"
    by blast
  let ?rs = "trace_records (n_matchers (r_net r)) (events_of env ins r)"
  from e obtain ls' where ls': "trace_lines env (?rs @ extra) ls'"
    "written (n_trace (r_net r')) = as_lines (ls @ ls')"
    using assms(5) by (auto simp: ended_follows_def logs_def)
  have "list_all2 (\<lambda>r l. env_to_json env r = Inr l) (pre @ ?rs @ extra) (ls @ ls')"
    using assms(4) ls'(1) unfolding trace_lines_def by (rule list_all2_appendI)
  from recorded_reads_as [OF this assms(3)] ls'(2)
  have "list_all2 (reads_as from_json) (file_lines (written (n_trace (r_net r')))) (pre @ ?rs @ extra)" by simp
  moreover have "\<forall>e s. Fault e s \<in> set (pre @ ?rs @ extra) \<longleftrightarrow> Fault e s \<in> set ?rs"
    using extra assms(6) replays_member [of _ pre] by auto
  moreover have "fired_count (n_matchers (r_net r')) = fired_count (n_matchers (r_net r)) + length (filter is_fault ?rs)"
    using e by (simp add: ended_follows_def fired_count_offered_all trace_records_faults)
  ultimately show ?thesis using k unfolding events_of_def by blast
qed

text \<open>
  C19: what a run records can be replayed. Take a run of the relay with fresh matchers of valid scenarios that
  has not failed, on a trace file that holds no fault yet, and a serialisation that puts a record on one
  line and reads it back. If a scenario fired, \<^verbatim>\<open>replay\<close> accepts the trace file. Let \<open>es\<close> be the events
  the observer emitted in the run. Every schedule that \<^verbatim>\<open>replay\<close> returns is valid and is the replay, at
  the event of \<open>es\<close> where it fired, of a configured scenario that fired in this run; and every such
  fault is among the schedules, up to the serialisation that removes duplicates. Faults at a row
  numbered 0, which takes \<open>2 ^ 64\<close> rows, are excluded.
\<close>

theorem recorded_run_replays:
  assumes "relay env as r = (res, r')" and "\<forall>e. res \<noteq> Some (Inl e)"
    and "\<And>rec l. env_to_json env rec = Inr l \<Longrightarrow> line_ok l \<and> from_json l = Inr rec"
    and "\<And>s. \<exists>k. to_key s = Inr k"
    and "trace_lines env pre ls" and "written (n_trace (r_net r)) = as_lines ls" and "replays pre = []"
    and "n_matchers (r_net r) = map Matcher_new ss" and "list_all (\<lambda>s. validate pd s = Inr ()) ss"
    and "\<And>l e s. Inr l \<in> set (file_lines (written (n_trace (r_net r')))) \<Longrightarrow> from_json l = Inr (Fault e s) \<Longrightarrow>
      ev_row_index e \<noteq> Some 0"
    and "\<exists>m \<in> set (n_matchers (r_net r')). m_fired m"
  shows "\<exists>schedules k ins es.
    replay (\<lambda>_. Inr (file_lines (written (n_trace (r_net r'))))) from_json to_key pd path = Inr schedules \<and>
    schedules \<noteq> [] \<and> list_all (\<lambda>s. validate pd s = Inr ()) schedules \<and>
    run_inputs (take k as) ins \<and> (res = None \<longrightarrow> take k as = as) \<and>
    es = fst (cs_run (env_sha env) ins (r_state r)) \<and>
    (\<forall>s' \<in> set schedules. \<exists>s \<in> set ss. \<exists>i < length es.
       fst (feed observe (Matcher_new s) es) ! i \<and> s' = replay_scenario (es ! i) s) \<and>
    (\<forall>s \<in> set ss. \<forall>i < length es. fst (feed observe (Matcher_new s) es) ! i \<longrightarrow>
       to_key (replay_scenario (es ! i) s) \<in> to_key ` set schedules)"
proof -
  let ?lines = "file_lines (written (n_trace (r_net r')))"
  from run_trace_reads [OF assms(1-3,5-7)] obtain k ins es rs where
    k: "run_inputs (take k as) ins" "res = None \<longrightarrow> take k as = as" "es = fst (cs_run (env_sha env) ins (r_state r))"
    and reads: "list_all2 (reads_as from_json) ?lines rs"
    and rs: "\<And>e s. Fault e s \<in> set rs \<longleftrightarrow> Fault e s \<in> set (trace_records (map Matcher_new ss) es)"
    and count: "fired_count (n_matchers (r_net r')) =
      fired_count (map Matcher_new ss) + length (filter is_fault (trace_records (map Matcher_new ss) es))"
    unfolding assms(8) by blast
  have "validate pd (replay_scenario e s) = Inr ()" if "Fault e s \<in> set rs" for e s
  proof -
    from that obtain i where "i < length rs" "rs ! i = Fault e s" by (auto simp: in_set_conv_nth)
    with reads obtain l where "Inr l \<in> set ?lines" "from_json l = Inr (Fault e s)"
      by (auto simp: list_all2_conv_all_nth reads_as_def) (metis nth_mem)
    with assms(10) have row: "ev_row_index e \<noteq> Some 0" by blast
    from that have "s \<in> set ss" "counted s e"
      unfolding rs trace_fault_iff using feed_True_counted by (fastforce simp: Matcher_new_def)+
    with assms(9) replay_scenario_valid [OF _ _ row] show ?thesis by (auto simp: list_all_iff)
  qed
  then have ok: "list_all (\<lambda>s. validate pd s = Inr () \<and> (\<exists>k. to_key s = Inr k)) (replays rs)"
    using assms(4) by (auto simp: list_all_iff replays_member)
  obtain out where out: "replay_loop from_json to_key pd ?lines {} [] = Inr out"
    using replay_loop_complete [OF reads ok] by blast
  from replay_loop_result [OF out keyed_Nil] reads_as_unique [OF reads]
  have sub: "set out \<subseteq> fault_replays ss es" "to_key ` fault_replays ss es \<subseteq> to_key ` set out"
    unfolding replays_trace [OF rs, symmetric] by auto
  have "0 < fired_count (n_matchers (r_net r'))" using assms(11) by (auto simp: fired_count_def filter_empty_conv)
  moreover have "fired_count (map Matcher_new ss) = 0" by (simp add: fired_count_def Matcher_new_def filter_empty_conv)
  ultimately obtain x where x: "x \<in> set (trace_records (map Matcher_new ss) es)" "is_fault x"
    using count by (auto simp: filter_empty_conv)
  from x(2) obtain e s where "x = Fault e s" by (cases x) simp_all
  with x(1) rs have "Fault e s \<in> set rs" by blast
  then have "fault_replays ss es \<noteq> {}" using replays_trace [OF rs] replays_member [of _ rs] by blast
  with sub(2) have "out \<noteq> []" by auto
  with out have "replay (\<lambda>_. Inr ?lines) from_json to_key pd path = Inr out" by (simp add: replay_eq_Inr)
  with replay_valid [OF this] \<open>out \<noteq> []\<close> k sub show ?thesis
    by (intro exI [of _ out] exI [of _ k] exI [of _ ins] exI [of _ es]) (force simp: fault_replays_def)
qed

text \<open>
  The session that commits, at the frame that triggers the fault, with a serialisation of exactly the
  records of this session: a record is written as as many letters as its position.
\<close>

definition commit_acknowledged :: ConnectionState where
  "commit_acknowledged = snd (backend commit_done commit_session)"

definition session_records :: "Record list" where
  "session_records = trace_records [Matcher_new ambiguous_commit] (fst (backend ready_idle commit_acknowledged))"

definition session_env :: Env where
  "session_env =
     \<lparr>env_sha = \<lambda>sql. sql,
      env_to_json = \<lambda>r. if r \<in> set session_records
        then Inr (replicate (length (takeWhile (\<lambda>x. x \<noteq> r) session_records)) (CHR ''x''))
        else Inl (External ''unknown record''),
      env_parse_duration = \<lambda>_. Inl (External ''no duration'')\<rparr>"

definition session_from_json :: "string \<Rightarrow> err + Record" where
  "session_from_json l =
     (if length l < length session_records then Inr (session_records ! length l) else Inl (External ''unknown line''))"

definition session_relay :: Relay where
  "session_relay = (example_relay [Matcher_new ambiguous_commit])\<lparr>r_state := commit_acknowledged\<rparr>"

lemma first_position:
  "r \<in> set rs \<Longrightarrow> length (takeWhile (\<lambda>x. x \<noteq> r) rs) < length rs \<and> rs ! length (takeWhile (\<lambda>x. x \<noteq> r) rs) = r"
  by (induction rs) auto

lemma session_roundtrip:
  assumes "env_to_json session_env r = Inr l"
  shows "line_ok l \<and> session_from_json l = Inr r"
proof -
  let ?n = "length (takeWhile (\<lambda>x. x \<noteq> r) session_records)"
  from assms have r: "r \<in> set session_records" and l: "l = replicate ?n (CHR ''x'')"
    by (auto simp: session_env_def split: if_splits)
  note first_position [OF r]
  moreover have "line_ok l"
    unfolding l by (auto simp: line_ok_def strip_cr_def list_all_length is_ascii_def from_utf8_lossy_ascii)
  ultimately show ?thesis by (simp add: session_from_json_def l)
qed

lemma session_run:
  "\<exists>r'. relay session_env [ServerNext (Inr (Some ready_idle))] session_relay = (Some (Inr ()), r') \<and>
     (\<exists>m \<in> set (n_matchers (r_net r')). m_fired m)"
proof -
  let ?ms = "[Matcher_new ambiguous_commit]"
  have es: "events_of session_env [FromServer ready_idle] session_relay = fst (backend ready_idle commit_acknowledged)"
    by (simp add: events_of_def conn.run_single cs_step_simps session_relay_def)
  from example_commit_event [OF commit_acknowledged_def] obtain e where
    e: "e \<in> set (fst (backend ready_idle commit_acknowledged))" "ev_event e = ''transaction.commit.completed''"
      "fst (observe (Matcher_new ambiguous_commit) e)" by blast
  have "distinct (map ev_event (fst (backend ready_idle commit_acknowledged)))"
    using completion_events_distinct [OF e(1)] e(2) by simp
  from firings_member [OF _ e(1,3) this, of ?ms]
  have fired: "ambiguous_commit \<in> set (firings (fst (backend ready_idle commit_acknowledged)) ?ms)"
    by (simp add: Matcher_new_def)
  have "net_healthy (r_net session_relay)" and ms: "n_matchers (r_net session_relay) = ?ms"
    by (simp_all add: session_relay_def net_healthy_def healthy_def example_defs)
  moreover have "delay_parses session_env ambiguous_commit"
    by (simp add: delay_parses_def ambiguous_commit_def Action_default_def)
  ultimately obtain d n where ap: "apply_loop session_env (fst (backend ready_idle commit_acknowledged))
      Disposition_default (r_net session_relay) = (Inr d, n)"
    using apply_loop_healthy [of "r_net session_relay" "fst (backend ready_idle commit_acknowledged)" session_env Disposition_default]
    by (auto simp: session_env_def session_records_def Matcher_new_def)
  note a = apply_loop_acted [OF ap, unfolded ms]
  have "act_disconnect (sc_action ambiguous_commit) \<noteq> None" by (simp add: ambiguous_commit_def)
  with a fired have d: "d_disconnect d" by auto
  have "fired_count (n_matchers n) \<noteq> 0" using a fired by (auto simp: fired_count_offered_all)
  then have m: "\<exists>m \<in> set (n_matchers n). m_fired m" by (auto simp: fired_count_def filter_empty_conv)
  have "observing session_env (FromServer ready_idle) session_relay =
      (Inr d, session_relay\<lparr>r_state := snd (backend ready_idle commit_acknowledged), r_net := n\<rparr>)"
    using ap by (simp add: observing_def cs_step_simps apply_events_def on_part_def session_relay_def case_prod_beta)
  with d have "relay session_env [ServerNext (Inr (Some ready_idle))] session_relay =
      (Some (Inr ()), session_relay\<lparr>r_state := snd (backend ready_idle commit_acknowledged), r_net := n\<rparr>)"
    by (simp add: relay_step_def on_server_def server_frame_def)
  with m show ?thesis by simp
qed

theorem recorded_run_replays_witness:
  "\<exists>r' schedules. relay session_env [ServerNext (Inr (Some ready_idle))] session_relay = (Some (Inr ()), r') \<and>
     replay (\<lambda>_. Inr (file_lines (written (n_trace (r_net r'))))) session_from_json (\<lambda>s. Inr (sc_name s))
       (\<lambda>_. Inl (External ''no duration'')) ''t'' = Inr schedules \<and> schedules \<noteq> [] \<and>
     list_all (\<lambda>s. validate (\<lambda>_. Inl (External ''no duration'')) s = Inr ()) schedules"
proof -
  from session_run obtain r' where run: "relay session_env [ServerNext (Inr (Some ready_idle))] session_relay = (Some (Inr ()), r')"
    and m: "\<exists>m \<in> set (n_matchers (r_net r')). m_fired m" by blast
  have valid: "list_all (\<lambda>s. validate (\<lambda>_. Inl (External ''no duration'')) s = Inr ()) [ambiguous_commit]"
    by (simp add: ambiguous_commit_valid)
  have row: "ev_row_index e \<noteq> Some 0" if "session_from_json l = Inr (Fault e s)" for l e s
  proof -
    from that have "Fault e s \<in> set session_records" by (auto simp: session_from_json_def split: if_splits) (metis nth_mem)
    then have e: "e \<in> set (fst (backend ready_idle commit_acknowledged))" "counted s e" "s = ambiguous_commit"
      using feed_True_counted unfolding session_records_def trace_fault_iff by (fastforce simp: Matcher_new_def)+
    then have "ev_event e \<noteq> ''result.row''" by (simp add: counted_def ambiguous_commit_def)
    with ready_event_fields(3) [OF e(1)] show ?thesis by simp
  qed
  have fresh: "written (n_trace (r_net session_relay)) = []" "n_matchers (r_net session_relay) = [Matcher_new ambiguous_commit]"
    by (simp_all add: session_relay_def example_defs)
  show ?thesis
    using recorded_run_replays [OF run _ session_roundtrip _ _ _ _ _ valid, of "\<lambda>s. Inr (sc_name s)" "[]" "[]" "''t''"] row m run
    by (auto simp: trace_lines_def fresh simp del: relay.simps)
qed

section \<open>The running program\<close>

text \<open>
  C18: whatever the program runs has been validated. When the program was started with the command \<^verbatim>\<open>run\<close> or
  \<^verbatim>\<open>replay\<close> and serves, then in every state the proxy can reach, every scenario that any connection can
  still fire, or has fired, is one of the configured ones and has passed \<^verbatim>\<open>Scenario::validate\<close>, whether it
  came from a file or from a recorded trace.
\<close>

theorem program_runs_valid_scenarios:
  assumes "main_command os served cmd = Inr (Serving la)"
    and "sys_run h (la_config la) show_err (system_start (la_trace la)) acts s" and "accepted acts < 2 ^ 64"
    and "sy_tasks s i = Some (Relaying l)" and "m \<in> set (n_matchers (r_net (l_relay l)))"
  shows "m_scenario m \<in> set (cf_scenarios (la_config la)) \<and> validate (os_parse_duration os) (m_scenario m) = Inr ()"
proof -
  from system_ok_task(3) [OF sys_run_ok [OF assms(2,3)] assms(4)]
  have "map m_scenario (n_matchers (r_net (l_relay l))) = cf_scenarios (la_config la)"
    by (simp add: task_ok_def loop_ok_def)
  with assms(5) have "m_scenario m \<in> set (cf_scenarios (la_config la))" by (metis image_eqI list.set_map)
  with served_scenarios_valid [OF assms(1)] show ?thesis by (simp add: list_all_iff)
qed

theorem program_runs_valid_scenarios_witness:
  "\<exists>la s l m. main_command example_os (\<lambda>_. Inr ())
      (Run ''127.0.0.1:15432'' ''127.0.0.1:5432'' [''s.yaml''] (Some ''t'') no_tls) = Inr (Serving la) \<and>
     sys_run (example_host silent_server) (la_config la) example_show (system_start (la_trace la)) example_actions s \<and>
     sy_tasks s 1 = Some (Relaying l) \<and> n_matchers (r_net (l_relay l)) = [m] \<and>
     validate (os_parse_duration example_os) (m_scenario m) = Inr ()"
proof -
  let ?h = "example_host silent_server"
  from example_launch obtain la where
    la: "main_command example_os (\<lambda>_. Inr ()) (Run ''127.0.0.1:15432'' ''127.0.0.1:5432'' [''s.yaml''] (Some ''t'') no_tls) =
        Inr (Serving la)" "cf_scenarios (la_config la) = [ambiguous_commit]" "cf_tls (la_config la) = TlsConfig_default"
      "la_trace la = no_trace" by (auto simp: no_trace_def)
  from example_accepted_run [of "la_config la"] la(3) obtain s l where
    run: "sys_run ?h (la_config la) example_show (system_start no_trace) example_actions s"
    and l: "sy_tasks s 1 = Some (Relaying l)" by blast
  have n: "accepted example_actions < 2 ^ 64" by (simp add: accepted_def)
  from system_ok_task(3) [OF sys_run_ok [OF run n] l] la(2) obtain m where m: "n_matchers (r_net (l_relay l)) = [m]"
    by (auto simp: task_ok_def loop_ok_def)
  from program_runs_valid_scenarios [OF la(1) _ n l, of ?h example_show m] run la(4) m
  have "validate (os_parse_duration example_os) (m_scenario m) = Inr ()" by simp
  with la(1,4) run l m show ?thesis by auto
qed

end
